(* ===== verification/Prelude.thy ===== *)
theory Prelude
  imports Main "HOL-Library.Word"
begin

text \<open>
  The vocabulary shared by every component: what a C++ call can end in besides a value
  (\<open>fault\<close>), sequencing of calls that may fault (\<open>rbind\<close>, \<open>ensure\<close>), the machine integer
  types of the sources, \<open>std::vector\<close> indexing with its undefined behaviour written out, and
  the lemmas on lists the component theories share.
\<close>

section \<open>Faults and sequencing\<close>

text \<open>
  \<open>AssertFail\<close> is \<open>SYLAR_ASSERT1\<close> / \<open>SYLAR_ASSERT2\<close> of sylar/macro.h with a false condition
  (the program logs a backtrace and aborts), \<open>Undefined\<close> is an operation the C++ standard gives
  no meaning (a null dereference, an index past the end, erasing the end iterator), \<open>Thrown\<close>
  is a C++ exception that leaves the call.
\<close>

datatype fault = AssertFail string | Undefined string | Thrown string

type_synonym 'a result = "fault + 'a"

definition rbind :: "'a result \<Rightarrow> ('a \<Rightarrow> 'b result) \<Rightarrow> 'b result" where
  "rbind m f = (case m of Inl e \<Rightarrow> Inl e | Inr x \<Rightarrow> f x)"

definition ensure :: "bool \<Rightarrow> fault \<Rightarrow> unit result" where
  "ensure b e = (if b then Inr () else Inl e)"

text \<open>\<open>SYLAR_ASSERT1(x)\<close> and \<open>SYLAR_ASSERT2(x, w)\<close>: the argument string is the asserted text.\<close>

definition SYLAR_ASSERT :: "bool \<Rightarrow> string \<Rightarrow> unit result" where
  "SYLAR_ASSERT x w = ensure x (AssertFail w)"

section \<open>Machine integers\<close>

type_synonym u32 = "32 word"
type_synonym u64 = "64 word"

section \<open>Vectors\<close>

text \<open>\<open>v[i]\<close> of a \<open>std::vector\<close> with an \<open>int\<close> index: a negative index converts to a huge
  \<open>size_t\<close>, so it is out of range as well.\<close>

definition vec_get :: "'a list \<Rightarrow> int \<Rightarrow> 'a result" where
  "vec_get v i = (if 0 \<le> i \<and> i < int (length v) then Inr (v ! nat i)
     else Inl (Undefined ''vector index out of range''))"

definition vec_set :: "'a list \<Rightarrow> int \<Rightarrow> 'a \<Rightarrow> 'a list result" where
  "vec_set v i x = (if 0 \<le> i \<and> i < int (length v) then Inr (v[nat i := x])
     else Inl (Undefined ''vector index out of range''))"

text \<open>\<open>std::vector::resize(n)\<close> with value-initialised new elements.\<close>

definition vec_resize :: "'a \<Rightarrow> nat \<Rightarrow> 'a list \<Rightarrow> 'a list" where
  "vec_resize d n v = take n v @ replicate (n - length v) d"

section \<open>Shared lemmas\<close>

named_theorems result_simps \<open>rewriting of sequenced calls\<close>

lemma rbind_simps [simp, result_simps]:
  "rbind (Inl e) f = Inl e"
  "rbind (Inr x) f = f x"
  by (simp_all add: rbind_def)

lemma rbind_Inr_iff [result_simps]:
  "rbind m f = Inr y \<longleftrightarrow> (\<exists>x. m = Inr x \<and> f x = Inr y)"
  by (cases m) simp_all

lemma rbind_Inl_iff [result_simps]:
  "rbind m f = Inl e \<longleftrightarrow> m = Inl e \<or> (\<exists>x. m = Inr x \<and> f x = Inl e)"
  by (cases m) simp_all

lemma rbind_assoc: "rbind (rbind m f) g = rbind m (\<lambda>x. rbind (f x) g)"
  by (cases m) simp_all

lemma ensure_simps [simp, result_simps]:
  "ensure True e = Inr ()"
  "ensure False e = Inl e"
  by (simp_all add: ensure_def)

lemma ensure_Inr_iff [result_simps]: "ensure b e = Inr u \<longleftrightarrow> b"
  by (simp add: ensure_def)

lemma ensure_Inl_iff [result_simps]: "ensure b e = Inl e' \<longleftrightarrow> \<not> b \<and> e' = e"
  by (auto simp: ensure_def)

lemma SYLAR_ASSERT_simps [simp, result_simps]:
  "SYLAR_ASSERT True w = Inr ()"
  "SYLAR_ASSERT False w = Inl (AssertFail w)"
  by (simp_all add: SYLAR_ASSERT_def)

lemma SYLAR_ASSERT_Inr_iff [result_simps]: "SYLAR_ASSERT b w = Inr u \<longleftrightarrow> b"
  by (simp add: SYLAR_ASSERT_def ensure_Inr_iff)

lemma SYLAR_ASSERT_Inl_iff [result_simps]: "SYLAR_ASSERT b w = Inl e \<longleftrightarrow> \<not> b \<and> e = AssertFail w"
  by (simp add: SYLAR_ASSERT_def ensure_Inl_iff)

lemma vec_get_in [simp]: "i < length v \<Longrightarrow> vec_get v (int i) = Inr (v ! i)"
  by (simp add: vec_get_def)

lemma vec_get_Inr_iff [result_simps]:
  "vec_get v i = Inr x \<longleftrightarrow> 0 \<le> i \<and> i < int (length v) \<and> x = v ! nat i"
  by (auto simp: vec_get_def)

lemma vec_set_in [simp]: "i < length v \<Longrightarrow> vec_set v (int i) x = Inr (v[i := x])"
  by (simp add: vec_set_def)

lemma length_vec_resize [simp]: "length (vec_resize d n v) = n"
  by (simp add: vec_resize_def)

lemma nth_vec_resize:
  "i < n \<Longrightarrow> vec_resize d n v ! i = (if i < length v then v ! i else d)"
  by (simp add: vec_resize_def nth_append)

lemma filter_take_drop_split:
  assumes "\<forall>x \<in> set (take i xs). P x" and "\<forall>x \<in> set (drop i xs). \<not> P x"
  shows "filter P xs = take i xs" and "filter (\<lambda>x. \<not> P x) xs = drop i xs"
proof -
  have "filter P xs = filter P (take i xs) @ filter P (drop i xs)"
    by (metis append_take_drop_id filter_append)
  with assms show "filter P xs = take i xs"
    by (simp add: filter_True filter_False)
  have "filter (\<lambda>x. \<not> P x) xs
      = filter (\<lambda>x. \<not> P x) (take i xs) @ filter (\<lambda>x. \<not> P x) (drop i xs)"
    by (metis append_take_drop_id filter_append)
  with assms show "filter (\<lambda>x. \<not> P x) xs = drop i xs"
    by (simp add: filter_True filter_False)
qed

lemma sorted_wrt_filter_keep: "sorted_wrt R xs \<Longrightarrow> sorted_wrt R (filter P xs)"
  by (induction xs) auto

lemma sorted_wrt_mono_on:
  assumes "sorted_wrt R xs" and "\<And>x y. x \<in> set xs \<Longrightarrow> y \<in> set xs \<Longrightarrow> R x y \<Longrightarrow> S x y"
  shows "sorted_wrt S xs"
  using assms by (induction xs) auto

end
