(* ===== verification/StdSet.thy ===== *)
theory StdSet
  imports Prelude
begin

text \<open>
  The ordered containers of the C++ standard library the sources use: \<open>std::set\<close> with a
  comparator and \<open>std::map\<close> keyed by an ordered type. A container is the list of its elements
  in iteration order, an iterator an index, \<open>end()\<close> the length of the list. The operations
  compare with the comparator only, as the library does.

  The contract between a container and its user is that the comparator is a strict weak
  order: the locale \<open>weak_order\<close>, refined to \<open>strict_order\<close> where different elements are never
  equivalent. The users interpret them with their own comparators: the timer queue
  (Timers.thy) and the set of logger definitions (LogConfigs.thy).
\<close>

section \<open>Operations\<close>

text \<open>\<open>lower_bound(x)\<close>: the first position whose element is not less than \<open>x\<close>.\<close>

fun set_lower_bound :: "('a \<Rightarrow> 'a \<Rightarrow> bool) \<Rightarrow> 'a \<Rightarrow> 'a list \<Rightarrow> nat" where
  "set_lower_bound lt x [] = 0"
| "set_lower_bound lt x (y # ys) = (if lt y x then Suc (set_lower_bound lt x ys) else 0)"

text \<open>\<open>insert(x)\<close>: the list after it. An element equivalent to \<open>x\<close> prevents the insertion; in
  both cases the returned iterator is at \<open>set_lower_bound lt x ys\<close>.\<close>

fun set_insert :: "('a \<Rightarrow> 'a \<Rightarrow> bool) \<Rightarrow> 'a \<Rightarrow> 'a list \<Rightarrow> 'a list" where
  "set_insert lt x [] = [x]"
| "set_insert lt x (y # ys) =
     (if lt y x then y # set_insert lt x ys else if lt x y then x # y # ys else y # ys)"

text \<open>\<open>find(x)\<close>: \<open>None\<close> stands for \<open>end()\<close>.\<close>

definition set_find :: "('a \<Rightarrow> 'a \<Rightarrow> bool) \<Rightarrow> 'a \<Rightarrow> 'a list \<Rightarrow> nat option" where
  "set_find lt x ys = (let i = set_lower_bound lt x ys
     in if i < length ys \<and> \<not> lt x (ys ! i) then Some i else None)"

text \<open>\<open>erase(it)\<close>: erasing \<open>end()\<close> is undefined.\<close>

definition set_erase :: "nat option \<Rightarrow> 'a list \<Rightarrow> 'a list result" where
  "set_erase it ys = (case it of None \<Rightarrow> Inl (Undefined ''erase(end())'')
     | Some i \<Rightarrow> Inr (take i ys @ drop (Suc i) ys))"

text \<open>\<open>m[k] = v\<close> of a \<open>std::map\<close>, on the list of its pairs in key order.\<close>

fun map_assign :: "('k \<Rightarrow> 'k \<Rightarrow> bool) \<Rightarrow> 'k \<Rightarrow> 'v \<Rightarrow> ('k \<times> 'v) list \<Rightarrow> ('k \<times> 'v) list" where
  "map_assign lt k v [] = [(k, v)]"
| "map_assign lt k v ((k', v') # m) =
     (if lt k' k then (k', v') # map_assign lt k v m
      else if lt k k' then (k, v) # (k', v') # m else (k, v) # m)"

text \<open>\<open>m.erase(k)\<close> by key.\<close>

definition map_erase :: "('k \<Rightarrow> 'k \<Rightarrow> bool) \<Rightarrow> 'k \<Rightarrow> ('k \<times> 'v) list \<Rightarrow> ('k \<times> 'v) list" where
  "map_erase lt k m = filter (\<lambda>(k', v). lt k' k \<or> lt k k') m"

section \<open>The contract of a comparator\<close>

locale weak_order =
  fixes lt :: "'a \<Rightarrow> 'a \<Rightarrow> bool"
  assumes lt_irrefl: "\<not> lt x x"
    and lt_trans: "lt x y \<Longrightarrow> lt y z \<Longrightarrow> lt x z"
    and lt_split: "lt x z \<Longrightarrow> lt x y \<or> lt y z"
begin

lemma lt_asym: "lt x y \<Longrightarrow> \<not> lt y x"
  using lt_trans lt_irrefl by blast

lemma set_insert_subset: "set (set_insert lt x ys) \<subseteq> insert x (set ys)"
  by (induction ys) auto

lemma set_insert_keeps: "set ys \<subseteq> set (set_insert lt x ys)"
  by (induction ys) auto

lemma sorted_set_insert:
  assumes "sorted_wrt lt ys"
  shows "sorted_wrt lt (set_insert lt x ys)"
  using assms
proof (induction ys)
  case Nil
  then show ?case by simp
next
  case (Cons y ys)
  show ?case
  proof (cases "lt y x")
    case True
    then show ?thesis using Cons set_insert_subset [of x ys] by auto
  next
    case False
    then show ?thesis using Cons.prems lt_trans by auto
  qed
qed

lemma lower_bound_le: "set_lower_bound lt x ys \<le> length ys"
  by (induction ys) auto

lemma lower_bound_take:
  "\<forall>y \<in> set (take (set_lower_bound lt x ys) ys). lt y x"
  by (induction ys) auto

lemma lower_bound_drop:
  assumes "sorted_wrt lt ys" and "y \<in> set (drop (set_lower_bound lt x ys) ys)"
  shows "\<not> lt y x"
  using assms
proof (induction ys)
  case Nil
  then show ?case by simp
next
  case (Cons z ys)
  then show ?case using lt_trans by (auto split: if_splits)
qed

lemma lower_bound_filter:
  assumes "sorted_wrt lt ys"
  shows "take (set_lower_bound lt x ys) ys = filter (\<lambda>y. lt y x) ys"
    and "drop (set_lower_bound lt x ys) ys = filter (\<lambda>y. \<not> lt y x) ys"
  using filter_take_drop_split [of "set_lower_bound lt x ys" ys "\<lambda>y. lt y x"]
    lower_bound_take [of x ys] lower_bound_drop [OF assms, of _ x]
  by auto

lemma sorted_take_drop:
  assumes "sorted_wrt lt ys" and "i \<le> j"
  shows "sorted_wrt lt (take i ys @ drop j ys)"
proof -
  have "sorted_wrt lt (take i ys @ drop i ys)"
    using assms by simp
  moreover have "set (drop j ys) \<subseteq> set (drop i ys)"
    using assms(2) by (rule set_drop_subset_set_drop)
  moreover have "sorted_wrt lt (drop j ys)"
    using assms(1) by (metis append_take_drop_id sorted_wrt_append)
  ultimately show ?thesis
    unfolding sorted_wrt_append by blast
qed

lemma sorted_set_erase:
  "sorted_wrt lt ys \<Longrightarrow> set_erase it ys = Inr zs \<Longrightarrow> sorted_wrt lt zs"
  using sorted_take_drop [of ys] by (auto simp: set_erase_def split: option.splits)

lemma set_find_equiv:
  assumes "set_find lt x ys = Some i"
  shows "i < length ys" and "\<not> lt x (ys ! i)"
  using assms by (auto simp: set_find_def Let_def split: if_splits)

lemma insert_present:
  "set_find lt x ys = Some i \<Longrightarrow> set_insert lt x ys = ys"
proof (induction ys arbitrary: i)
  case Nil
  then show ?case by (simp add: set_find_def)
next
  case (Cons y ys)
  then show ?case by (cases "lt y x") (auto simp: set_find_def Let_def split: if_splits)
qed

lemma set_insert_last: "\<forall>y \<in> set ys. lt y x \<Longrightarrow> set_insert lt x ys = ys @ [x]"
  by (induction ys) auto

lemma fold_set_insert: "sorted_wrt lt (ys @ xs) \<Longrightarrow> fold (set_insert lt) xs ys = ys @ xs"
proof (induction xs arbitrary: ys)
  case (Cons x xs)
  then have "set_insert lt x ys = ys @ [x]" by (intro set_insert_last) (auto simp: sorted_wrt_append)
  then show ?case using Cons.IH [of "ys @ [x]"] Cons.prems by simp
qed simp

lemma sorted_fold_insert: "sorted_wrt lt ys \<Longrightarrow> sorted_wrt lt (fold (set_insert lt) xs ys)"
  by (induction xs arbitrary: ys) (auto intro: sorted_set_insert)

lemma set_fold_insert: "set (fold (set_insert lt) xs ys) \<subseteq> set xs \<union> set ys"
proof (induction xs arbitrary: ys)
  case (Cons x xs)
  then show ?case using set_insert_subset [of x ys] by fastforce
qed simp

lemma set_find_None_iff:
  assumes "sorted_wrt lt ys"
  shows "set_find lt x ys = None \<longleftrightarrow> (\<forall>y \<in> set ys. lt x y \<or> lt y x)"
  using assms
proof (induction ys)
  case (Cons y ys)
  have rest: "lt x z" if "lt x y" "z \<in> set ys" for z using Cons.prems that lt_trans by auto
  show ?case
  proof (cases "lt y x")
    case True
    then show ?thesis using Cons lt_asym by (auto simp: set_find_def Let_def)
  next
    case False
    then show ?thesis using rest by (auto simp: set_find_def Let_def)
  qed
qed (simp add: set_find_def)

lemma set_find_Some:
  assumes "sorted_wrt lt ys" and "set_find lt x ys = Some i"
  shows "i < length ys \<and> \<not> lt x (ys ! i) \<and> \<not> lt (ys ! i) x"
proof -
  have i: "i = set_lower_bound lt x ys" "i < length ys" "\<not> lt x (ys ! i)"
    using assms(2) by (auto simp: set_find_def Let_def split: if_splits)
  then have "ys ! i \<in> set (drop (set_lower_bound lt x ys) ys)" by (metis Cons_nth_drop_Suc list.set_intros(1))
  then show ?thesis using lower_bound_drop [OF assms(1)] i by blast
qed

end

locale strict_order = weak_order +
  assumes lt_total: "x \<noteq> y \<Longrightarrow> lt x y \<or> lt y x"
begin

lemma set_set_insert [simp]: "set (set_insert lt x ys) = insert x (set ys)"
  using lt_total by (induction ys) auto

lemma distinct_if_sorted: "sorted_wrt lt ys \<Longrightarrow> distinct ys"
  using lt_irrefl by (induction ys) auto

lemma set_find_member:
  assumes "sorted_wrt lt ys" and "x \<in> set ys"
  shows "\<exists>i. set_find lt x ys = Some i \<and> i < length ys \<and> ys ! i = x"
  using assms
proof (induction ys)
  case Nil
  then show ?case by simp
next
  case (Cons y ys)
  show ?case
  proof (cases "lt y x")
    case True
    then have "x \<in> set ys" using Cons.prems lt_irrefl by auto
    then obtain i where i: "set_find lt x ys = Some i" "i < length ys" "ys ! i = x"
      using Cons by auto
    with True show ?thesis by (auto simp: set_find_def Let_def split: if_splits)
  next
    case False
    then have "x = y" using Cons.prems by auto
    with False show ?thesis using lt_irrefl by (simp add: set_find_def)
  qed
qed

lemma set_find_absent:
  assumes "x \<notin> set ys" "sorted_wrt lt ys"
  shows "set_find lt x ys = None"
proof (rule ccontr)
  assume "set_find lt x ys \<noteq> None"
  then obtain i where i: "set_find lt x ys = Some i" by blast
  then have "i = set_lower_bound lt x ys"
    by (auto simp: set_find_def Let_def split: if_splits)
  moreover have len: "i < length ys" and nlt: "\<not> lt x (ys ! i)"
    using set_find_equiv [OF i] by auto
  ultimately have "ys ! i \<in> set (drop (set_lower_bound lt x ys) ys)"
    by (metis Cons_nth_drop_Suc list.set_intros(1))
  then have "\<not> lt (ys ! i) x" using lower_bound_drop [OF assms(2)] by blast
  then have "ys ! i = x" using nlt lt_total by blast
  with len assms(1) show False using nth_mem by blast
qed

lemma find_erase:
  assumes "sorted_wrt lt ys" and "x \<in> set ys"
  shows "set_erase (set_find lt x ys) ys = Inr (filter (\<lambda>y. y \<noteq> x) ys)"
proof -
  obtain i where i: "set_find lt x ys = Some i" "i < length ys" "ys ! i = x"
    using set_find_member [OF assms] by blast
  have d: "distinct ys" using distinct_if_sorted [OF assms(1)] .
  have ys: "ys = take i ys @ x # drop (Suc i) ys"
    using i by (metis id_take_nth_drop)
  have "distinct (take i ys @ x # drop (Suc i) ys)" using d ys by simp
  then have "x \<notin> set (take i ys)" "x \<notin> set (drop (Suc i) ys)" by auto
  then have "filter (\<lambda>y. y \<noteq> x) (take i ys) = take i ys"
    and "filter (\<lambda>y. y \<noteq> x) (drop (Suc i) ys) = drop (Suc i) ys"
    by (auto simp: filter_id_conv)
  then have "filter (\<lambda>y. y \<noteq> x) (take i ys @ x # drop (Suc i) ys) = take i ys @ drop (Suc i) ys"
    by simp
  with ys i show ?thesis by (simp add: set_erase_def)
qed

lemma insert_fresh_order:
  assumes "sorted_wrt lt ys" "x \<notin> set ys"
  shows "set_insert lt x ys = filter (\<lambda>y. lt y x) ys @ x # filter (\<lambda>y. lt x y) ys"
  using assms
proof (induction ys)
  case Nil
  then show ?case by simp
next
  case (Cons y ys)
  show ?case
  proof (cases "lt y x")
    case True
    then show ?thesis using Cons lt_asym by auto
  next
    case False
    then have xy: "lt x y" using Cons.prems lt_total by auto
    then have "\<forall>z \<in> set ys. lt x z" using Cons.prems lt_trans by auto
    then have "filter (\<lambda>z. lt z x) ys = []" "filter (\<lambda>z. lt x z) ys = ys"
      using lt_asym by (auto simp: filter_empty_conv filter_id_conv)
    with xy False show ?thesis by simp
  qed
qed

end

section \<open>The comparators the library provides\<close>

text \<open>\<open>std::less\<close> on an ordered key type: what \<open>std::map\<close> uses.\<close>

interpretation std_less: strict_order "(<) :: 'k::linorder \<Rightarrow> 'k \<Rightarrow> bool"
  by unfold_locales auto

lemma map_of_map_assign:
  fixes m :: "('k::linorder \<times> 'v) list"
  shows "sorted_wrt (<) (map fst m) \<Longrightarrow> map_of (map_assign (<) k v m) = (map_of m)(k \<mapsto> v)"
proof (induction m)
  case Nil
  then show ?case by (simp add: fun_eq_iff)
next
  case (Cons kv m)
  obtain k' v' where kv: "kv = (k', v')" by force
  show ?case
  proof (cases "k' < k")
    case True
    with Cons kv show ?thesis by (auto simp: fun_eq_iff)
  next
    case False
    then show ?thesis using kv by (cases "k < k'") (auto simp: fun_eq_iff)
  qed
qed

lemma keys_map_assign:
  fixes m :: "('k::linorder \<times> 'v) list"
  shows "fst ` set (map_assign (<) k v m) = insert k (fst ` set m)"
proof (induction m)
  case Nil
  then show ?case by simp
next
  case (Cons kv m)
  then show ?case by (cases kv) (simp add: insert_commute not_less antisym)
qed

lemma sorted_map_assign:
  fixes m :: "('k::linorder \<times> 'v) list"
  shows "sorted_wrt (<) (map fst m) \<Longrightarrow> sorted_wrt (<) (map fst (map_assign (<) k v m))"
proof (induction m)
  case Nil
  then show ?case by simp
next
  case (Cons kv m)
  obtain k' v' where kv: "kv = (k', v')" by force
  have IH: "sorted_wrt (<) (map fst (map_assign (<) k v m))"
    using Cons by simp
  show ?case
  proof (cases "k' < k")
    case True
    then have "\<forall>x \<in> fst ` set (map_assign (<) k v m). k' < x"
      using Cons.prems kv by (auto simp: keys_map_assign)
    then show ?thesis using True kv IH by auto
  next
    case False
    then show ?thesis using Cons.prems kv by (cases "k < k'") auto
  qed
qed

end
