(* ===== verification/Timers.thy ===== *)
theory Timers
  imports StdSet
begin

text \<open>
  sylar/timer.h and sylar/timer.cpp: the timers, the comparator that orders them and the
  manager that keeps them in a \<open>std::set\<close>. A \<open>Timer::ptr\<close> is an address (\<open>None\<close> is a null
  pointer), the objects live in \<open>timer_at\<close>, and the set holds addresses: its order is read
  through the objects, as the code does. Every operation that reads the clock takes the
  milliseconds \<open>GetCurrentMs()\<close> returned as an argument \<open>now\<close>; a \<open>new Timer\<close> takes the
  address the allocator returned.
\<close>

section \<open>Data\<close>

type_synonym taddr = nat

text \<open>A callback of a timer: one given to \<open>addTimer\<close>, or \<open>std::bind(&OnTimer, weak_cond, cb)\<close>
  as \<open>addConditionTimer\<close> builds it.\<close>

datatype ('w, 'c) tcb = Direct 'c | OnTimer 'w 'c

record ('w, 'c) timer =
  m_next :: u64
  m_ms :: u64
  m_recurring :: bool
  m_cb :: "('w, 'c) tcb option"

record ('w, 'c) timer_manager =
  timer_at :: "taddr \<Rightarrow> ('w, 'c) timer"
  m_timers :: "taddr list"
  m_tickled :: bool
  m_previouseTime :: u64

section \<open>Operations\<close>

definition Comparator :: "(taddr \<Rightarrow> ('w, 'c) timer) \<Rightarrow> taddr option \<Rightarrow> taddr option \<Rightarrow> bool" where
  "Comparator h lhs rhs =
     (case (lhs, rhs) of
        (None, None) \<Rightarrow> False
      | (None, Some _) \<Rightarrow> True
      | (Some _, None) \<Rightarrow> False
      | (Some l, Some r) \<Rightarrow>
          if m_next (h l) < m_next (h r) then True
          else if m_next (h l) > m_next (h r) then False
          else l < r)"

definition timer_lt :: "(taddr \<Rightarrow> ('w, 'c) timer) \<Rightarrow> taddr \<Rightarrow> taddr \<Rightarrow> bool" where
  "timer_lt h a b = Comparator h (Some a) (Some b)"

definition Timer :: "u64 \<Rightarrow> u64 \<Rightarrow> ('w, 'c) tcb option \<Rightarrow> bool \<Rightarrow> ('w, 'c) timer" where
  "Timer now ms cb recurring =
     \<lparr>m_next = now + ms, m_ms = ms, m_recurring = recurring, m_cb = cb\<rparr>"

text \<open>The private constructor \<open>Timer(uint64_t next)\<close>; the other members keep their initialisers.\<close>

definition Timer_at :: "u64 \<Rightarrow> ('w, 'c) timer" where
  "Timer_at deadline = \<lparr>m_next = deadline, m_ms = 0, m_recurring = False, m_cb = None\<rparr>"

definition TimeManager :: "u64 \<Rightarrow> ('w, 'c) timer_manager" where
  "TimeManager now = \<lparr>timer_at = (\<lambda>_. Timer_at 0), m_timers = [], m_tickled = False,
     m_previouseTime = now\<rparr>"

text \<open>\<open>addTimer(Timer::ptr val, WriteLock& lock)\<close>. The flag it returns says that
  \<open>onTimerInsertedAtFront()\<close> is called after the lock is released.\<close>

definition addTimer_locked ::
    "taddr \<Rightarrow> ('w, 'c) timer_manager \<Rightarrow> ('w, 'c) timer_manager \<times> bool" where
  "addTimer_locked val tm =
     (let lt = timer_lt (timer_at tm);
          it = set_lower_bound lt val (m_timers tm);
          ts = set_insert lt val (m_timers tm);
          at_front = (it = 0 \<and> \<not> m_tickled tm)
      in (tm\<lparr>m_timers := ts, m_tickled := (m_tickled tm \<or> at_front)\<rparr>, at_front))"

definition addTimer ::
    "taddr \<Rightarrow> u64 \<Rightarrow> u64 \<Rightarrow> ('w, 'c) tcb option \<Rightarrow> bool
      \<Rightarrow> ('w, 'c) timer_manager \<Rightarrow> ('w, 'c) timer_manager \<times> bool" where
  "addTimer p now ms cb recurring tm =
     addTimer_locked p (tm\<lparr>timer_at := (timer_at tm)(p := Timer now ms cb recurring)\<rparr>)"

definition addConditionTimer ::
    "taddr \<Rightarrow> u64 \<Rightarrow> u64 \<Rightarrow> 'c \<Rightarrow> 'w \<Rightarrow> bool
      \<Rightarrow> ('w, 'c) timer_manager \<Rightarrow> ('w, 'c) timer_manager \<times> bool" where
  "addConditionTimer p now ms cb weak_cond recurring tm =
     addTimer p now ms (Some (OnTimer weak_cond cb)) recurring tm"

text \<open>What calling a timer's callback calls: \<open>OnTimer\<close> drops the call when the weak pointer
  no longer locks.\<close>

definition OnTimer_call :: "('w \<Rightarrow> bool) \<Rightarrow> ('w, 'c) tcb \<Rightarrow> 'c option" where
  "OnTimer_call alive t = (case t of Direct cb \<Rightarrow> Some cb
     | OnTimer weak_cond cb \<Rightarrow> if alive weak_cond then Some cb else None)"

definition cancel ::
    "taddr \<Rightarrow> ('w, 'c) timer_manager \<Rightarrow> (('w, 'c) timer_manager \<times> bool) result" where
  "cancel p tm =
     (case m_cb (timer_at tm p) of
        None \<Rightarrow> Inr (tm, False)
      | Some _ \<Rightarrow>
          let h = (timer_at tm)(p := (timer_at tm p)\<lparr>m_cb := None\<rparr>);
              it = set_find (timer_lt h) p (m_timers tm)
          in rbind (set_erase it (m_timers tm))
               (\<lambda>ts. Inr (tm\<lparr>timer_at := h, m_timers := ts\<rparr>, True)))"

definition refresh ::
    "taddr \<Rightarrow> u64 \<Rightarrow> ('w, 'c) timer_manager \<Rightarrow> (('w, 'c) timer_manager \<times> bool) result" where
  "refresh p now tm =
     (case m_cb (timer_at tm p) of
        None \<Rightarrow> Inr (tm, False)
      | Some _ \<Rightarrow>
         (case set_find (timer_lt (timer_at tm)) p (m_timers tm) of
            None \<Rightarrow> Inr (tm, False)
          | Some it \<Rightarrow>
              rbind (set_erase (Some it) (m_timers tm))
               (\<lambda>ts. let t = timer_at tm p;
                        h = (timer_at tm)(p := t\<lparr>m_next := now + m_ms t\<rparr>)
                    in Inr (tm\<lparr>timer_at := h, m_timers := set_insert (timer_lt h) p ts\<rparr>, True))))"

text \<open>\<open>Timer::reset\<close>; the last component is \<open>onTimerInsertedAtFront()\<close> as in \<open>addTimer\<close>.\<close>

definition reset ::
    "taddr \<Rightarrow> u64 \<Rightarrow> bool \<Rightarrow> u64 \<Rightarrow> ('w, 'c) timer_manager
      \<Rightarrow> (('w, 'c) timer_manager \<times> bool \<times> bool) result" where
  "reset p ms from_now now tm =
     (if ms = m_ms (timer_at tm p) \<and> \<not> from_now then Inr (tm, True, False)
      else case m_cb (timer_at tm p) of
        None \<Rightarrow> Inr (tm, False, False)
      | Some _ \<Rightarrow>
         (case set_find (timer_lt (timer_at tm)) p (m_timers tm) of
            None \<Rightarrow> Inr (tm, False, False)
          | Some it \<Rightarrow>
              rbind (set_erase (Some it) (m_timers tm))
               (\<lambda>ts. let t = timer_at tm p;
                        start = (if from_now then now else m_next t - m_ms t);
                        h = (timer_at tm)(p := t\<lparr>m_ms := ms, m_next := start + ms\<rparr>);
                        (tm', front) = addTimer_locked p (tm\<lparr>timer_at := h, m_timers := ts\<rparr>)
                    in Inr (tm', True, front))))"

definition getNextTimer ::
    "u64 \<Rightarrow> ('w, 'c) timer_manager \<Rightarrow> ('w, 'c) timer_manager \<times> u64" where
  "getNextTimer now tm =
     (let tm' = tm\<lparr>m_tickled := False\<rparr>
      in case m_timers tm of
           [] \<Rightarrow> (tm', - 1)
         | p # _ \<Rightarrow>
             if now \<ge> m_next (timer_at tm p) then (tm', 0)
             else (tm', m_next (timer_at tm p) - now))"

definition hasTimer :: "('w, 'c) timer_manager \<Rightarrow> bool" where
  "hasTimer tm = (m_timers tm \<noteq> [])"

definition detectClockRollover ::
    "u64 \<Rightarrow> ('w, 'c) timer_manager \<Rightarrow> ('w, 'c) timer_manager \<times> bool" where
  "detectClockRollover now tm =
     (let rollover = (now < m_previouseTime tm \<and> now < m_previouseTime tm - 60 * 60 * 1000)
      in (tm\<lparr>m_previouseTime := now\<rparr>, rollover))"

text \<open>The loop over \<open>expired\<close>: collect the callback, then re-arm or disarm the timer.\<close>

fun expire_loop ::
    "u64 \<Rightarrow> taddr list \<Rightarrow> ('w, 'c) timer_manager \<Rightarrow> ('w, 'c) tcb option list
      \<Rightarrow> ('w, 'c) timer_manager \<times> ('w, 'c) tcb option list" where
  "expire_loop now [] tm cbs = (tm, cbs)"
| "expire_loop now (p # ps) tm cbs =
     (let t = timer_at tm p
      in if m_recurring t
         then let h = (timer_at tm)(p := t\<lparr>m_next := now + m_ms t\<rparr>)
              in expire_loop now ps
                   (tm\<lparr>timer_at := h, m_timers := set_insert (timer_lt h) p (m_timers tm)\<rparr>)
                   (cbs @ [m_cb t])
         else expire_loop now ps
                (tm\<lparr>timer_at := (timer_at tm)(p := t\<lparr>m_cb := None\<rparr>)\<rparr>)
                (cbs @ [m_cb t]))"

text \<open>\<open>listExpiredCb\<close>; \<open>nowp\<close> is the address of the local \<open>now_timer\<close>, which is gone when the
  call returns.\<close>

definition listExpiredCb ::
    "u64 \<Rightarrow> taddr \<Rightarrow> ('w, 'c) timer_manager
      \<Rightarrow> ('w, 'c) timer_manager \<times> ('w, 'c) tcb option list" where
  "listExpiredCb now nowp tm =
     (if m_timers tm = [] then (tm, [])
      else let (tm1, rollover) = detectClockRollover now tm;
               ts = m_timers tm1
           in if \<not> rollover \<and> m_next (timer_at tm1 (hd ts)) > now then (tm1, [])
              else let h = (timer_at tm1)(nowp := Timer_at now);
                       it0 = (if rollover then length ts
                              else set_lower_bound (timer_lt h) nowp ts);
                       it = it0 + length (takeWhile (\<lambda>p. m_next (timer_at tm1 p) = now)
                                            (drop it0 ts))
                   in expire_loop now (take it ts) (tm1\<lparr>m_timers := drop it ts\<rparr>) [])"

section \<open>The comparator is a strict total order\<close>

lemma timer_lt_iff:
  "timer_lt h a b \<longleftrightarrow> m_next (h a) < m_next (h b) \<or> (m_next (h a) = m_next (h b) \<and> a < b)"
  by (auto simp: timer_lt_def Comparator_def)

interpretation timer_order: strict_order "timer_lt h" for h :: "taddr \<Rightarrow> ('w, 'c) timer"
  by unfold_locales (auto simp: timer_lt_iff)

lemma Comparator_simps [simp]:
  "Comparator h None None = False"
  "Comparator h None (Some b) = True"
  "Comparator h (Some a) None = False"
  "Comparator h (Some a) (Some b) = timer_lt h a b"
  by (simp_all add: Comparator_def timer_lt_def)

interpretation ptr_order: strict_order "Comparator h" for h :: "taddr \<Rightarrow> ('w, 'c) timer"
proof
  fix x y z :: "taddr option"
  show "\<not> Comparator h x x"
    by (cases x) (simp_all add: timer_order.lt_irrefl)
  show "Comparator h x z" if "Comparator h x y" "Comparator h y z"
    using that timer_order.lt_trans [of h] by (cases x; cases y; cases z) auto
  show "Comparator h x y \<or> Comparator h y z" if "Comparator h x z"
    using that by (cases x; cases y; cases z) (simp_all add: timer_order.lt_split)
  show "Comparator h x y \<or> Comparator h y x" if "x \<noteq> y"
    using that by (cases x; cases y) (simp_all add: timer_order.lt_total)
qed

text \<open>Storing into an object that is not in the set leaves the order of the set alone.\<close>

lemma sorted_timers_upd:
  "p \<notin> set ts \<Longrightarrow> sorted_wrt (timer_lt (h(p := t))) ts = sorted_wrt (timer_lt h) ts"
  by (induction ts) (auto simp: timer_lt_iff)

lemma sorted_timers_cb:
  "sorted_wrt (timer_lt (h(p := (h p)\<lparr>m_cb := c\<rparr>))) ts = sorted_wrt (timer_lt h) ts"
  by (induction ts) (auto simp: timer_lt_iff)

section \<open>The invariant of the manager\<close>

text \<open>
  The set is ordered by the comparator as it reads the objects now (no member's deadline is
  written while it is in the set), and a timer that still has its callback is in the set.
\<close>

definition timer_inv :: "('w, 'c) timer_manager \<Rightarrow> bool" where
  "timer_inv tm \<longleftrightarrow> sorted_wrt (timer_lt (timer_at tm)) (m_timers tm)
     \<and> (\<forall>p. m_cb (timer_at tm p) \<noteq> None \<longrightarrow> p \<in> set (m_timers tm))"

text \<open>While expired timers are taken out and not yet processed: \<open>ps\<close> are those.\<close>

definition timer_inv_except :: "taddr list \<Rightarrow> ('w, 'c) timer_manager \<Rightarrow> bool" where
  "timer_inv_except ps tm \<longleftrightarrow> sorted_wrt (timer_lt (timer_at tm)) (m_timers tm)
     \<and> distinct ps \<and> set ps \<inter> set (m_timers tm) = {}
     \<and> (\<forall>p. m_cb (timer_at tm p) \<noteq> None \<longrightarrow> p \<in> set (m_timers tm) \<union> set ps)"

lemma timer_inv_sorted: "timer_inv tm \<Longrightarrow> sorted_wrt (timer_lt (timer_at tm)) (m_timers tm)"
  by (simp add: timer_inv_def)

lemma timer_inv_armed: "timer_inv tm \<Longrightarrow> m_cb (timer_at tm p) = Some c \<Longrightarrow> p \<in> set (m_timers tm)"
  by (auto simp: timer_inv_def)

lemma timer_inv_distinct: "timer_inv tm \<Longrightarrow> distinct (m_timers tm)"
  using timer_order.distinct_if_sorted timer_inv_sorted by blast

lemma timer_inv_except_Nil [simp]: "timer_inv_except [] tm = timer_inv tm"
  by (simp add: timer_inv_except_def timer_inv_def)

text \<open>Putting one of the outstanding timers back with a new deadline.\<close>

lemma timer_inv_except_insert:
  assumes "timer_inv_except (p # ps) tm"
  shows "timer_inv_except ps (tm\<lparr>timer_at := (timer_at tm)(p := t),
           m_timers := set_insert (timer_lt ((timer_at tm)(p := t))) p (m_timers tm)\<rparr>)"
proof -
  let ?h = "(timer_at tm)(p := t)"
  from assms have p: "p \<notin> set (m_timers tm)" "p \<notin> set ps" and s: "sorted_wrt (timer_lt ?h) (m_timers tm)"
    by (auto simp: timer_inv_except_def sorted_timers_upd)
  from s have "sorted_wrt (timer_lt ?h) (set_insert (timer_lt ?h) p (m_timers tm))"
    by (rule timer_order.sorted_set_insert)
  then show ?thesis using assms p by (auto simp: timer_inv_except_def)
qed

lemma timer_inv_except_drop:
  assumes "timer_inv_except (p # ps) tm" and "m_cb t = None"
  shows "timer_inv_except ps (tm\<lparr>timer_at := (timer_at tm)(p := t)\<rparr>)"
  using assms by (auto simp: timer_inv_except_def sorted_timers_upd)

text \<open>Taking a member out for the time it is rewritten.\<close>

lemma timer_inv_take_out:
  assumes "timer_inv tm" and "p \<in> set (m_timers tm)"
  shows "set_erase (set_find (timer_lt (timer_at tm)) p (m_timers tm)) (m_timers tm)
           = Inr (filter (\<lambda>q. q \<noteq> p) (m_timers tm))"
    and "timer_inv_except [p] (tm\<lparr>m_timers := filter (\<lambda>q. q \<noteq> p) (m_timers tm)\<rparr>)"
  using assms timer_order.find_erase [of "timer_at tm" "m_timers tm" p]
  by (auto simp: timer_inv_except_def timer_inv_def sorted_wrt_filter_keep)

section \<open>What each operation does\<close>

lemma addTimer_locked_inv:
  assumes "timer_inv_except [p] tm"
  shows "timer_inv (fst (addTimer_locked p tm))"
    and "set (m_timers (fst (addTimer_locked p tm))) = insert p (set (m_timers tm))"
    and "timer_at (fst (addTimer_locked p tm)) = timer_at tm"
  using timer_inv_except_insert [of p "[]" tm "timer_at tm p"] assms
  by (auto simp: addTimer_locked_def Let_def timer_inv_def)

lemma timer_inv_new:
  assumes "timer_inv tm" and "p \<notin> set (m_timers tm)"
  shows "timer_inv_except [p] (tm\<lparr>timer_at := (timer_at tm)(p := t)\<rparr>)"
  using assms by (auto simp: timer_inv_except_def timer_inv_def sorted_timers_upd)

lemma addTimer_eqs:
  assumes "timer_inv tm" and "p \<notin> set (m_timers tm)"
  shows "timer_inv (fst (addTimer p now ms cb r tm))"
    and "set (m_timers (fst (addTimer p now ms cb r tm))) = insert p (set (m_timers tm))"
    and "timer_at (fst (addTimer p now ms cb r tm)) = (timer_at tm)(p := Timer now ms cb r)"
  using addTimer_locked_inv [OF timer_inv_new [OF assms]] by (simp_all add: addTimer_def)

lemma cancel_armed:
  assumes inv: "timer_inv tm" and cb: "m_cb (timer_at tm p) = Some c"
  shows "cancel p tm = Inr (tm\<lparr>timer_at := (timer_at tm)(p := (timer_at tm p)\<lparr>m_cb := None\<rparr>),
           m_timers := filter (\<lambda>q. q \<noteq> p) (m_timers tm)\<rparr>, True)"
proof -
  let ?h = "(timer_at tm)(p := (timer_at tm p)\<lparr>m_cb := None\<rparr>)"
  have "sorted_wrt (timer_lt ?h) (m_timers tm)"
    using timer_inv_sorted [OF inv] by (simp add: sorted_timers_cb)
  then have "set_erase (set_find (timer_lt ?h) p (m_timers tm)) (m_timers tm)
      = Inr (filter (\<lambda>q. q \<noteq> p) (m_timers tm))"
    by (rule timer_order.find_erase) (rule timer_inv_armed [OF inv cb])
  then show ?thesis by (simp add: cancel_def cb Let_def)
qed

lemma cancel_disarmed: "m_cb (timer_at tm p) = None \<Longrightarrow> cancel p tm = Inr (tm, False)"
  by (simp add: cancel_def)

lemma cancel_inv:
  assumes "timer_inv tm" and "cancel p tm = Inr (tm', r)"
  shows "timer_inv tm'"
proof (cases "m_cb (timer_at tm p)")
  case None
  then show ?thesis using assms by (simp add: cancel_disarmed)
next
  case (Some c)
  then show ?thesis using assms cancel_armed [OF assms(1) Some]
    by (auto simp: timer_inv_def sorted_timers_cb sorted_wrt_filter_keep split: if_splits)
qed

lemma refresh_cases:
  assumes inv: "timer_inv tm"
  shows "refresh p now tm =
    (case m_cb (timer_at tm p) of None \<Rightarrow> Inr (tm, False)
     | Some c \<Rightarrow>
        let h = (timer_at tm)(p := (timer_at tm p)\<lparr>m_next := now + m_ms (timer_at tm p)\<rparr>)
        in Inr (tm\<lparr>timer_at := h, m_timers :=
             set_insert (timer_lt h) p (filter (\<lambda>q. q \<noteq> p) (m_timers tm))\<rparr>, True))"
proof (cases "m_cb (timer_at tm p)")
  case None
  then show ?thesis by (simp add: refresh_def)
next
  case (Some c)
  then have p: "p \<in> set (m_timers tm)" by (rule timer_inv_armed [OF inv])
  then obtain i where "set_find (timer_lt (timer_at tm)) p (m_timers tm) = Some i"
    using timer_order.set_find_member [OF timer_inv_sorted [OF inv]] by blast
  then show ?thesis
    using timer_inv_take_out(1) [OF inv p] Some by (simp add: refresh_def Let_def)
qed

lemma refresh_inv:
  assumes inv: "timer_inv tm" and r: "refresh p now tm = Inr (tm', r)"
  shows "timer_inv tm'"
proof (cases "m_cb (timer_at tm p)")
  case None
  then show ?thesis using assms by (simp add: refresh_def)
next
  case (Some c)
  then have "p \<in> set (m_timers tm)" by (rule timer_inv_armed [OF inv])
  from timer_inv_except_insert [OF timer_inv_take_out(2) [OF inv this],
      of "(timer_at tm p)\<lparr>m_next := now + m_ms (timer_at tm p)\<rparr>"]
  show ?thesis using r Some by (auto simp: refresh_cases [OF inv] Let_def)
qed

lemma reset_cases:
  assumes inv: "timer_inv tm"
  shows "reset p ms from_now now tm =
    (if ms = m_ms (timer_at tm p) \<and> \<not> from_now then Inr (tm, True, False)
     else case m_cb (timer_at tm p) of None \<Rightarrow> Inr (tm, False, False)
     | Some c \<Rightarrow>
        let t = timer_at tm p;
            start = (if from_now then now else m_next t - m_ms t);
            r = addTimer_locked p
              (tm\<lparr>timer_at := (timer_at tm)(p := t\<lparr>m_ms := ms, m_next := start + ms\<rparr>),
                 m_timers := filter (\<lambda>q. q \<noteq> p) (m_timers tm)\<rparr>)
        in Inr (fst r, True, snd r))"
proof (cases "m_cb (timer_at tm p)")
  case None
  then show ?thesis by (simp add: reset_def)
next
  case (Some c)
  then have p: "p \<in> set (m_timers tm)" by (rule timer_inv_armed [OF inv])
  then obtain i where "set_find (timer_lt (timer_at tm)) p (m_timers tm) = Some i"
    using timer_order.set_find_member [OF timer_inv_sorted [OF inv]] by blast
  then show ?thesis
    using timer_inv_take_out(1) [OF inv p] Some
    by (simp add: reset_def Let_def split_beta)
qed

lemma reset_inv:
  assumes inv: "timer_inv tm" and r: "reset p ms from_now now tm = Inr (tm', r, f)"
  shows "timer_inv tm'"
proof (cases "m_cb (timer_at tm p)")
  case None
  then show ?thesis using assms by (auto simp: reset_def split: if_splits)
next
  case (Some c)
  then have "p \<in> set (m_timers tm)" by (rule timer_inv_armed [OF inv])
  from timer_inv_take_out(2) [OF inv this]
  have "timer_inv_except [p] (tm\<lparr>timer_at := (timer_at tm)(p := t),
      m_timers := filter (\<lambda>q. q \<noteq> p) (m_timers tm)\<rparr>)" for t
    by (auto simp: timer_inv_except_def sorted_timers_upd)
  from addTimer_locked_inv(1) [OF this]
  show ?thesis using r Some inv by (auto simp: reset_cases [OF inv] Let_def split: if_splits)
qed

subsection \<open>The expiry loop\<close>

text \<open>A timer after it has been processed, and what the loop does to the set and the objects.\<close>

definition rearmed :: "u64 \<Rightarrow> ('w, 'c) timer \<Rightarrow> ('w, 'c) timer" where
  "rearmed now t = (if m_recurring t then t\<lparr>m_next := now + m_ms t\<rparr> else t\<lparr>m_cb := None\<rparr>)"

lemma expire_loop_inv:
  assumes "timer_inv_except ps tm"
  shows "timer_inv (fst (expire_loop now ps tm cbs))"
  using assms
proof (induction now ps tm cbs rule: expire_loop.induct)
  case (1 now tm cbs)
  then show ?case by simp
next
  case (2 now p ps tm cbs)
  show ?case
  proof (cases "m_recurring (timer_at tm p)")
    case True
    with 2 timer_inv_except_insert [OF "2.prems"] show ?thesis by (simp add: Let_def)
  next
    case False
    with 2 timer_inv_except_drop [OF "2.prems"] show ?thesis by (simp add: Let_def)
  qed
qed

lemma expire_loop_result:
  assumes "distinct ps" and "set ps \<inter> set (m_timers tm) = {}"
  shows "snd (expire_loop now ps tm cbs) = cbs @ map (\<lambda>p. m_cb (timer_at tm p)) ps"
    and "timer_at (fst (expire_loop now ps tm cbs))
           = (\<lambda>p. if p \<in> set ps then rearmed now (timer_at tm p) else timer_at tm p)"
    and "set (m_timers (fst (expire_loop now ps tm cbs)))
           = set (m_timers tm) \<union> {p \<in> set ps. m_recurring (timer_at tm p)}"
    and "m_tickled (fst (expire_loop now ps tm cbs)) = m_tickled tm"
    and "m_previouseTime (fst (expire_loop now ps tm cbs)) = m_previouseTime tm"
  using assms
  by (induction now ps tm cbs rule: expire_loop.induct)
     (auto simp: Let_def rearmed_def fun_eq_iff)

subsection \<open>Which timers are expired\<close>

text \<open>The members \<open>listExpiredCb\<close> takes out, as one expression of the manager.\<close>

definition expired_prefix :: "u64 \<Rightarrow> taddr \<Rightarrow> ('w, 'c) timer_manager \<Rightarrow> nat" where
  "expired_prefix now nowp tm =
     (let ts = m_timers tm; h = (timer_at tm)(nowp := Timer_at now);
          it0 = (if snd (detectClockRollover now tm) then length ts
                 else set_lower_bound (timer_lt h) nowp ts)
      in it0 + length (takeWhile (\<lambda>p. m_next (timer_at tm p) = now) (drop it0 ts)))"

lemma detectClockRollover_frame [simp]:
  "timer_at (fst (detectClockRollover now tm)) = timer_at tm"
  "m_timers (fst (detectClockRollover now tm)) = m_timers tm"
  "m_tickled (fst (detectClockRollover now tm)) = m_tickled tm"
  "m_previouseTime (fst (detectClockRollover now tm)) = now"
  by (simp_all add: detectClockRollover_def Let_def)

lemma split_at_run_of_equal:
  fixes f :: "'a \<Rightarrow> 'b::linorder"
  assumes mono: "sorted_wrt (\<lambda>a b. f a \<le> f b) ys" and ge: "\<forall>y \<in> set ys. k \<le> f y"
  shows "takeWhile (\<lambda>y. f y = k) ys = filter (\<lambda>y. f y \<le> k) ys"
  using assms
proof (induction ys)
  case Nil
  then show ?case by simp
next
  case (Cons y ys)
  show ?case
  proof (cases "f y = k")
    case True
    with Cons show ?thesis by auto
  next
    case False
    then have "\<forall>z \<in> set (y # ys). k < f z" using Cons.prems by fastforce
    then have "filter (\<lambda>y. f y \<le> k) (y # ys) = []" by (auto simp: filter_empty_conv)
    with False show ?thesis by simp
  qed
qed

lemma expired_prefix_rollover:
  "snd (detectClockRollover now tm) \<Longrightarrow> expired_prefix now nowp tm = length (m_timers tm)"
  by (simp add: expired_prefix_def Let_def)

lemma expired_prefix_filter:
  assumes inv: "timer_inv tm" and new: "nowp \<notin> set (m_timers tm)"
    and nr: "\<not> snd (detectClockRollover now tm)"
  shows "take (expired_prefix now nowp tm) (m_timers tm)
           = filter (\<lambda>p. m_next (timer_at tm p) \<le> now) (m_timers tm)"
proof -
  let ?h = "(timer_at tm)(nowp := Timer_at now)" and ?ts = "m_timers tm"
  let ?it = "set_lower_bound (timer_lt ?h) nowp ?ts"
  let ?eq = "\<lambda>p. m_next (timer_at tm p) = now" and ?le = "\<lambda>p. m_next (timer_at tm p) \<le> now"
  have srt: "sorted_wrt (timer_lt ?h) ?ts"
    using timer_inv_sorted [OF inv] new by (simp add: sorted_timers_upd)
  have low: "\<forall>p \<in> set (take ?it ?ts). ?le p"
  proof
    fix p
    assume p: "p \<in> set (take ?it ?ts)"
    then have "timer_lt ?h p nowp" using timer_order.lower_bound_take by blast
    moreover have "p \<noteq> nowp" using p new by (meson in_set_takeD)
    ultimately show "?le p" by (auto simp: timer_lt_iff Timer_at_def)
  qed
  have "\<forall>p \<in> set (drop ?it ?ts). \<not> timer_lt ?h p nowp"
    using timer_order.lower_bound_drop [OF srt] by blast
  moreover have "\<forall>p \<in> set (drop ?it ?ts). p \<noteq> nowp" using new in_set_dropD by fastforce
  ultimately have high: "\<forall>p \<in> set (drop ?it ?ts). now \<le> m_next (timer_at tm p)"
    by (auto simp: timer_lt_iff Timer_at_def not_less)
  have "sorted_wrt (timer_lt (timer_at tm)) (drop ?it ?ts)"
    using timer_inv_sorted [OF inv] by (metis append_take_drop_id sorted_wrt_append)
  then have "sorted_wrt (\<lambda>a b. m_next (timer_at tm a) \<le> m_next (timer_at tm b)) (drop ?it ?ts)"
    by (rule sorted_wrt_mono_on) (auto simp: timer_lt_iff)
  then have "takeWhile ?eq (drop ?it ?ts) = filter ?le (drop ?it ?ts)"
    using high by (rule split_at_run_of_equal)
  moreover have "filter ?le ?ts = take ?it ?ts @ filter ?le (drop ?it ?ts)"
    using filter_True [OF low] filter_append [of ?le "take ?it ?ts" "drop ?it ?ts"] by simp
  moreover have "take (?it + length (takeWhile ?eq (drop ?it ?ts))) ?ts
      = take ?it ?ts @ takeWhile ?eq (drop ?it ?ts)"
    using takeWhile_eq_take [of ?eq "drop ?it ?ts"] by (simp add: take_add)
  ultimately show ?thesis using nr by (simp add: expired_prefix_def Let_def)
qed

lemma listExpiredCb_unfold:
  "listExpiredCb now nowp tm =
    (if m_timers tm = [] then (tm, [])
     else if \<not> snd (detectClockRollover now tm) \<and> now < m_next (timer_at tm (hd (m_timers tm)))
     then (fst (detectClockRollover now tm), [])
     else expire_loop now (take (expired_prefix now nowp tm) (m_timers tm))
            ((fst (detectClockRollover now tm))
               \<lparr>m_timers := drop (expired_prefix now nowp tm) (m_timers tm)\<rparr>) [])"
proof -
  obtain tm1 r where d: "detectClockRollover now tm = (tm1, r)" by force
  have f: "timer_at tm1 = timer_at tm" "m_timers tm1 = m_timers tm"
    using detectClockRollover_frame [of now tm] by (simp_all add: d)
  show ?thesis
    by (simp only: listExpiredCb_def expired_prefix_def d f Let_def prod.case fst_conv snd_conv)
qed

lemma listExpiredCb_eq:
  assumes inv: "timer_inv tm" and new: "nowp \<notin> set (m_timers tm)"
  shows "listExpiredCb now nowp tm =
    (if m_timers tm = [] then (tm, [])
     else expire_loop now (take (expired_prefix now nowp tm) (m_timers tm))
            ((fst (detectClockRollover now tm))
               \<lparr>m_timers := drop (expired_prefix now nowp tm) (m_timers tm)\<rparr>) [])"
proof (cases "\<not> snd (detectClockRollover now tm) \<and> m_timers tm \<noteq> []
    \<and> m_next (timer_at tm (hd (m_timers tm))) > now")
  case True
  then obtain q ts where q: "m_timers tm = q # ts" by (auto simp: neq_Nil_conv)
  have "now < m_next (timer_at tm p)" if "p \<in> set (m_timers tm)" for p
    using that True timer_inv_sorted [OF inv] q by (auto simp: timer_lt_iff)
  then have "filter (\<lambda>p. m_next (timer_at tm p) \<le> now) (m_timers tm) = []"
    by (simp add: filter_empty_conv not_le)
  then have "take (expired_prefix now nowp tm) (m_timers tm) = []"
    using expired_prefix_filter [OF assms] True by simp
  then have e: "expired_prefix now nowp tm = 0" using q by simp
  have "(fst (detectClockRollover now tm))\<lparr>m_timers := m_timers tm\<rparr> = fst (detectClockRollover now tm)"
    by (simp add: detectClockRollover_def)
  then show ?thesis using True by (simp add: listExpiredCb_unfold e)
next
  case False
  then show ?thesis by (auto simp: listExpiredCb_unfold)
qed

lemma listExpiredCb_facts:
  assumes inv: "timer_inv tm" and new: "nowp \<notin> set (m_timers tm)"
    and ex_def: "ex = take (expired_prefix now nowp tm) (m_timers tm)"
  shows "timer_inv (fst (listExpiredCb now nowp tm))"
    and "snd (listExpiredCb now nowp tm) = map (\<lambda>p. m_cb (timer_at tm p)) ex"
    and "timer_at (fst (listExpiredCb now nowp tm))
           = (\<lambda>p. if p \<in> set ex then rearmed now (timer_at tm p) else timer_at tm p)"
    and "set (m_timers (fst (listExpiredCb now nowp tm)))
           = {p \<in> set (m_timers tm). p \<notin> set ex \<or> m_recurring (timer_at tm p)}"
proof -
  let ?rest = "drop (expired_prefix now nowp tm) (m_timers tm)"
  let ?tm = "(fst (detectClockRollover now tm))\<lparr>m_timers := ?rest\<rparr>"
  have split: "m_timers tm = ex @ ?rest" by (simp add: ex_def)
  then have mem: "set (m_timers tm) = set ex \<union> set ?rest" by (metis set_append)
  have "distinct (ex @ ?rest)" using timer_inv_distinct [OF inv] split by simp
  then have d: "distinct ex" "set ex \<inter> set ?rest = {}" by auto
  have "sorted_wrt (timer_lt (timer_at tm)) (ex @ ?rest)"
    using timer_inv_sorted [OF inv] split by simp
  then have inv': "timer_inv_except ex ?tm"
    using inv mem d by (simp add: timer_inv_except_def timer_inv_def sorted_wrt_append Int_commute
        Un_commute)
  have frame: "timer_at ?tm = timer_at tm" "m_timers ?tm = ?rest" by simp_all
  note loop = expire_loop_result [of ex ?tm now "[]", unfolded frame]
    expire_loop_inv [OF inv', of now "[]"]
  show "timer_inv (fst (listExpiredCb now nowp tm))"
    using loop inv by (simp add: listExpiredCb_eq [OF inv new] ex_def)
  show "snd (listExpiredCb now nowp tm) = map (\<lambda>p. m_cb (timer_at tm p)) ex"
    using loop d by (simp add: listExpiredCb_eq [OF inv new] ex_def)
  show "timer_at (fst (listExpiredCb now nowp tm))
      = (\<lambda>p. if p \<in> set ex then rearmed now (timer_at tm p) else timer_at tm p)"
    using loop d by (simp add: listExpiredCb_eq [OF inv new] ex_def)
  have "{p \<in> set (m_timers tm). p \<notin> set ex \<or> m_recurring (timer_at tm p)}
      = set ?rest \<union> {p \<in> set ex. m_recurring (timer_at tm p)}"
    using d mem by auto
  then show "set (m_timers (fst (listExpiredCb now nowp tm)))
      = {p \<in> set (m_timers tm). p \<notin> set ex \<or> m_recurring (timer_at tm p)}"
    using loop d by (simp add: listExpiredCb_eq [OF inv new] ex_def)
qed

text \<open>A timer that fired once is out of the set and has no callback any more; the others stay.\<close>

lemma fired_timer:
  assumes inv: "timer_inv tm" and new: "nowp \<notin> set (m_timers tm)"
    and nr: "\<not> snd (detectClockRollover now tm)"
    and p: "p \<in> set (m_timers tm)" "m_next (timer_at tm p) \<le> now" "\<not> m_recurring (timer_at tm p)"
  shows "p \<notin> set (m_timers (fst (listExpiredCb now nowp tm)))"
    and "m_cb (timer_at (fst (listExpiredCb now nowp tm)) p) = None"
    and "timer_inv (fst (listExpiredCb now nowp tm))"
proof -
  note f = listExpiredCb_facts [OF inv new refl, of now]
  have ex: "p \<in> set (take (expired_prefix now nowp tm) (m_timers tm))"
    using expired_prefix_filter [OF inv new nr] p by simp
  show "p \<notin> set (m_timers (fst (listExpiredCb now nowp tm)))" using f(4) ex p(3) by simp
  show "m_cb (timer_at (fst (listExpiredCb now nowp tm)) p) = None" using f(3) ex p(3) by (simp add: rearmed_def)
  show "timer_inv (fst (listExpiredCb now nowp tm))" by (rule f(1))
qed

section \<open>Runs of the manager\<close>

text \<open>
  A label is one call with the values the environment chose (the address of a new object, the
  clock) and the values it returned. A call that faults has no step.
\<close>

datatype ('w, 'c) tlabel =
    LAdd taddr u64 u64 "('w, 'c) tcb option" bool bool
  | LCancel taddr bool
  | LRefresh taddr u64 bool
  | LReset taddr u64 bool u64 bool bool
  | LNext u64 u64
  | LExpired u64 bool "('w, 'c) tcb option list"

inductive timer_step ::
    "('w, 'c) timer_manager \<Rightarrow> ('w, 'c) tlabel \<Rightarrow> ('w, 'c) timer_manager \<Rightarrow> bool" where
  step_add: "p \<notin> set (m_timers tm) \<Longrightarrow> addTimer p now ms cb r tm = (tm', front)
     \<Longrightarrow> timer_step tm (LAdd p now ms cb r front) tm'"
| step_cancel: "cancel p tm = Inr (tm', ok) \<Longrightarrow> timer_step tm (LCancel p ok) tm'"
| step_refresh: "refresh p now tm = Inr (tm', ok) \<Longrightarrow> timer_step tm (LRefresh p now ok) tm'"
| step_reset: "reset p ms fn now tm = Inr (tm', ok, front)
     \<Longrightarrow> timer_step tm (LReset p ms fn now ok front) tm'"
| step_next: "getNextTimer now tm = (tm', d) \<Longrightarrow> timer_step tm (LNext now d) tm'"
| step_expired: "nowp \<notin> set (m_timers tm) \<Longrightarrow> listExpiredCb now nowp tm = (tm', cbs)
     \<Longrightarrow> timer_step tm (LExpired now (snd (detectClockRollover now tm)) cbs) tm'"

inductive_cases timer_stepE: "timer_step tm l tm'"

inductive timer_reach :: "('w, 'c) timer_manager \<Rightarrow> bool" where
  timer_start: "timer_reach (TimeManager now)"
| timer_next: "timer_reach tm \<Longrightarrow> timer_step tm l tm' \<Longrightarrow> timer_reach tm'"

lemma getNextTimer_frame:
  "m_timers (fst (getNextTimer now tm)) = m_timers tm"
  "timer_at (fst (getNextTimer now tm)) = timer_at tm"
  by (simp_all add: getNextTimer_def Let_def split: list.splits)

lemma timer_step_inv:
  assumes "timer_step tm l tm'" and "timer_inv tm"
  shows "timer_inv tm'"
  using assms
proof (induction rule: timer_step.induct)
  case (step_add p tm now ms cb r tm' front)
  then show ?case using addTimer_eqs(1) [of tm p now ms cb r] by simp
next
  case (step_cancel p tm tm' ok)
  then show ?case by (blast intro: cancel_inv)
next
  case (step_refresh p now tm tm' ok)
  then show ?case by (blast intro: refresh_inv)
next
  case (step_reset p ms fn now tm tm' ok front)
  then show ?case by (blast intro: reset_inv)
next
  case (step_next now tm tm' d)
  then show ?case using getNextTimer_frame [of now tm] by (simp add: timer_inv_def)
next
  case (step_expired nowp tm now tm' cbs)
  then show ?case using listExpiredCb_facts(1) [of tm nowp _ now] by simp
qed

lemma timer_reach_inv: "timer_reach tm \<Longrightarrow> timer_inv tm"
proof (induction rule: timer_reach.induct)
  case (timer_start now)
  show ?case by (simp add: timer_inv_def TimeManager_def Timer_at_def)
next
  case (timer_next tm l tm')
  then show ?case by (blast intro: timer_step_inv)
qed

section \<open>The abstract timer service\<close>

text \<open>
  What a client may rely on: a map from armed timers to their data. An operation reads and
  writes that map; the set, its order and the iterators do not show.
\<close>

definition armed :: "('w, 'c) timer_manager \<Rightarrow> taddr \<Rightarrow> ('w, 'c) timer option" where
  "armed tm p = (if p \<in> set (m_timers tm) then Some (timer_at tm p) else None)"

definition due :: "u64 \<Rightarrow> bool \<Rightarrow> ('w, 'c) timer \<Rightarrow> bool" where
  "due now rollover t \<longleftrightarrow> rollover \<or> m_next t \<le> now"

definition live :: "(taddr \<Rightarrow> ('w, 'c) timer option) \<Rightarrow> taddr \<Rightarrow> bool" where
  "live A p \<longleftrightarrow> (\<exists>t. A p = Some t \<and> m_cb t \<noteq> None)"

fun spec_step :: "('w, 'c) tlabel \<Rightarrow> (taddr \<Rightarrow> ('w, 'c) timer option)
    \<Rightarrow> (taddr \<Rightarrow> ('w, 'c) timer option) \<Rightarrow> bool" where
  "spec_step (LAdd p now ms cb r front) A A' \<longleftrightarrow> A' = A(p \<mapsto> Timer now ms cb r)"
| "spec_step (LCancel p ok) A A' \<longleftrightarrow> ok = live A p \<and> A' = (if ok then A(p := None) else A)"
| "spec_step (LRefresh p now ok) A A' \<longleftrightarrow> ok = live A p
     \<and> A' = (if ok then A(p := map_option (\<lambda>t. t\<lparr>m_next := now + m_ms t\<rparr>) (A p)) else A)"
| "spec_step (LReset p ms fn now ok front) A A' \<longleftrightarrow>
     (if live A p then ok
        \<and> A' = A(p := map_option (\<lambda>t. if ms = m_ms t \<and> \<not> fn then t
             else t\<lparr>m_ms := ms, m_next := (if fn then now else m_next t - m_ms t) + ms\<rparr>) (A p))
      else A' = A)"
| "spec_step (LNext now d) A A' \<longleftrightarrow> A' = A
     \<and> (if dom A = {} then d = - 1
        else \<exists>p t. A p = Some t \<and> (\<forall>q u. A q = Some u \<longrightarrow> m_next t \<le> m_next u)
              \<and> d = (if m_next t \<le> now then 0 else m_next t - now))"
| "spec_step (LExpired now ro cbs) A A' \<longleftrightarrow>
     (\<exists>ps. distinct ps \<and> set ps = {p. \<exists>t. A p = Some t \<and> due now ro t}
        \<and> sorted_wrt (\<lambda>p q. m_next (the (A p)) \<le> m_next (the (A q))) ps
        \<and> cbs = map (\<lambda>p. m_cb (the (A p))) ps)
     \<and> A' = (\<lambda>p. case A p of None \<Rightarrow> None
            | Some t \<Rightarrow> if due now ro t
                then (if m_recurring t then Some (rearmed now t) else None) else Some t)"

lemma live_armed: "timer_inv tm \<Longrightarrow> live (armed tm) p \<longleftrightarrow> m_cb (timer_at tm p) \<noteq> None"
  by (auto simp: live_def armed_def timer_inv_def)

lemma expired_set:
  assumes "timer_inv tm" and "nowp \<notin> set (m_timers tm)"
  shows "set (take (expired_prefix now nowp tm) (m_timers tm))
    = {p \<in> set (m_timers tm). due now (snd (detectClockRollover now tm)) (timer_at tm p)}"
proof (cases "snd (detectClockRollover now tm)")
  case True
  then show ?thesis by (simp add: expired_prefix_rollover due_def)
next
  case False
  then show ?thesis by (auto simp: expired_prefix_filter [OF assms] due_def)
qed

lemma refine_add:
  assumes "timer_inv tm" and "p \<notin> set (m_timers tm)"
  shows "armed (fst (addTimer p now ms cb r tm)) = (armed tm)(p \<mapsto> Timer now ms cb r)"
  using addTimer_eqs(2,3) [OF assms, of now ms cb r] by (auto simp: armed_def fun_eq_iff)

lemma refine_cancel:
  assumes inv: "timer_inv tm" and c: "cancel p tm = Inr (tm', ok)"
  shows "spec_step (LCancel p ok) (armed tm) (armed tm')"
proof (cases "m_cb (timer_at tm p)")
  case None
  then show ?thesis using c live_armed [OF inv, of p] by (auto simp: cancel_disarmed)
next
  case (Some x)
  then show ?thesis using c cancel_armed [OF inv Some]
    by (auto simp: live_armed [OF inv] armed_def fun_eq_iff)
qed

lemma refine_refresh:
  assumes inv: "timer_inv tm" and c: "refresh p now tm = Inr (tm', ok)"
  shows "spec_step (LRefresh p now ok) (armed tm) (armed tm')"
proof (cases "m_cb (timer_at tm p)")
  case None
  then show ?thesis using c live_armed [OF inv, of p] by (auto simp: refresh_def)
next
  case (Some x)
  then show ?thesis using c timer_inv_armed [OF inv Some]
    by (auto simp: refresh_cases [OF inv] Let_def live_armed [OF inv] armed_def fun_eq_iff)
qed

lemma refine_reset:
  assumes inv: "timer_inv tm" and c: "reset p ms fn now tm = Inr (tm', ok, front)"
  shows "spec_step (LReset p ms fn now ok front) (armed tm) (armed tm')"
proof (cases "m_cb (timer_at tm p)")
  case None
  then show ?thesis using c by (auto simp: reset_def live_armed [OF inv] split: if_splits)
next
  case (Some x)
  then have p: "p \<in> set (m_timers tm)" by (rule timer_inv_armed [OF inv])
  let ?t = "(timer_at tm p)\<lparr>m_ms := ms,
    m_next := (if fn then now else m_next (timer_at tm p) - m_ms (timer_at tm p)) + ms\<rparr>"
  let ?tm = "tm\<lparr>timer_at := (timer_at tm)(p := ?t), m_timers := filter (\<lambda>q. q \<noteq> p) (m_timers tm)\<rparr>"
  have "timer_inv_except [p] ?tm"
    using timer_inv_take_out(2) [OF inv p] by (auto simp: timer_inv_except_def sorted_timers_upd)
  from addTimer_locked_inv(2,3) [OF this]
  have *: "armed (fst (addTimer_locked p ?tm)) = (armed tm)(p \<mapsto> ?t)"
    using p by (auto simp: armed_def fun_eq_iff)
  show ?thesis
  proof (cases "ms = m_ms (timer_at tm p) \<and> \<not> fn")
    case True
    then show ?thesis using c p by (auto simp: reset_def armed_def fun_eq_iff)
  next
    case False
    then have "tm' = fst (addTimer_locked p ?tm)" and "ok"
      using c Some by (auto simp: reset_cases [OF inv] Let_def split: if_splits)
    then show ?thesis using * p False Some
      by (auto simp: live_armed [OF inv]) (auto simp: armed_def)
  qed
qed

lemma refine_next:
  assumes inv: "timer_inv tm" and c: "getNextTimer now tm = (tm', d)"
  shows "spec_step (LNext now d) (armed tm) (armed tm')"
proof -
  have A: "armed tm' = armed tm"
    using getNextTimer_frame [of now tm] c by (simp add: armed_def fun_eq_iff)
  show ?thesis
  proof (cases "m_timers tm")
    case Nil
    then have "dom (armed tm) = {}" by (auto simp: armed_def)
    then show ?thesis using A c Nil by (simp add: getNextTimer_def)
  next
    case (Cons p ts)
    then have "armed tm p = Some (timer_at tm p)" by (simp add: armed_def)
    moreover from this have "dom (armed tm) \<noteq> {}" by (metis domI empty_iff)
    moreover have "\<forall>q u. armed tm q = Some u \<longrightarrow> m_next (timer_at tm p) \<le> m_next u"
      using timer_inv_sorted [OF inv] Cons
      by (auto simp: armed_def timer_lt_iff split: if_splits)
    moreover have "d = (if m_next (timer_at tm p) \<le> now then 0 else m_next (timer_at tm p) - now)"
      using c Cons by (auto simp: getNextTimer_def Let_def split: if_splits)
    ultimately show ?thesis using A by auto
  qed
qed

lemma refine_expired:
  assumes inv: "timer_inv tm" and new: "nowp \<notin> set (m_timers tm)"
    and c: "listExpiredCb now nowp tm = (tm', cbs)"
  shows "spec_step (LExpired now (snd (detectClockRollover now tm)) cbs) (armed tm) (armed tm')"
proof -
  let ?ro = "snd (detectClockRollover now tm)"
  let ?ex = "take (expired_prefix now nowp tm) (m_timers tm)"
  note f = listExpiredCb_facts [OF inv new refl, of now, unfolded c fst_conv snd_conv]
  note ex = expired_set [OF inv new, of now]
  have "armed tm' = (\<lambda>p. case armed tm p of None \<Rightarrow> None
      | Some t \<Rightarrow> if due now ?ro t
          then (if m_recurring t then Some (rearmed now t) else None) else Some t)"
    by (rule ext) (simp add: armed_def f(3,4) ex)
  moreover have "set ?ex = {p. \<exists>t. armed tm p = Some t \<and> due now ?ro t}"
    by (auto simp: ex armed_def)
  moreover have "distinct ?ex" using timer_inv_distinct [OF inv] by simp
  moreover have sub: "set ?ex \<subseteq> set (m_timers tm)" by (rule set_take_subset)
  have "sorted_wrt (timer_lt (timer_at tm)) ?ex"
    using timer_inv_sorted [OF inv] by (metis append_take_drop_id sorted_wrt_append)
  then have "sorted_wrt (\<lambda>p q. m_next (the (armed tm p)) \<le> m_next (the (armed tm q))) ?ex"
    by (rule sorted_wrt_mono_on) (use sub in \<open>auto simp: armed_def timer_lt_iff subset_iff\<close>)
  moreover have "cbs = map (\<lambda>p. m_cb (the (armed tm p))) ?ex"
    using sub by (auto simp: f(2) armed_def)
  ultimately show ?thesis by (simp only: spec_step.simps) blast
qed

lemma timer_step_refines:
  assumes "timer_step tm l tm'" and inv: "timer_inv tm"
  shows "spec_step l (armed tm) (armed tm')"
  using assms(1)
proof (cases rule: timer_step.cases)
  case (step_add p now ms cb r front)
  then show ?thesis using refine_add [OF inv, of p now ms cb r] by simp
next
  case (step_cancel p ok)
  then show ?thesis using refine_cancel [OF inv] by blast
next
  case (step_refresh p now ok)
  then show ?thesis using refine_refresh [OF inv] by blast
next
  case (step_reset p ms fn now ok front)
  then show ?thesis using refine_reset [OF inv] by blast
next
  case (step_next now d)
  then show ?thesis using refine_next [OF inv] by blast
next
  case (step_expired nowp now cbs)
  then show ?thesis using refine_expired [OF inv] by blast
qed

section \<open>Deadlines and sleeping times\<close>

text \<open>The head of the set has the least deadline.\<close>

lemma hd_least:
  assumes "timer_inv tm" and "m_timers tm = p # ts"
  shows "(\<exists>q \<in> set (m_timers tm). m_next (timer_at tm q) \<le> t) \<longleftrightarrow> m_next (timer_at tm p) \<le> t"
  using timer_inv_sorted [OF assms(1)] assms(2) by (auto simp: timer_lt_iff)

lemma sleep_until:
  fixes now deadline t :: u64
  assumes "now \<le> t"
  shows "deadline \<le> t \<longleftrightarrow> now + (if now \<ge> deadline then 0 else deadline - now) \<le> t"
  using assms by auto

lemma rollover_iff:
  fixes now prev :: u64
  shows "(now < prev \<and> now < prev - 60 * 60 * 1000)
    \<longleftrightarrow> now < prev \<and> (unat prev < 3600000 \<or> unat now + 3600000 < unat prev)"
proof (cases "3600000 \<le> prev")
  case True
  then have "unat (prev - 3600000) = unat prev - 3600000"
    by (simp add: unat_sub)
  moreover have "3600000 \<le> unat prev" using True by (simp add: word_le_nat_alt)
  ultimately show ?thesis by (auto simp: word_less_nat_alt)
next
  case False
  then have lt: "unat prev < 3600000" by (simp add: word_le_nat_alt)
  have "unat (prev - 3600000) = 2 ^ 64 + unat prev - 3600000"
    using False by (simp add: unat_sub_if_size word_size word_le_nat_alt)
  then have "now < prev \<Longrightarrow> now < prev - 3600000"
    using lt by (auto simp: word_less_nat_alt)
  with lt show ?thesis by auto
qed

lemma cancel_total:
  assumes inv: "timer_inv tm"
  shows "\<exists>tm' ok. cancel p tm = Inr (tm', ok) \<and> ok = live (armed tm) p
    \<and> armed tm' = (if ok then (armed tm)(p := None) else armed tm)"
proof (cases "m_cb (timer_at tm p)")
  case None
  then have "cancel p tm = Inr (tm, False)" by (rule cancel_disarmed)
  then show ?thesis using live_armed [OF inv, of p] None by auto
next
  case (Some x)
  then have c: "\<exists>tm'. cancel p tm = Inr (tm', True)" using cancel_armed [OF inv] by blast
  then show ?thesis using refine_cancel [OF inv] by fastforce
qed

lemma expired_in_order:
  assumes inv: "timer_inv tm" and new: "nowp \<notin> set (m_timers tm)"
    and nr: "\<not> snd (detectClockRollover now tm)"
  shows "snd (listExpiredCb now nowp tm)
    = map (\<lambda>p. m_cb (timer_at tm p)) (filter (\<lambda>p. m_next (timer_at tm p) \<le> now) (m_timers tm))"
  using listExpiredCb_facts(2) [OF inv new refl] expired_prefix_filter [OF assms] by simp

lemma expired_nonempty_iff:
  assumes "timer_inv tm" and "nowp \<notin> set (m_timers tm)"
    and "\<not> snd (detectClockRollover now tm)"
  shows "snd (listExpiredCb now nowp tm) \<noteq> []
    \<longleftrightarrow> (\<exists>p \<in> set (m_timers tm). m_next (timer_at tm p) \<le> now)"
  by (simp add: expired_in_order [OF assms] filter_empty_conv)

lemma lower_bound_zero_iff:
  assumes "sorted_wrt (timer_lt h) ts" and "p \<notin> set ts"
  shows "set_lower_bound (timer_lt h) p ts = 0 \<longleftrightarrow> (\<forall>q \<in> set ts. timer_lt h p q)"
proof (cases ts)
  case Nil
  then show ?thesis by simp
next
  case (Cons q qs)
  have pq: "timer_lt h p q \<longleftrightarrow> \<not> timer_lt h q p"
    using assms(2) Cons timer_order.lt_total [of p q h] timer_order.lt_asym [of h] by auto
  have "timer_lt h p r" if "timer_lt h p q" "r \<in> set qs" for r
    using that assms(1) Cons by (auto intro: timer_order.lt_trans [of h p q])
  with pq show ?thesis using Cons by auto
qed

lemma addTimer_front:
  assumes inv: "timer_inv tm" and new: "p \<notin> set (m_timers tm)"
  shows "snd (addTimer p now ms cb r tm)
    \<longleftrightarrow> \<not> m_tickled tm \<and> (\<forall>q \<in> set (m_timers tm).
         timer_lt ((timer_at tm)(p := Timer now ms cb r)) p q)"
  using lower_bound_zero_iff [of "(timer_at tm)(p := Timer now ms cb r)" "m_timers tm" p]
    timer_inv_sorted [OF inv] new
  by (auto simp: addTimer_def addTimer_locked_def Let_def sorted_timers_upd)

lemma addTimer_tickled:
  "m_tickled (fst (addTimer p now ms cb r tm)) = (m_tickled tm \<or> snd (addTimer p now ms cb r tm))"
  by (simp add: addTimer_def addTimer_locked_def Let_def)

lemma getNextTimer_tickled: "\<not> m_tickled (fst (getNextTimer now tm))"
  by (simp add: getNextTimer_def Let_def split: list.splits)

lemma wakeup_exact:
  assumes inv: "timer_inv tm" and ne: "m_timers tm \<noteq> []" and d: "getNextTimer now tm = (tm', d)"
    and "now \<le> t" and new: "nowp \<notin> set (m_timers tm)"
    and nr: "\<not> snd (detectClockRollover t tm')"
  shows "snd (listExpiredCb t nowp tm') \<noteq> [] \<longleftrightarrow> now + d \<le> t"
proof -
  obtain p ts where p: "m_timers tm = p # ts" using ne by (auto simp: neq_Nil_conv)
  have f: "m_timers tm' = m_timers tm" "timer_at tm' = timer_at tm"
    using getNextTimer_frame [of now tm] d by simp_all
  then have inv': "timer_inv tm'" using inv by (simp add: timer_inv_def)
  have "d = (if now \<ge> m_next (timer_at tm p) then 0 else m_next (timer_at tm p) - now)"
    using d p by (auto simp: getNextTimer_def Let_def split: if_splits)
  then have "m_next (timer_at tm p) \<le> t \<longleftrightarrow> now + d \<le> t"
    using sleep_until [OF \<open>now \<le> t\<close>] by simp
  then show ?thesis
    using expired_nonempty_iff [OF inv' _ nr, of nowp] hd_least [OF inv p, of t] new f by simp
qed

text \<open>A small run for the witnesses: a one-shot and a recurring timer.\<close>

definition demo_tm :: "(nat, nat) timer_manager" where
  "demo_tm = fst (addTimer 2 1000 20 (Some (Direct 8)) True
     (fst (addTimer 1 1000 50 (Some (Direct 7)) False (TimeManager 1000))))"

lemma demo_tm_reach: "timer_reach demo_tm"
proof -
  let ?a = "addTimer 1 1000 50 (Some (Direct (7::nat))) False (TimeManager 1000 :: (nat, nat) timer_manager)"
  let ?b = "addTimer 2 1000 20 (Some (Direct 8)) True (fst ?a)"
  have "timer_step (TimeManager 1000) (LAdd 1 1000 50 (Some (Direct 7)) False (snd ?a)) (fst ?a)"
    by (rule step_add) (simp_all add: TimeManager_def)
  then have "timer_reach (fst ?a)" by (rule timer_next [OF timer_start])
  moreover have "timer_step (fst ?a) (LAdd 2 1000 20 (Some (Direct 8)) True (snd ?b)) (fst ?b)"
    by (rule step_add) (simp_all add: TimeManager_def addTimer_def addTimer_locked_def Let_def)
  ultimately show ?thesis unfolding demo_tm_def by (rule timer_next)
qed

lemma demo_tm_eq:
  "demo_tm = \<lparr>timer_at = ((\<lambda>_. Timer_at 0)(1 := Timer 1000 50 (Some (Direct 7)) False))
       (2 := Timer 1000 20 (Some (Direct 8)) True),
     m_timers = [2, 1], m_tickled = True, m_previouseTime = 1000\<rparr>"
  by (simp add: demo_tm_def TimeManager_def addTimer_def addTimer_locked_def timer_lt_iff Timer_def)

section \<open>Properties\<close>

text \<open>C34: every step of a \<open>TimeManager\<close> reached from its construction is a step of the
  abstract timer service: adding, cancelling, refreshing and resetting change exactly the entry
  of that timer in the map of armed timers, \<open>getNextTimer\<close> returns the distance to the least
  deadline, and \<open>listExpiredCb\<close> returns the callbacks of the due timers in the order of their
  deadlines, re-arms the recurring ones and disarms the others.\<close>

theorem timer_manager_refines:
  assumes "timer_reach tm" and "timer_step tm l tm'"
  shows "spec_step l (armed tm) (armed tm')"
  using assms timer_step_refines timer_reach_inv by blast

theorem timer_manager_refines_witness:
  "spec_step (LExpired 1020 False [Some (Direct 8)]) (armed demo_tm)
     (armed (fst (listExpiredCb 1020 9 demo_tm)))"
proof -
  have "timer_step demo_tm (LExpired 1020 (snd (detectClockRollover 1020 demo_tm))
      (snd (listExpiredCb 1020 9 demo_tm))) (fst (listExpiredCb 1020 9 demo_tm))"
    by (rule step_expired [of 9]) (simp_all add: demo_tm_eq)
  moreover have "snd (detectClockRollover 1020 demo_tm) = False"
    by (simp add: detectClockRollover_def demo_tm_eq)
  moreover have "snd (listExpiredCb 1020 9 demo_tm) = [Some (Direct 8)]"
    by (simp add: listExpiredCb_def detectClockRollover_def demo_tm_eq timer_lt_iff Timer_def Timer_at_def)
  ultimately show ?thesis using timer_manager_refines [OF demo_tm_reach] by metis
qed

text \<open>C37: in every state a \<open>TimeManager\<close> can reach, \<open>Timer::cancel\<close> returns (it never
  erases \<open>end()\<close>), returns true exactly for a timer that still has its callback in the set,
  and afterwards that timer is not armed while every other timer is as before.\<close>

theorem timer_cancel_never_faults:
  assumes "timer_reach tm"
  shows "\<exists>tm' ok. cancel p tm = Inr (tm', ok) \<and> ok = live (armed tm) p
    \<and> armed tm' = (if ok then (armed tm)(p := None) else armed tm)"
  by (rule cancel_total) (rule timer_reach_inv [OF assms])

theorem timer_cancel_never_faults_witness:
  "\<exists>tm'. cancel 2 demo_tm = Inr (tm', True) \<and> armed tm' = (armed demo_tm)(2 := None)"
proof -
  have "live (armed demo_tm) 2"
    by (simp add: live_def armed_def demo_tm_eq Timer_def)
  then show ?thesis using timer_cancel_never_faults [OF demo_tm_reach, of 2] by auto
qed

text \<open>C38: unless the clock was set back, \<open>listExpiredCb\<close> returns exactly the callbacks of the
  timers whose deadline is at or before \<open>now\<close> (the ones due at \<open>now\<close> itself included,
  wherever their addresses sort), in the order of the set.\<close>

theorem timer_expired_exact:
  assumes "timer_reach tm" and "nowp \<notin> set (m_timers tm)"
    and "\<not> snd (detectClockRollover now tm)"
  shows "snd (listExpiredCb now nowp tm)
    = map (\<lambda>p. m_cb (timer_at tm p)) (filter (\<lambda>p. m_next (timer_at tm p) \<le> now) (m_timers tm))"
  by (rule expired_in_order) (use assms timer_reach_inv in auto)

theorem timer_expired_exact_witness:
  "snd (listExpiredCb 1050 0 demo_tm) = [Some (Direct 8), Some (Direct 7)]"
proof -
  have "\<not> snd (detectClockRollover 1050 demo_tm)" and "0 \<notin> set (m_timers demo_tm)"
    by (simp_all add: detectClockRollover_def demo_tm_eq)
  from timer_expired_exact [OF demo_tm_reach this(2,1)] show ?thesis
    by (simp add: demo_tm_eq Timer_def)
qed

text \<open>The sleeping time \<open>getNextTimer\<close> returns is exact: at any later time \<open>t\<close> (clock not
  set back), \<open>listExpiredCb\<close> finds an expired timer if and only if at least that time has
  passed. A thread that sleeps for it neither misses a timer nor wakes for nothing.\<close>

theorem timer_sleep_exact:
  assumes "timer_reach tm" and "m_timers tm \<noteq> []" and "getNextTimer now tm = (tm', d)"
    and "now \<le> t" and "nowp \<notin> set (m_timers tm)" and "\<not> snd (detectClockRollover t tm')"
  shows "snd (listExpiredCb t nowp tm') \<noteq> [] \<longleftrightarrow> now + d \<le> t"
  by (rule wakeup_exact) (use assms timer_reach_inv in auto)

theorem timer_sleep_exact_witness:
  "snd (getNextTimer 1005 demo_tm) = 15
   \<and> snd (listExpiredCb 1019 9 (fst (getNextTimer 1005 demo_tm))) = []
   \<and> snd (listExpiredCb 1020 9 (fst (getNextTimer 1005 demo_tm))) \<noteq> []"
proof -
  let ?g = "getNextTimer 1005 demo_tm"
  have d: "snd ?g = 15" by (simp add: getNextTimer_def demo_tm_eq Timer_def)
  have g: "?g = (fst ?g, 15)" using d by (metis prod.collapse)
  have nr: "\<not> snd (detectClockRollover 1019 (fst ?g))" "\<not> snd (detectClockRollover 1020 (fst ?g))"
    by (simp_all add: detectClockRollover_def getNextTimer_def Let_def demo_tm_eq Timer_def)
  have n: "m_timers demo_tm \<noteq> []" "9 \<notin> set (m_timers demo_tm)" by (simp_all add: demo_tm_eq)
  have "snd (listExpiredCb 1019 9 (fst ?g)) \<noteq> [] \<longleftrightarrow> (1005 + 15 :: u64) \<le> 1019"
    by (rule timer_sleep_exact [OF demo_tm_reach n(1) g _ n(2) nr(1)]) simp
  moreover have "snd (listExpiredCb 1020 9 (fst ?g)) \<noteq> [] \<longleftrightarrow> (1005 + 15 :: u64) \<le> 1020"
    by (rule timer_sleep_exact [OF demo_tm_reach n(1) g _ n(2) nr(2)]) simp
  ultimately show ?thesis using d by simp
qed

text \<open>\<open>addTimer\<close> calls \<open>onTimerInsertedAtFront\<close> exactly when the new timer comes before
  every armed timer and no such notification has been given since the last \<open>getNextTimer\<close>;
  giving it records that it was given.\<close>

theorem timer_front_notification:
  assumes "timer_reach tm" and "p \<notin> set (m_timers tm)"
  shows "(snd (addTimer p now ms cb r tm)
      \<longleftrightarrow> \<not> m_tickled tm \<and> (\<forall>q \<in> set (m_timers tm).
           timer_lt ((timer_at tm)(p := Timer now ms cb r)) p q))
    \<and> m_tickled (fst (addTimer p now ms cb r tm))
      = (m_tickled tm \<or> snd (addTimer p now ms cb r tm))
    \<and> \<not> m_tickled (fst (getNextTimer now tm))"
  using addTimer_front [OF timer_reach_inv [OF assms(1)] assms(2), of now ms cb r]
    addTimer_tickled [of p now ms cb r tm] getNextTimer_tickled [of now tm]
  by blast

theorem timer_front_notification_witness:
  "\<not> snd (addTimer 3 1000 5 (Some (Direct 9)) False demo_tm)
   \<and> snd (addTimer 3 1000 5 (Some (Direct 9)) False (fst (getNextTimer 1000 demo_tm)))"
proof -
  let ?g = "getNextTimer 1000 demo_tm"
  have "timer_step demo_tm (LNext 1000 (snd ?g)) (fst ?g)" by (rule step_next) simp
  then have r: "timer_reach (fst ?g)" by (rule timer_next [OF demo_tm_reach])
  have n: "3 \<notin> set (m_timers demo_tm)" "3 \<notin> set (m_timers (fst ?g))"
    by (simp_all add: getNextTimer_frame demo_tm_eq)
  show ?thesis
    using timer_front_notification [OF demo_tm_reach n(1), of 1000 5 "Some (Direct 9)" False]
      timer_front_notification [OF r n(2), of 1000 5 "Some (Direct 9)" False]
    by (simp add: getNextTimer_frame demo_tm_eq timer_lt_iff Timer_def)
qed

text \<open>The exact condition of \<open>detectClockRollover\<close> on its unsigned operands: the clock went
  back, and by more than an hour or from a time less than an hour after the epoch, where the
  subtraction wraps around.\<close>

theorem rollover_exact:
  "snd (detectClockRollover now tm) \<longleftrightarrow> now < m_previouseTime tm
     \<and> (unat (m_previouseTime tm) < 3600000
        \<or> unat now + 3600000 < unat (m_previouseTime tm))"
  using rollover_iff [of now "m_previouseTime tm"] by (simp add: detectClockRollover_def Let_def)

end
