(* ===== verification/Fibers.thy ===== *)
theory Fibers
  imports Prelude
begin

text \<open>
  sylar/fiber.h and sylar/fiber.cpp: fibers over \<open>ucontext\<close>. A fiber is an object at an
  address; the thread-local and global variables of the file are fields of the state. What
  \<open>getcontext\<close>, \<open>makecontext\<close> and \<open>swapcontext\<close> leave in a \<open>ucontext_t\<close> is the point where
  its activation continues, and \<open>running\<close> says whose stack executes now, so that a switch
  back to the wrong place would show. The system calls' return codes are arguments.
\<close>

section \<open>Data\<close>

type_synonym faddr = nat

datatype fiber_state = INIT | HOLD | EXEC | TERM' | READY | EXCEPT

text \<open>A flow of control: the code the thread started with, or the code on a fiber's stack.\<close>

datatype flow = ThreadFlow | FiberFlow faddr

text \<open>
  \<open>AtGetcontext\<close>: captured inside the constructor of a main fiber, whose frame is gone.
  \<open>AtMainFunc\<close>: \<open>makecontext(&m_ctx, &Fiber::MainFunc, 0)\<close>, activation starts \<open>MainFunc\<close> on
  the fiber's own stack. \<open>AtSwap f\<close>: saved by \<open>swapcontext\<close>, activation continues flow \<open>f\<close>.
  \<open>AtNeverReach\<close>: saved by the last \<open>swapOut\<close> of \<open>MainFunc\<close>, activation runs into
  \<open>SYLAR_ASSERT2(false, "never reach")\<close>.
\<close>

datatype ucontext = AtGetcontext | AtMainFunc | AtSwap flow | AtNeverReach

record 'c fiber =
  m_id :: u64
  m_stacksize :: u32
  m_state :: fiber_state
  m_ctx :: ucontext
  m_stack :: nat
  m_fcb :: "'c option"
  m_runInScheduler :: bool

record 'c fstate =
  fiber_at :: "faddr \<Rightarrow> 'c fiber"
  s_fiber_id :: u64
  s_fiber_count :: u64
  t_fiber :: "faddr option"
  t_thread_fiber :: "faddr option"
  t_scheduler_fiber :: "faddr option"
  running :: flow

section \<open>Operations\<close>

definition SetThis :: "faddr option \<Rightarrow> 'c fstate \<Rightarrow> 'c fstate" where
  "SetThis f s = s\<lparr>t_fiber := f\<rparr>"

definition set_fiber :: "faddr \<Rightarrow> 'c fiber \<Rightarrow> 'c fstate \<Rightarrow> 'c fstate" where
  "set_fiber p f s = s\<lparr>fiber_at := (fiber_at s)(p := f)\<rparr>"

definition set_state :: "faddr \<Rightarrow> fiber_state \<Rightarrow> 'c fstate \<Rightarrow> 'c fstate" where
  "set_state p st s = set_fiber p ((fiber_at s p)\<lparr>m_state := st\<rparr>) s"

text \<open>\<open>Fiber()\<close>, the main fiber of a thread; \<open>rc\<close> is what \<open>getcontext\<close> returned.\<close>

definition Fiber_main :: "faddr \<Rightarrow> int \<Rightarrow> 'c fstate \<Rightarrow> 'c fstate result" where
  "Fiber_main p rc s =
     rbind (SYLAR_ASSERT (rc = 0) ''getcontext'')
       (\<lambda>_. Inr ((SetThis (Some p) (set_fiber p
          \<lparr>m_id = 0, m_stacksize = 0, m_state = EXEC, m_ctx = AtGetcontext, m_stack = 0,
           m_fcb = None, m_runInScheduler = False\<rparr> s))\<lparr>s_fiber_count := s_fiber_count s + 1\<rparr>))"

text \<open>\<open>Fiber(cb, stacksize, run_in_scheduler)\<close>: \<open>cfg\<close> is the value of \<open>fiber.stack_size\<close>,
  \<open>stk\<close> what \<open>malloc\<close> returned. The stack size is narrowed to 32 bits when it is stored.\<close>

definition Fiber_new ::
    "faddr \<Rightarrow> 'c option \<Rightarrow> u64 \<Rightarrow> bool \<Rightarrow> u32 \<Rightarrow> nat \<Rightarrow> int \<Rightarrow> 'c fstate \<Rightarrow> 'c fstate result" where
  "Fiber_new p cb stacksize run_in_scheduler cfg stk rc s =
     (let fid = s_fiber_id s + 1
      in rbind (SYLAR_ASSERT (rc = 0) ''getcontext'')
           (\<lambda>_. Inr ((set_fiber p
              \<lparr>m_id = fid, m_stacksize = (if stacksize \<noteq> 0 then ucast stacksize else cfg),
               m_state = INIT, m_ctx = AtMainFunc, m_stack = stk, m_fcb = cb,
               m_runInScheduler = run_in_scheduler\<rparr> s)
              \<lparr>s_fiber_id := fid, s_fiber_count := s_fiber_count s + 1\<rparr>)))"

text \<open>\<open>~Fiber()\<close>; afterwards nothing is at the address.\<close>

definition no_fiber :: "'c fiber" where
  "no_fiber = \<lparr>m_id = 0, m_stacksize = 0, m_state = INIT, m_ctx = AtGetcontext, m_stack = 0,
     m_fcb = None, m_runInScheduler = False\<rparr>"

definition Fiber_delete :: "faddr \<Rightarrow> 'c fstate \<Rightarrow> 'c fstate result" where
  "Fiber_delete p s0 =
     (let f = fiber_at s0 p;
          s = (set_fiber p no_fiber s0)\<lparr>s_fiber_count := s_fiber_count s0 - 1\<rparr>
      in if m_stack f \<noteq> 0
         then rbind (SYLAR_ASSERT (m_state f = TERM' \<or> m_state f = INIT \<or> m_state f = EXCEPT)
                       ''m_state == TERM || m_state == INIT || m_state == EXCEPT'')
                (\<lambda>_. Inr s)
         else rbind (SYLAR_ASSERT (m_fcb f = None) ''!m_cb'')
                (\<lambda>_. rbind (SYLAR_ASSERT (m_state f = EXEC) ''m_state == EXEC'')
                  (\<lambda>_. Inr (if t_fiber s = Some p then SetThis None s else s))))"

text \<open>\<open>Fiber::GetThis\<close>: the fiber it returns; \<open>p\<close> is the address of the main fiber it may create.\<close>

definition GetThis :: "faddr \<Rightarrow> int \<Rightarrow> 'c fstate \<Rightarrow> ('c fstate \<times> faddr) result" where
  "GetThis p rc s =
     (case t_fiber s of
        Some f \<Rightarrow> Inr (s, f)
      | None \<Rightarrow> rbind (Fiber_main p rc s)
          (\<lambda>s1. rbind (SYLAR_ASSERT (t_fiber s1 = Some p) ''t_fiber == main_fiber.get()'')
            (\<lambda>_. Inr (s1\<lparr>t_thread_fiber := Some p\<rparr>, p))))"

definition GetFiberId :: "'c fstate \<Rightarrow> u64" where
  "GetFiberId s = (case t_fiber s of Some f \<Rightarrow> m_id (fiber_at s f) | None \<Rightarrow> 0)"

definition TotalFibers :: "'c fstate \<Rightarrow> u64" where
  "TotalFibers s = s_fiber_count s"

definition Fiber_reset :: "faddr \<Rightarrow> 'c option \<Rightarrow> int \<Rightarrow> 'c fstate \<Rightarrow> 'c fstate result" where
  "Fiber_reset p cb rc s =
     (let f = fiber_at s p
      in rbind (SYLAR_ASSERT (m_stack f \<noteq> 0) ''m_stack'')
          (\<lambda>_. rbind (SYLAR_ASSERT (m_state f = TERM' \<or> m_state f = INIT \<or> m_state f = EXCEPT)
                        ''m_state == TERM || m_state == INIT || m_state == EXCEPT'')
          (\<lambda>_. rbind (SYLAR_ASSERT (rc = 0) ''getcontext'')
          (\<lambda>_. Inr (set_fiber p (f\<lparr>m_fcb := cb, m_ctx := AtMainFunc, m_state := INIT\<rparr>) s)))))"

text \<open>
  \<open>swapcontext(&o->m_ctx, &n->m_ctx)\<close>: the point \<open>pos\<close> where the caller will continue goes
  into \<open>o\<close>, then the context of \<open>n\<close> is activated. A non-zero return code is asserted on by
  every caller.
\<close>

definition activate :: "faddr \<Rightarrow> 'c fstate \<Rightarrow> 'c fstate result" where
  "activate n s =
     (case m_ctx (fiber_at s n) of
        AtMainFunc \<Rightarrow> Inr (s\<lparr>running := FiberFlow n\<rparr>)
      | AtSwap f \<Rightarrow> Inr (s\<lparr>running := f\<rparr>)
      | AtGetcontext \<Rightarrow> Inl (Undefined ''context of a returned frame'')
      | AtNeverReach \<Rightarrow> Inl (AssertFail ''never reach''))"

definition swapcontext :: "ucontext \<Rightarrow> int \<Rightarrow> faddr \<Rightarrow> faddr \<Rightarrow> 'c fstate \<Rightarrow> 'c fstate result" where
  "swapcontext pos rc o_ctx n_ctx s =
     rbind (SYLAR_ASSERT (rc = 0) ''swapcontext'')
       (\<lambda>_. activate n_ctx (set_fiber o_ctx ((fiber_at s o_ctx)\<lparr>m_ctx := pos\<rparr>) s))"

text \<open>Dereferencing the thread-local fiber pointers.\<close>

definition deref :: "faddr option \<Rightarrow> (faddr \<Rightarrow> 'a result) \<Rightarrow> 'a result" where
  "deref p k = (case p of None \<Rightarrow> Inl (Undefined ''null fiber'') | Some f \<Rightarrow> k f)"

definition swapIn :: "faddr \<Rightarrow> int \<Rightarrow> 'c fstate \<Rightarrow> 'c fstate result" where
  "swapIn p rc s0 =
     (let s = SetThis (Some p) s0
      in rbind (SYLAR_ASSERT (m_state (fiber_at s p) \<noteq> EXEC) ''m_state != EXEC'')
          (\<lambda>_. let s1 = set_state p EXEC s
               in deref (if m_runInScheduler (fiber_at s1 p)
                         then t_scheduler_fiber s1 else t_thread_fiber s1)
                    (\<lambda>m. swapcontext (AtSwap (running s1)) rc m p s1)))"

text \<open>\<open>swapOut\<close>; \<open>pos\<close> is the point after the call where the fiber continues.\<close>

definition swapOut_at :: "ucontext \<Rightarrow> faddr \<Rightarrow> int \<Rightarrow> 'c fstate \<Rightarrow> 'c fstate result" where
  "swapOut_at pos p rc s0 =
     (let s = SetThis (t_thread_fiber s0) s0
      in deref (if m_runInScheduler (fiber_at s p) then t_scheduler_fiber s else t_thread_fiber s)
           (\<lambda>m. swapcontext pos rc p m s))"

definition swapOut :: "faddr \<Rightarrow> int \<Rightarrow> 'c fstate \<Rightarrow> 'c fstate result" where
  "swapOut p rc s = swapOut_at (AtSwap (running s)) p rc s"

definition YieldToReady :: "faddr \<Rightarrow> int \<Rightarrow> int \<Rightarrow> 'c fstate \<Rightarrow> 'c fstate result" where
  "YieldToReady new_main rc1 rc2 s =
     rbind (GetThis new_main rc1 s)
       (\<lambda>(s1, cur). swapOut cur rc2 (set_state cur READY s1))"

definition YieldToHold :: "faddr \<Rightarrow> int \<Rightarrow> int \<Rightarrow> 'c fstate \<Rightarrow> 'c fstate result" where
  "YieldToHold new_main rc1 rc2 s =
     rbind (GetThis new_main rc1 s)
       (\<lambda>(s1, cur). rbind (SYLAR_ASSERT (m_state (fiber_at s1 cur) = EXEC) ''cur->m_state == EXEC'')
         (\<lambda>_. swapOut cur rc2 s1))"

text \<open>
  \<open>MainFunc\<close> around the call of the callback: how the call ended (\<open>None\<close>: it returned,
  \<open>Some e\<close>: it threw), then the state change and the last \<open>swapOut\<close>. Calling an empty
  \<open>std::function\<close> throws \<open>std::bad_function_call\<close>, a \<open>std::exception\<close>.
\<close>

definition MainFunc_finish :: "string option \<Rightarrow> faddr \<Rightarrow> int \<Rightarrow> 'c fstate \<Rightarrow> 'c fstate result" where
  "MainFunc_finish thrown cur rc s =
     (let s1 = (case thrown of
           None \<Rightarrow> set_fiber cur ((fiber_at s cur)\<lparr>m_fcb := None, m_state := TERM'\<rparr>) s
         | Some e \<Rightarrow> set_state cur EXCEPT s)
      in swapOut_at AtNeverReach cur rc s1)"

text \<open>The start of \<open>MainFunc\<close>: which callback it calls, or what it ends with when there is none.\<close>

definition MainFunc_start :: "faddr \<Rightarrow> int \<Rightarrow> int \<Rightarrow> 'c fstate \<Rightarrow> ('c fstate \<times> 'c option) result" where
  "MainFunc_start new_main rc1 rc2 s =
     rbind (GetThis new_main rc1 s)
       (\<lambda>(s1, cur). case m_fcb (fiber_at s1 cur) of
          Some cb \<Rightarrow> Inr (s1, Some cb)
        | None \<Rightarrow> rbind (MainFunc_finish (Some ''bad_function_call'') cur rc2 s1)
                    (\<lambda>s2. Inr (s2, None)))"

definition fiber_init :: "'c fstate" where
  "fiber_init = \<lparr>fiber_at = (\<lambda>_. no_fiber), s_fiber_id = 0, s_fiber_count = 0, t_fiber = None,
     t_thread_fiber = None, t_scheduler_fiber = None, running = ThreadFlow\<rparr>"

section \<open>How one thread uses its fibers\<close>

text \<open>
  \<open>flow_of m p\<close> is the code fiber \<open>p\<close> stands for (\<open>m\<close> is the main fiber of the thread), and
  \<open>resumer m s p\<close> the fiber whose context \<open>swapIn\<close> and \<open>swapOut\<close> of \<open>p\<close> pair with.
\<close>

definition flow_of :: "faddr \<Rightarrow> faddr \<Rightarrow> flow" where
  "flow_of m p = (if p = m then ThreadFlow else FiberFlow p)"

definition resumer :: "faddr \<Rightarrow> 'c fstate \<Rightarrow> faddr \<Rightarrow> faddr" where
  "resumer m s p = (if m_runInScheduler (fiber_at s p)
     then (case t_scheduler_fiber s of Some f \<Rightarrow> f | None \<Rightarrow> m) else m)"

text \<open>
  The steps of a thread with main fiber \<open>m\<close>. The discipline of the sources: a fiber is entered
  by the code it returns to (the thread's own code, or the scheduling fiber for the fibers that
  run in the scheduler), the code of a task yields, any fiber's code ends, and only a suspended
  fiber is reset, set to \<open>HOLD\<close> or destroyed. \<open>run_in_scheduler\<close> fibers exist once the
  thread has a scheduling fiber.
\<close>

inductive fiber_step :: "faddr \<Rightarrow> 'c fstate \<Rightarrow> 'c fstate \<Rightarrow> bool" for m where
  fs_new: "p \<noteq> m \<Longrightarrow> m_stack (fiber_at s p) = 0 \<Longrightarrow> stk \<noteq> 0 \<Longrightarrow> t_scheduler_fiber s \<noteq> Some p
     \<Longrightarrow> running s \<noteq> FiberFlow p \<Longrightarrow> Fiber_new p cb sz ris cfg stk 0 s = Inr s' \<Longrightarrow> fiber_step m s s'"
| fs_designate: "t_scheduler_fiber s = None \<Longrightarrow> running s = ThreadFlow
     \<Longrightarrow> r = m \<or> m_stack (fiber_at s r) \<noteq> 0 \<and> m_state (fiber_at s r) = INIT
           \<and> \<not> m_runInScheduler (fiber_at s r)
     \<Longrightarrow> fiber_step m s (s\<lparr>t_scheduler_fiber := Some r\<rparr>)"
| fs_in: "p \<noteq> m \<Longrightarrow> m_stack (fiber_at s p) \<noteq> 0 \<Longrightarrow> running s = flow_of m (resumer m s p)
     \<Longrightarrow> m_runInScheduler (fiber_at s p) \<longrightarrow> t_scheduler_fiber s \<noteq> None
     \<Longrightarrow> swapIn p 0 s = Inr s' \<Longrightarrow> fiber_step m s s'"
| fs_ready: "running s = FiberFlow p \<Longrightarrow> t_scheduler_fiber s \<noteq> Some p
     \<Longrightarrow> YieldToReady d 0 0 s = Inr s' \<Longrightarrow> fiber_step m s s'"
| fs_hold: "running s = FiberFlow p \<Longrightarrow> t_scheduler_fiber s \<noteq> Some p
     \<Longrightarrow> YieldToHold d 0 0 s = Inr s' \<Longrightarrow> fiber_step m s s'"
| fs_finish: "running s = FiberFlow p \<Longrightarrow> MainFunc_finish thrown p 0 s = Inr s' \<Longrightarrow> fiber_step m s s'"
| fs_set_hold: "p \<noteq> m \<Longrightarrow> running s \<noteq> FiberFlow p \<Longrightarrow> t_scheduler_fiber s \<noteq> Some p
     \<Longrightarrow> m_state (fiber_at s p) = EXEC \<Longrightarrow> m_stack (fiber_at s p) \<noteq> 0
     \<Longrightarrow> fiber_step m s (set_state p HOLD s)"
| fs_reset: "running s \<noteq> FiberFlow p \<Longrightarrow> Fiber_reset p cb 0 s = Inr s' \<Longrightarrow> fiber_step m s s'"
| fs_delete: "p \<noteq> m \<Longrightarrow> m_stack (fiber_at s p) \<noteq> 0 \<Longrightarrow> running s \<noteq> FiberFlow p
     \<Longrightarrow> t_scheduler_fiber s \<noteq> Some p \<Longrightarrow> Fiber_delete p s = Inr s' \<Longrightarrow> fiber_step m s s'"

inductive fiber_reach :: "faddr \<Rightarrow> 'c fstate \<Rightarrow> bool" for m where
  fr_start: "GetThis m 0 fiber_init = Inr (s, m) \<Longrightarrow> fiber_reach m s"
| fr_step: "fiber_reach m s \<Longrightarrow> fiber_step m s s' \<Longrightarrow> fiber_reach m s'"

section \<open>The invariant\<close>

text \<open>A fiber's saved context agrees with its state. A fiber in state \<open>EXEC\<close> either runs, or
  waits inside a \<open>swapIn\<close> it called, or was suspended by \<open>YieldToHold\<close>, which leaves the state.\<close>

fun ctx_ok :: "faddr \<Rightarrow> flow \<Rightarrow> fiber_state \<Rightarrow> ucontext \<Rightarrow> bool" where
  "ctx_ok p run INIT c = (c = AtMainFunc \<and> run \<noteq> FiberFlow p)"
| "ctx_ok p run HOLD c = (c = AtSwap (FiberFlow p) \<and> run \<noteq> FiberFlow p)"
| "ctx_ok p run READY c = (c = AtSwap (FiberFlow p) \<and> run \<noteq> FiberFlow p)"
| "ctx_ok p run EXEC c = (run = FiberFlow p \<or> c = AtSwap (FiberFlow p))"
| "ctx_ok p run TERM' c = (c = AtNeverReach \<and> run \<noteq> FiberFlow p)"
| "ctx_ok p run EXCEPT c = (c = AtNeverReach \<and> run \<noteq> FiberFlow p)"

definition fibers_ok :: "faddr \<Rightarrow> 'c fstate \<Rightarrow> bool" where
  "fibers_ok m s \<longleftrightarrow> (\<forall>p. p \<noteq> m \<longrightarrow> m_stack (fiber_at s p) \<noteq> 0
     \<longrightarrow> ctx_ok p (running s) (m_state (fiber_at s p)) (m_ctx (fiber_at s p)))"

definition main_ok :: "faddr \<Rightarrow> 'c fstate \<Rightarrow> bool" where
  "main_ok m s \<longleftrightarrow> t_thread_fiber s = Some m \<and> m_stack (fiber_at s m) = 0
     \<and> m_state (fiber_at s m) = EXEC \<and> \<not> m_runInScheduler (fiber_at s m)
     \<and> (\<forall>r. t_scheduler_fiber s = Some r \<longrightarrow> r \<noteq> m
          \<longrightarrow> m_stack (fiber_at s r) \<noteq> 0 \<and> \<not> m_runInScheduler (fiber_at s r))"

text \<open>The chain of callers of the running code is saved in the contexts of their fibers.\<close>

definition chain_ok :: "faddr \<Rightarrow> 'c fstate \<Rightarrow> bool" where
  "chain_ok m s \<longleftrightarrow> running s \<noteq> FiberFlow m \<and>
     (\<forall>p. running s = FiberFlow p \<longrightarrow>
        m_stack (fiber_at s p) \<noteq> 0 \<and> m_state (fiber_at s p) = EXEC
        \<and> m_ctx (fiber_at s m) = AtSwap ThreadFlow
        \<and> (resumer m s p \<noteq> m \<longrightarrow> m_ctx (fiber_at s (resumer m s p)) = AtSwap (FiberFlow (resumer m s p))
             \<and> m_state (fiber_at s (resumer m s p)) = EXEC)
        \<and> (m_runInScheduler (fiber_at s p) \<longrightarrow> t_scheduler_fiber s \<noteq> None)
        \<and> (t_scheduler_fiber s \<noteq> Some p \<longrightarrow> t_fiber s = Some p))"

definition fiber_inv :: "faddr \<Rightarrow> 'c fstate \<Rightarrow> bool" where
  "fiber_inv m s \<longleftrightarrow> fibers_ok m s \<and> main_ok m s \<and> chain_ok m s"

section \<open>The switches under the invariant\<close>

lemma resumer_neq:
  assumes "main_ok m s" and "p \<noteq> m"
  shows "resumer m s p \<noteq> p"
  using assms by (auto simp: resumer_def main_ok_def split: option.splits)

lemma set_state_simps [simp]:
  "fiber_at (set_state p st s) = (fiber_at s)(p := (fiber_at s p)\<lparr>m_state := st\<rparr>)"
  "running (set_state p st s) = running s"
  "t_fiber (set_state p st s) = t_fiber s"
  "t_thread_fiber (set_state p st s) = t_thread_fiber s"
  "t_scheduler_fiber (set_state p st s) = t_scheduler_fiber s"
  by (simp_all add: set_state_def set_fiber_def)

text \<open>Which fiber the switch of \<open>p\<close> dereferences.\<close>

lemma deref_resumer:
  assumes "main_ok m s" and "m_runInScheduler (fiber_at s p) \<longrightarrow> t_scheduler_fiber s \<noteq> None"
  shows "deref (if m_runInScheduler (fiber_at s p) then t_scheduler_fiber s else t_thread_fiber s) k
    = k (resumer m s p)"
  using assms by (auto simp: deref_def resumer_def main_ok_def)

definition entered :: "faddr \<Rightarrow> faddr \<Rightarrow> 'c fstate \<Rightarrow> 'c fstate" where
  "entered m p s = s\<lparr>fiber_at := (fiber_at s)
       (p := (fiber_at s p)\<lparr>m_state := EXEC\<rparr>,
        resumer m s p := (fiber_at s (resumer m s p))\<lparr>m_ctx := AtSwap (running s)\<rparr>),
     t_fiber := Some p, running := FiberFlow p\<rparr>"

lemma swapIn_outcome:
  assumes inv: "fiber_inv m s" and p: "p \<noteq> m" "m_stack (fiber_at s p) \<noteq> 0"
    and sf: "m_runInScheduler (fiber_at s p) \<longrightarrow> t_scheduler_fiber s \<noteq> None"
    and run: "running s = flow_of m (resumer m s p)"
  shows "swapIn p 0 s =
    (if m_state (fiber_at s p) = EXEC then Inl (AssertFail ''m_state != EXEC'')
     else if m_state (fiber_at s p) = TERM' \<or> m_state (fiber_at s p) = EXCEPT
     then Inl (AssertFail ''never reach'')
     else Inr (entered m p s))"
proof -
  let ?r = "resumer m s p" and ?f = "fiber_at s p"
  have r: "?r \<noteq> p" using inv p resumer_neq [of m s p] by (simp add: fiber_inv_def)
  have main': "main_ok m (set_state p EXEC (SetThis (Some p) s))"
    using inv p by (auto simp: fiber_inv_def main_ok_def SetThis_def)
  let ?s1 = "set_state p EXEC (SetThis (Some p) s)"
  have res: "resumer m ?s1 p = ?r" by (simp add: resumer_def SetThis_def)
  have sf1: "m_runInScheduler (fiber_at ?s1 p) \<longrightarrow> t_scheduler_fiber ?s1 \<noteq> None"
    using sf by (simp add: SetThis_def)
  have sw: "swapIn p 0 s = rbind (SYLAR_ASSERT (m_state ?f \<noteq> EXEC) ''m_state != EXEC'')
      (\<lambda>_. swapcontext (AtSwap (running s)) 0 ?r p ?s1)"
    unfolding swapIn_def Let_def deref_resumer [OF main' sf1] res by (simp add: SetThis_def)
  have ok: "ctx_ok p (running s) (m_state ?f) (m_ctx ?f)"
    using inv p by (simp add: fiber_inv_def fibers_ok_def)
  show ?thesis
    using ok r unfolding sw
    by (cases "m_state ?f")
      (simp_all add: swapcontext_def activate_def set_fiber_def entered_def SetThis_def
        set_state_def)
qed

definition left :: "ucontext \<Rightarrow> faddr \<Rightarrow> faddr \<Rightarrow> 'c fstate \<Rightarrow> 'c fstate" where
  "left pos m p s = s\<lparr>fiber_at := (fiber_at s)(p := (fiber_at s p)\<lparr>m_ctx := pos\<rparr>),
     t_fiber := t_thread_fiber s, running := flow_of m (resumer m s p)\<rparr>"

lemma swapOut_outcome:
  assumes main: "main_ok m s" and p: "p \<noteq> m"
    and sf: "m_runInScheduler (fiber_at s p) \<longrightarrow> t_scheduler_fiber s \<noteq> None"
    and ctx: "m_ctx (fiber_at s (resumer m s p)) = AtSwap (flow_of m (resumer m s p))"
  shows "swapOut_at pos p 0 s = Inr (left pos m p s)"
proof -
  have main': "main_ok m (SetThis (t_thread_fiber s) s)"
    using main by (simp add: main_ok_def SetThis_def)
  have res: "resumer m (SetThis (t_thread_fiber s) s) p = resumer m s p"
    by (simp add: resumer_def SetThis_def)
  have sf': "m_runInScheduler (fiber_at (SetThis (t_thread_fiber s) s) p)
      \<longrightarrow> t_scheduler_fiber (SetThis (t_thread_fiber s) s) \<noteq> None"
    using sf by (simp add: SetThis_def)
  show ?thesis
    unfolding swapOut_at_def Let_def deref_resumer [OF main' sf'] res
    using resumer_neq [OF main p] ctx
    by (simp add: swapcontext_def activate_def set_fiber_def SetThis_def left_def)
qed

lemma running_resumer_ctx:
  assumes inv: "fiber_inv m s" and run: "running s = FiberFlow p"
  shows "p \<noteq> m" and "m_ctx (fiber_at s (resumer m s p)) = AtSwap (flow_of m (resumer m s p))"
    and "m_runInScheduler (fiber_at s p) \<longrightarrow> t_scheduler_fiber s \<noteq> None"
    and "m_state (fiber_at s p) = EXEC" and "m_stack (fiber_at s p) \<noteq> 0"
    and "t_scheduler_fiber s \<noteq> Some p \<Longrightarrow> t_fiber s = Some p"
  using inv run by (auto simp: fiber_inv_def chain_ok_def flow_of_def)

text \<open>A yield of the running code: back to the code that entered it, in state \<open>st\<close>.\<close>

lemma YieldToHold_outcome:
  assumes inv: "fiber_inv m s" and run: "running s = FiberFlow p" and sf: "t_scheduler_fiber s \<noteq> Some p"
  shows "YieldToHold d 0 0 s = Inr (left (AtSwap (FiberFlow p)) m p s)"
  using running_resumer_ctx [OF inv run] run sf inv
    swapOut_outcome [of m s p "AtSwap (FiberFlow p)"]
  by (simp add: YieldToHold_def GetThis_def swapOut_def fiber_inv_def)

lemma YieldToReady_outcome:
  assumes inv: "fiber_inv m s" and run: "running s = FiberFlow p" and sf: "t_scheduler_fiber s \<noteq> Some p"
  shows "YieldToReady d 0 0 s = Inr (left (AtSwap (FiberFlow p)) m p (set_state p READY s))"
proof -
  note f = running_resumer_ctx [OF inv run]
  let ?s = "set_state p READY s"
  have res: "resumer m ?s p = resumer m s p" by (simp add: resumer_def)
  have main: "main_ok m ?s" using inv f(1) by (auto simp: fiber_inv_def main_ok_def)
  have "swapOut_at (AtSwap (FiberFlow p)) p 0 ?s = Inr (left (AtSwap (FiberFlow p)) m p ?s)"
    by (rule swapOut_outcome [OF main f(1)])
      (use f res resumer_neq [OF main f(1)] in auto)
  then show ?thesis using f run sf by (simp add: YieldToReady_def GetThis_def swapOut_def)
qed

definition finished_fiber :: "string option \<Rightarrow> 'c fiber \<Rightarrow> 'c fiber" where
  "finished_fiber thrown f = (case thrown of None \<Rightarrow> f\<lparr>m_fcb := None, m_state := TERM'\<rparr>
     | Some e \<Rightarrow> f\<lparr>m_state := EXCEPT\<rparr>)"

lemma MainFunc_finish_outcome:
  assumes inv: "fiber_inv m s" and run: "running s = FiberFlow p"
  shows "MainFunc_finish thrown p 0 s
    = Inr (left AtNeverReach m p (set_fiber p (finished_fiber thrown (fiber_at s p)) s))"
proof -
  note f = running_resumer_ctx [OF inv run]
  let ?s = "set_fiber p (finished_fiber thrown (fiber_at s p)) s"
  have fin: "m_runInScheduler (finished_fiber thrown (fiber_at s p)) = m_runInScheduler (fiber_at s p)"
    "m_stack (finished_fiber thrown (fiber_at s p)) = m_stack (fiber_at s p)"
    by (simp_all add: finished_fiber_def split: option.splits)
  have res: "resumer m ?s p = resumer m s p" by (simp add: resumer_def set_fiber_def fin)
  have main: "main_ok m ?s" using inv f(1) fin by (auto simp: fiber_inv_def main_ok_def set_fiber_def)
  have "swapOut_at AtNeverReach p 0 ?s = Inr (left AtNeverReach m p ?s)"
    by (rule swapOut_outcome [OF main f(1)])
      (use f res resumer_neq [OF main f(1)] fin in \<open>auto simp: set_fiber_def\<close>)
  then show ?thesis
    by (simp add: MainFunc_finish_def Let_def finished_fiber_def set_state_def split: option.splits)
qed

section \<open>Every step keeps the invariant\<close>

lemma set_fiber_simps [simp]:
  "fiber_at (set_fiber p f s) = (fiber_at s)(p := f)"
  "running (set_fiber p f s) = running s"
  "t_fiber (set_fiber p f s) = t_fiber s"
  "t_thread_fiber (set_fiber p f s) = t_thread_fiber s"
  "t_scheduler_fiber (set_fiber p f s) = t_scheduler_fiber s"
  by (simp_all add: set_fiber_def)

lemma entered_simps [simp]:
  "running (entered m p s) = FiberFlow p"
  "t_fiber (entered m p s) = Some p"
  "t_thread_fiber (entered m p s) = t_thread_fiber s"
  "t_scheduler_fiber (entered m p s) = t_scheduler_fiber s"
  "m_stack (fiber_at (entered m p s) q) = m_stack (fiber_at s q)"
  "m_runInScheduler (fiber_at (entered m p s) q) = m_runInScheduler (fiber_at s q)"
  by (simp_all add: entered_def)

lemma left_simps [simp]:
  "running (left pos m p s) = flow_of m (resumer m s p)"
  "t_fiber (left pos m p s) = t_thread_fiber s"
  "t_thread_fiber (left pos m p s) = t_thread_fiber s"
  "t_scheduler_fiber (left pos m p s) = t_scheduler_fiber s"
  "m_stack (fiber_at (left pos m p s) q) = m_stack (fiber_at s q)"
  "m_runInScheduler (fiber_at (left pos m p s) q) = m_runInScheduler (fiber_at s q)"
  "m_state (fiber_at (left pos m p s) q) = m_state (fiber_at s q)"
  "m_ctx (fiber_at (left pos m p s) q) = (if q = p then pos else m_ctx (fiber_at s q))"
  by (simp_all add: left_def)

lemma resumer_entered [simp]: "resumer m (entered m p s) q = resumer m s q"
  by (simp add: resumer_def)

lemma resumer_left [simp]: "resumer m (left pos m p s) q = resumer m s q"
  by (simp add: resumer_def)

lemma flow_eq_FiberFlow [simp]: "flow_of m q = FiberFlow p \<longleftrightarrow> q = p \<and> p \<noteq> m"
  by (auto simp: flow_of_def)

text \<open>Entering a fiber: only its own entry and its resumer's context change.\<close>

lemma inv_entered:
  assumes inv: "fiber_inv m s" and p: "p \<noteq> m" "m_stack (fiber_at s p) \<noteq> 0"
    and sf: "m_runInScheduler (fiber_at s p) \<longrightarrow> t_scheduler_fiber s \<noteq> None"
    and run: "running s = flow_of m (resumer m s p)"
  shows "fiber_inv m (entered m p s)"
proof -
  let ?r = "resumer m s p"
  have main: "main_ok m s" using inv by (simp add: fiber_inv_def)
  have r: "?r \<noteq> p" using resumer_neq [OF main p(1)] .
  have st: "m_state (fiber_at (entered m p s) q)
      = (if q = p then EXEC else m_state (fiber_at s q))" for q
    using r by (simp add: entered_def)
  have cx: "m_ctx (fiber_at (entered m p s) q)
      = (if q = ?r then AtSwap (running s) else m_ctx (fiber_at s q))" for q
    using r by (simp add: entered_def)
  have rr: "?r \<noteq> m \<Longrightarrow> running s = FiberFlow ?r" using run by (simp add: flow_of_def)
  have rs: "m_state (fiber_at s ?r) = EXEC"
    using inv rr by (cases "?r = m") (auto simp: fiber_inv_def main_ok_def chain_ok_def)
  have "ctx_ok q (FiberFlow p) (m_state (fiber_at (entered m p s) q)) (m_ctx (fiber_at (entered m p s) q))"
    if q: "q \<noteq> m" "m_stack (fiber_at s q) \<noteq> 0" for q
  proof -
    have "ctx_ok q (running s) (m_state (fiber_at s q)) (m_ctx (fiber_at s q))"
      using inv q by (simp add: fiber_inv_def fibers_ok_def)
    then show ?thesis
      using q rr rs r run by (cases "m_state (fiber_at s q)") (auto simp: st cx)
  qed
  then have "fibers_ok m (entered m p s)" by (simp add: fibers_ok_def)
  moreover have "main_ok m (entered m p s)" using main p(1) by (auto simp: main_ok_def st)
  moreover have "chain_ok m (entered m p s)"
  proof -
    have "m_ctx (fiber_at (entered m p s) m) = AtSwap ThreadFlow"
      using inv rr run by (cases "?r = m") (auto simp: cx flow_of_def fiber_inv_def chain_ok_def)
    then show ?thesis using p sf rr rs r by (auto simp: chain_ok_def cx st)
  qed
  ultimately show ?thesis by (simp add: fiber_inv_def)
qed

text \<open>Leaving the running fiber, with a state and a saved point that fit together.\<close>

lemma inv_left:
  assumes inv: "fiber_inv m s" and run: "running s = FiberFlow p"
    and f: "m_stack f = m_stack (fiber_at s p)" "m_runInScheduler f = m_runInScheduler (fiber_at s p)"
    and ok: "ctx_ok p ThreadFlow (m_state f) pos"
  shows "fiber_inv m (left pos m p (set_fiber p f s))"
proof -
  let ?s = "set_fiber p f s" and ?r = "resumer m s p"
  note rc = running_resumer_ctx [OF inv run]
  have res: "resumer m ?s q = resumer m s q" for q using f by (simp add: resumer_def)
  have main: "main_ok m s" using inv by (simp add: fiber_inv_def)
  have r: "?r \<noteq> p" using resumer_neq [OF main rc(1)] .
  have rok: "?r \<noteq> m \<Longrightarrow> m_stack (fiber_at s ?r) \<noteq> 0 \<and> m_state (fiber_at s ?r) = EXEC
      \<and> \<not> m_runInScheduler (fiber_at s ?r) \<and> t_scheduler_fiber s = Some ?r"
    using inv run by (cases "m_runInScheduler (fiber_at s p)")
      (auto simp: fiber_inv_def main_ok_def chain_ok_def resumer_def split: option.splits)
  have ok': "ctx_ok q (flow_of m ?r) (m_state (fiber_at (left pos m p ?s) q))
      (m_ctx (fiber_at (left pos m p ?s) q))" if q: "q \<noteq> m" "m_stack (fiber_at s q) \<noteq> 0" for q
  proof (cases "q = p")
    case True
    then show ?thesis using ok r
      by (cases "m_state f") auto
  next
    case False
    have "ctx_ok q (running s) (m_state (fiber_at s q)) (m_ctx (fiber_at s q))"
      using inv q by (simp add: fiber_inv_def fibers_ok_def)
    then show ?thesis using False rok run q
      by (cases "m_state (fiber_at s q)") auto
  qed
  have "fibers_ok m (left pos m p ?s)"
    unfolding fibers_ok_def left_simps(1) res
    using ok' f(1) by (metis fun_upd_apply left_simps(5) set_fiber_simps(1))
  moreover have "main_ok m (left pos m p ?s)"
    using main rc(1) f by (auto simp: main_ok_def)
  moreover have "chain_ok m (left pos m p ?s)"
  proof -
    have "m_ctx (fiber_at s m) = AtSwap ThreadFlow" using inv run by (auto simp: fiber_inv_def chain_ok_def)
    moreover have "?r \<noteq> m \<Longrightarrow> resumer m s ?r = m" using rok by (simp add: resumer_def)
    ultimately show ?thesis using rok rc(1) r by (auto simp: chain_ok_def res)
  qed
  ultimately show ?thesis by (simp add: fiber_inv_def)
qed

text \<open>Rewriting a fiber that is neither running nor waiting in a \<open>swapIn\<close> it called.\<close>

lemma inv_set_fiber:
  assumes inv: "fiber_inv m s" and p: "p \<noteq> m" and run: "running s \<noteq> FiberFlow p"
    and w: "m_state (fiber_at s p) \<noteq> EXEC \<or> t_scheduler_fiber s \<noteq> Some p"
    and ok: "m_stack f \<noteq> 0 \<Longrightarrow> ctx_ok p (running s) (m_state f) (m_ctx f)"
    and sf: "t_scheduler_fiber s = Some p \<Longrightarrow> m_stack f \<noteq> 0 \<and> \<not> m_runInScheduler f"
  shows "fiber_inv m (set_fiber p f s)"
proof -
  have res: "q \<noteq> p \<Longrightarrow> resumer m (set_fiber p f s) q = resumer m s q" for q
    by (simp add: resumer_def set_fiber_def)
  have nr: "running s = FiberFlow q \<Longrightarrow> resumer m s q \<noteq> p" for q
    using inv w p by (auto simp: fiber_inv_def chain_ok_def main_ok_def resumer_def split: option.splits if_splits)
  have "fibers_ok m (set_fiber p f s)"
    using inv ok by (auto simp: fiber_inv_def fibers_ok_def set_fiber_def)
  moreover have "main_ok m (set_fiber p f s)"
    using inv p sf by (auto simp: fiber_inv_def main_ok_def set_fiber_def)
  moreover have "chain_ok m (set_fiber p f s)"
    using inv run nr p res by (auto simp: fiber_inv_def chain_ok_def set_fiber_def)
  ultimately show ?thesis by (simp add: fiber_inv_def)
qed

text \<open>The counters and the thread-local pointer of the idle thread play no part in it.\<close>

lemma inv_counters:
  "fiber_inv m (s\<lparr>s_fiber_id := i\<rparr>) = fiber_inv m s"
  "fiber_inv m (s\<lparr>s_fiber_count := c\<rparr>) = fiber_inv m s"
  by (simp_all add: fiber_inv_def fibers_ok_def main_ok_def chain_ok_def resumer_def)

lemma inv_set_state:
  assumes "fiber_inv m s" and "p \<noteq> m" and "running s \<noteq> FiberFlow p"
    and "t_scheduler_fiber s \<noteq> Some p"
    and "m_stack (fiber_at s p) \<noteq> 0 \<Longrightarrow> ctx_ok p (running s) st (m_ctx (fiber_at s p))"
  shows "fiber_inv m (set_state p st s)"
  unfolding set_state_def by (rule inv_set_fiber) (use assms in auto)

lemma inv_fiber_step: "fiber_step m s s' \<Longrightarrow> fiber_inv m s \<Longrightarrow> fiber_inv m s'"
proof (induction rule: fiber_step.induct)
  case (fs_new p s stk cb sz ris cfg s')
  then have "s' = (set_fiber p \<lparr>m_id = s_fiber_id s + 1,
      m_stacksize = (if sz \<noteq> 0 then ucast sz else cfg), m_state = INIT, m_ctx = AtMainFunc,
      m_stack = stk, m_fcb = cb, m_runInScheduler = ris\<rparr> s)
      \<lparr>s_fiber_id := s_fiber_id s + 1, s_fiber_count := s_fiber_count s + 1\<rparr>"
    by (simp add: Fiber_new_def Let_def)
  then show ?case using fs_new by (auto simp: inv_counters intro!: inv_set_fiber)
next
  case (fs_designate s r)
  then show ?case
    by (auto simp: fiber_inv_def fibers_ok_def main_ok_def chain_ok_def)
next
  case (fs_in p s s')
  then have "s' = entered m p s"
    using swapIn_outcome [of m s p] by (auto split: if_splits)
  then show ?case using fs_in inv_entered [of m s p] by simp
next
  case (fs_ready s p d s')
  then have "s' = left (AtSwap (FiberFlow p)) m p (set_state p READY s)"
    using YieldToReady_outcome [of m s p d] by simp
  then show ?case using fs_ready unfolding set_state_def by (simp add: inv_left)
next
  case (fs_hold s p d s')
  then have "s' = left (AtSwap (FiberFlow p)) m p (set_fiber p (fiber_at s p) s)"
    using YieldToHold_outcome [of m s p d] by (simp add: set_fiber_def)
  then show ?case
    using fs_hold running_resumer_ctx(4) [of m s p] by (simp add: inv_left)
next
  case (fs_finish s p thrown s')
  then have "s' = left AtNeverReach m p (set_fiber p (finished_fiber thrown (fiber_at s p)) s)"
    using MainFunc_finish_outcome [of m s p thrown] by simp
  then show ?case
    using fs_finish by (cases thrown) (simp_all add: inv_left finished_fiber_def)
next
  case (fs_set_hold p s)
  then have "ctx_ok p (running s) EXEC (m_ctx (fiber_at s p))"
    by (metis fiber_inv_def fibers_ok_def)
  then show ?case using fs_set_hold by (auto intro: inv_set_state)
next
  case (fs_reset s p cb s')
  let ?f = "(fiber_at s p)\<lparr>m_fcb := cb, m_ctx := AtMainFunc, m_state := INIT\<rparr>"
  have s': "s' = set_fiber p ?f s" and st: "m_stack (fiber_at s p) \<noteq> 0"
    "m_state (fiber_at s p) \<noteq> EXEC"
    using fs_reset(2) by (auto simp: Fiber_reset_def Let_def result_simps)
  have pm: "p \<noteq> m" using fs_reset(3) st by (auto simp: fiber_inv_def main_ok_def)
  show ?case unfolding s'
    by (rule inv_set_fiber [OF fs_reset(3) pm fs_reset(1)])
      (use st fs_reset(3,1) pm in \<open>auto simp: fiber_inv_def main_ok_def\<close>)
next
  case (fs_delete p s s')
  then have "s' = (set_fiber p no_fiber s)\<lparr>s_fiber_count := s_fiber_count s - 1\<rparr>"
    by (auto simp: Fiber_delete_def Let_def result_simps)
  then show ?case using fs_delete
    by (simp add: inv_counters) (rule inv_set_fiber; simp add: no_fiber_def)
qed

lemma fiber_reach_inv: "fiber_reach m s \<Longrightarrow> fiber_inv m s"
proof (induction rule: fiber_reach.induct)
  case (fr_start s)
  then show ?case
    by (auto simp: GetThis_def fiber_init_def Fiber_main_def SetThis_def set_fiber_def no_fiber_def
        fiber_inv_def fibers_ok_def main_ok_def chain_ok_def)
next
  case (fr_step s s')
  then show ?case using inv_fiber_step by blast
qed

section \<open>How many fibers there are\<close>

definition live_fibers :: "faddr \<Rightarrow> 'c fstate \<Rightarrow> faddr set" where
  "live_fibers m s = insert m {p. m_stack (fiber_at s p) \<noteq> 0}"

definition count_ok :: "faddr \<Rightarrow> 'c fstate \<Rightarrow> bool" where
  "count_ok m s \<longleftrightarrow> finite (live_fibers m s)
     \<and> s_fiber_count s = of_nat (card (live_fibers m s))"

lemma live_set_fiber [simp]:
  "live_fibers m (set_fiber p f s) = (if p = m \<or> m_stack f \<noteq> 0 then insert p (live_fibers m s)
     else live_fibers m s - {p})"
  by (auto simp: live_fibers_def split: if_splits)

lemma same_stacks_live:
  assumes "\<And>q. m_stack (fiber_at s' q) = m_stack (fiber_at s q)" and "s_fiber_count s' = s_fiber_count s"
  shows "count_ok m s' = count_ok m s"
  using assms by (simp add: count_ok_def live_fibers_def)

lemma count_step: "fiber_step m s s' \<Longrightarrow> fiber_inv m s \<Longrightarrow> count_ok m s \<Longrightarrow> count_ok m s'"
proof (induction rule: fiber_step.induct)
  case (fs_new p s stk cb sz ris cfg s')
  have live: "live_fibers m s' = insert p (live_fibers m s)" and n: "s_fiber_count s' = s_fiber_count s + 1"
    using fs_new by (auto simp: Fiber_new_def Let_def live_fibers_def)
  have "p \<notin> live_fibers m s" using fs_new by (simp add: live_fibers_def)
  then show ?case using fs_new unfolding count_ok_def live n by simp
next
  case (fs_designate s r)
  then show ?case by (simp add: count_ok_def live_fibers_def)
next
  case (fs_in p s s')
  then have "s' = entered m p s"
    using swapIn_outcome [of m s p] by (auto split: if_splits)
  then show ?case using fs_in same_stacks_live [of s' s m] by (simp add: entered_def)
next
  case (fs_ready s p d s')
  then have "s' = left (AtSwap (FiberFlow p)) m p (set_state p READY s)"
    using YieldToReady_outcome [of m s p d] by simp
  then show ?case using fs_ready same_stacks_live [of s' s m]
    by (simp add: left_def set_state_def set_fiber_def)
next
  case (fs_hold s p d s')
  then have "s' = left (AtSwap (FiberFlow p)) m p s"
    using YieldToHold_outcome [of m s p d] by simp
  then show ?case using fs_hold same_stacks_live [of s' s m] by (simp add: left_def)
next
  case (fs_finish s p thrown s')
  then have "s' = left AtNeverReach m p (set_fiber p (finished_fiber thrown (fiber_at s p)) s)"
    using MainFunc_finish_outcome [of m s p thrown] by simp
  then show ?case using fs_finish same_stacks_live [of s' s m]
    by (auto simp: left_def finished_fiber_def set_fiber_def split: option.splits)
next
  case (fs_set_hold p s)
  then show ?case
    using same_stacks_live [of "set_state p HOLD s" s m] by (simp add: set_state_def set_fiber_def)
next
  case (fs_reset s p cb s')
  then show ?case
    using same_stacks_live [of s' s m]
    by (auto simp: Fiber_reset_def Let_def result_simps set_fiber_def)
next
  case (fs_delete p s s')
  then have s': "s' = (set_fiber p no_fiber s)\<lparr>s_fiber_count := s_fiber_count s - 1\<rparr>"
    by (auto simp: Fiber_delete_def Let_def result_simps)
  have live: "live_fibers m s' = live_fibers m s - {p}"
    using fs_delete s' by (auto simp: live_fibers_def no_fiber_def)
  have "p \<in> live_fibers m s" using fs_delete by (simp add: live_fibers_def)
  moreover have "0 < card (live_fibers m s)"
    using fs_delete by (auto simp: count_ok_def card_gt_0_iff live_fibers_def)
  ultimately show ?case
    using fs_delete unfolding count_ok_def live
    by (simp add: s' card_Diff_singleton of_nat_diff)
qed

lemma fiber_reach_count: "fiber_reach m s \<Longrightarrow> count_ok m s"
proof (induction rule: fiber_reach.induct)
  case (fr_start s)
  then have "live_fibers m s = {m}" and "s_fiber_count s = 1"
    by (auto simp: GetThis_def fiber_init_def Fiber_main_def SetThis_def set_fiber_def no_fiber_def
        live_fibers_def split: if_splits)
  then show ?case by (simp add: count_ok_def)
next
  case (fr_step s s')
  then show ?case using count_step fiber_reach_inv by blast
qed

section \<open>A thread at work\<close>

text \<open>The thread of the witnesses: its main fiber is at 10, it made a fiber at 11, entered it,
  and that fiber yielded with \<open>YieldToReady\<close>.\<close>

definition demo_start :: "nat fstate" where
  "demo_start = (SetThis (Some 10) (set_fiber 10
     \<lparr>m_id = 0, m_stacksize = 0, m_state = EXEC, m_ctx = AtGetcontext, m_stack = 0,
      m_fcb = None, m_runInScheduler = False\<rparr> fiber_init))\<lparr>s_fiber_count := 1, t_thread_fiber := Some 10\<rparr>"

definition demo_new :: "nat fstate" where
  "demo_new = (set_fiber 11 \<lparr>m_id = 1, m_stacksize = 1048576, m_state = INIT, m_ctx = AtMainFunc,
     m_stack = 5000, m_fcb = Some 7, m_runInScheduler = False\<rparr> demo_start)
     \<lparr>s_fiber_id := 1, s_fiber_count := 2\<rparr>"

definition demo_in :: "nat fstate" where
  "demo_in = entered 10 11 demo_new"

definition demo_ready :: "nat fstate" where
  "demo_ready = left (AtSwap (FiberFlow 11)) 10 11 (set_state 11 READY demo_in)"

lemmas demo_defs = demo_start_def demo_new_def demo_in_def demo_ready_def fiber_init_def
  SetThis_def set_fiber_def set_state_def no_fiber_def entered_def left_def flow_of_def resumer_def

lemma demo_start_reach: "fiber_reach 10 demo_start"
  by (rule fr_start) (simp add: GetThis_def Fiber_main_def demo_defs)

lemma demo_new_reach: "fiber_reach 10 demo_new"
  by (rule fr_step [OF demo_start_reach],
      rule fs_new [where p = 11 and stk = 5000 and cb = "Some 7" and sz = 0 and ris = False
        and cfg = 1048576])
    (simp_all add: Fiber_new_def demo_defs)

lemma demo_in_reach: "fiber_reach 10 demo_in"
  by (rule fr_step [OF demo_new_reach], rule fs_in [where p = 11])
    (simp_all add: swapIn_def swapcontext_def activate_def deref_def demo_defs fun_upd_twist)

lemma demo_ready_reach: "fiber_reach 10 demo_ready"
  by (rule fr_step [OF demo_in_reach], rule fs_ready [where p = 11])
    (simp_all add: YieldToReady_def GetThis_def swapOut_def swapOut_at_def swapcontext_def
      activate_def deref_def demo_defs fun_upd_twist)

section \<open>Properties\<close>

text \<open>C35: in every state a thread can reach with its fibers, \<open>swapIn\<close> does exactly what the
  state of the fiber says: it asserts on a fiber in state \<open>EXEC\<close>, a finished fiber runs into
  the "never reach" assertion, and an \<open>INIT\<close>, \<open>HOLD\<close> or \<open>READY\<close> fiber continues on its own
  stack, in state \<open>EXEC\<close> and as the current fiber, with the caller saved for the way back.\<close>

theorem fiber_swapIn_exact:
  assumes reach: "fiber_reach m s" and p: "p \<noteq> m" "m_stack (fiber_at s p) \<noteq> 0"
    and sf: "m_runInScheduler (fiber_at s p) \<longrightarrow> t_scheduler_fiber s \<noteq> None"
    and run: "running s = flow_of m (resumer m s p)"
  shows "case swapIn p 0 s of
      Inl e \<Rightarrow> (m_state (fiber_at s p) = EXEC \<and> e = AssertFail ''m_state != EXEC'')
        \<or> (m_state (fiber_at s p) \<in> {TERM', EXCEPT} \<and> e = AssertFail ''never reach'')
    | Inr s' \<Rightarrow> m_state (fiber_at s p) \<in> {INIT, HOLD, READY}
        \<and> running s' = FiberFlow p \<and> t_fiber s' = Some p
        \<and> m_state (fiber_at s' p) = EXEC
        \<and> m_ctx (fiber_at s' (resumer m s p)) = AtSwap (flow_of m (resumer m s p))
        \<and> (\<forall>q. q = p \<or> q = resumer m s p \<or> fiber_at s' q = fiber_at s q)"
  using swapIn_outcome [OF fiber_reach_inv [OF reach] p sf run] run
    resumer_neq [of m s p] fiber_reach_inv [OF reach] p
  by (cases "m_state (fiber_at s p)") (auto simp: entered_def fiber_inv_def)

theorem fiber_swapIn_exact_witness:
  "case swapIn 11 0 demo_ready of Inl e \<Rightarrow> False | Inr s' \<Rightarrow> running s' = FiberFlow 11"
proof -
  have st: "m_state (fiber_at demo_ready 11) = READY" by (simp add: demo_defs)
  show ?thesis
    using fiber_swapIn_exact [OF demo_ready_reach, of 11] st by (simp add: demo_defs split: sum.splits)
qed



text \<open>Entering a fiber and yielding it with \<open>YieldToReady\<close> is a round trip: the caller runs
  again, no other fiber's data changed apart from the caller's saved context, the fiber keeps
  its id, stack and callback, and it can be entered again.\<close>

theorem fiber_round_trip:
  assumes reach: "fiber_reach m s" and p: "p \<noteq> m" "m_stack (fiber_at s p) \<noteq> 0"
    and sf: "m_runInScheduler (fiber_at s p) \<longrightarrow> t_scheduler_fiber s \<noteq> None"
    and np: "t_scheduler_fiber s \<noteq> Some p"
    and run: "running s = flow_of m (resumer m s p)"
    and st: "m_state (fiber_at s p) \<in> {INIT, HOLD, READY}"
  shows "\<exists>s1 s2 s3. swapIn p 0 s = Inr s1 \<and> YieldToReady d 0 0 s1 = Inr s2
    \<and> running s2 = running s \<and> t_fiber s2 = t_thread_fiber s
    \<and> (\<forall>q. q = p \<or> q = resumer m s p \<or> fiber_at s2 q = fiber_at s q)
    \<and> fiber_at s2 p = (fiber_at s p)\<lparr>m_state := READY, m_ctx := AtSwap (FiberFlow p)\<rparr>
    \<and> swapIn p 0 s2 = Inr s3 \<and> running s3 = FiberFlow p"
proof -
  note inv = fiber_reach_inv [OF reach]
  have r: "resumer m s p \<noteq> p" using inv p by (intro resumer_neq) (simp_all add: fiber_inv_def)
  let ?s1 = "entered m p s"
  let ?s2 = "left (AtSwap (FiberFlow p)) m p (set_state p READY ?s1)"
  have s1: "swapIn p 0 s = Inr ?s1"
    using swapIn_outcome [OF inv p sf run] st by auto
  have reach1: "fiber_reach m ?s1" by (rule fr_step [OF reach fs_in [OF p run sf s1]])
  have s2: "YieldToReady d 0 0 ?s1 = Inr ?s2"
    using YieldToReady_outcome [OF fiber_reach_inv [OF reach1]] np by simp
  have reach2: "fiber_reach m ?s2"
    by (rule fr_step [OF reach1 fs_ready [where p = p]]) (use np s2 in auto)
  have res: "resumer m ?s2 p = resumer m s p" by (simp add: resumer_def)
  have p2: "m_stack (fiber_at ?s2 p) \<noteq> 0" using p(2) by simp
  have s3: "swapIn p 0 ?s2 = Inr (entered m p ?s2)"
    by (subst swapIn_outcome [OF fiber_reach_inv [OF reach2] p(1) p2])
      (use sf res in \<open>simp_all add: resumer_def\<close>)
  have "running ?s2 = running s" using run by (simp add: resumer_def)
  moreover have "fiber_at ?s2 p = (fiber_at s p)\<lparr>m_state := READY, m_ctx := AtSwap (FiberFlow p)\<rparr>"
    using r by (simp add: left_def entered_def)
  moreover have "\<forall>q. q = p \<or> q = resumer m s p \<or> fiber_at ?s2 q = fiber_at s q"
    by (simp add: left_def entered_def)
  ultimately show ?thesis using s1 s2 s3 by (intro exI [of _ ?s1] exI [of _ ?s2] exI) auto
qed

theorem fiber_round_trip_witness:
  "\<exists>s1 s2. swapIn 11 0 demo_new = Inr s1 \<and> YieldToReady 99 0 0 s1 = Inr s2
    \<and> running s2 = ThreadFlow"
proof -
  have "running demo_new = ThreadFlow" "m_stack (fiber_at demo_new 11) = 5000"
    "m_state (fiber_at demo_new 11) = INIT" "\<not> m_runInScheduler (fiber_at demo_new 11)"
    "t_scheduler_fiber demo_new = None" "flow_of 10 (resumer 10 demo_new 11) = ThreadFlow"
    by (simp_all add: demo_defs)
  then show ?thesis using fiber_round_trip [OF demo_new_reach, of 11 99] by auto
qed

text \<open>\<open>YieldToHold\<close> leaves the fiber in state \<open>EXEC\<close>, so the next \<open>swapIn\<close> of it asserts;
  only a caller that stores \<open>HOLD\<close> first, as the scheduler does for callback tasks, can
  continue it. The header promises that \<open>YieldToHold\<close> sets the state to Hold.\<close>

theorem fiber_hold_needs_state:
  assumes reach: "fiber_reach m s" and run: "running s = FiberFlow p"
    and sf: "t_scheduler_fiber s \<noteq> Some p"
  shows "\<exists>s1 s2. YieldToHold d 0 0 s = Inr s1
    \<and> swapIn p 0 s1 = Inl (AssertFail ''m_state != EXEC'')
    \<and> swapIn p 0 (set_state p HOLD s1) = Inr s2 \<and> running s2 = FiberFlow p"
proof -
  note inv = fiber_reach_inv [OF reach]
  note rc = running_resumer_ctx [OF inv run]
  let ?s1 = "left (AtSwap (FiberFlow p)) m p s"
  let ?s2 = "set_state p HOLD ?s1"
  have s1: "YieldToHold d 0 0 s = Inr ?s1" by (rule YieldToHold_outcome [OF inv run sf])
  have reach1: "fiber_reach m ?s1" by (rule fr_step [OF reach fs_hold [OF run sf s1]])
  have nr: "running ?s1 \<noteq> FiberFlow p"
    using resumer_neq [of m s p] inv rc(1) by (simp add: fiber_inv_def)
  have reach2: "fiber_reach m ?s2"
    by (rule fr_step [OF reach1 fs_set_hold [OF rc(1) nr]]) (use rc sf in auto)
  have a: "swapIn p 0 ?s1 = Inl (AssertFail ''m_state != EXEC'')"
    using rc(4) by (simp add: swapIn_def SetThis_def)
  have p2: "m_stack (fiber_at ?s2 p) \<noteq> 0" using rc(5) by simp
  have b: "swapIn p 0 ?s2 = Inr (entered m p ?s2)"
    by (subst swapIn_outcome [OF fiber_reach_inv [OF reach2] rc(1) p2])
      (use rc in \<open>simp_all add: resumer_def\<close>)
  show ?thesis using s1 a b by (intro exI [of _ ?s1] exI) auto
qed

theorem fiber_hold_needs_state_witness:
  "\<exists>s1. YieldToHold 99 0 0 demo_in = Inr s1 \<and> swapIn 11 0 s1 = Inl (AssertFail ''m_state != EXEC'')"
proof -
  have "running demo_in = FiberFlow 11" and "t_scheduler_fiber demo_in \<noteq> Some 11"
    by (simp_all add: demo_defs)
  then show ?thesis using fiber_hold_needs_state [OF demo_in_reach] by blast
qed

text \<open>\<open>TotalFibers\<close> is the number of fibers that exist, the thread's main fiber included,
  through every creation, reset, switch and destruction (modulo 2^64).\<close>

theorem fiber_count_exact:
  assumes "fiber_reach m s"
  shows "finite {p. p = m \<or> m_stack (fiber_at s p) \<noteq> 0}
    \<and> TotalFibers s = of_nat (card {p. p = m \<or> m_stack (fiber_at s p) \<noteq> 0})"
proof -
  have "live_fibers m s = {p. p = m \<or> m_stack (fiber_at s p) \<noteq> 0}" by (auto simp: live_fibers_def)
  then show ?thesis
    using fiber_reach_count [OF assms] unfolding count_ok_def TotalFibers_def by metis
qed

theorem fiber_count_exact_witness:
  "TotalFibers demo_ready = of_nat (card {p. p = 10 \<or> m_stack (fiber_at demo_ready p) \<noteq> 0})"
  using fiber_count_exact [OF demo_ready_reach] by blast

end
