(* ===== verification/Schedulers.thy ===== *)
theory Schedulers
  imports Fibers "HOL-Library.Multiset"
begin

text \<open>
  sylar/scheduler.h and sylar/scheduler.cpp: the task queue, the scheduling loop \<open>run\<close> of one
  thread, and starting and stopping. The loop is cut where control leaves it: \<open>run_top\<close> goes
  from the head of the loop into the task's \<open>swapIn\<close>, \<open>run_resume\<close> is the task giving control
  back and the rest of the loop body. In between the task's own code runs, which may schedule.
  The locale \<open>task_sink\<close> is the contract of \<open>schedule\<close> that the IO manager and the hooks use.
\<close>

section \<open>Data\<close>

record 'c task =
  ft_fiber :: "faddr option"
  ft_cb :: "'c option"
  ft_thread :: int

text \<open>The constructors of \<open>FiberAndThread\<close>: from a fiber pointer (\<open>None\<close> is null) and from a
  function (\<open>None\<close> is empty).\<close>

definition fiber_task :: "faddr option \<Rightarrow> int \<Rightarrow> 'c task" where
  "fiber_task f thr = \<lparr>ft_fiber = f, ft_cb = None, ft_thread = thr\<rparr>"

definition cb_task :: "'c option \<Rightarrow> int \<Rightarrow> 'c task" where
  "cb_task f thr = \<lparr>ft_fiber = None, ft_cb = f, ft_thread = thr\<rparr>"

text \<open>\<open>if (ft.fiber || ft.cb)\<close>.\<close>

definition is_task :: "'c task \<Rightarrow> bool" where
  "is_task t \<longleftrightarrow> ft_fiber t \<noteq> None \<or> ft_cb t \<noteq> None"

text \<open>The scheduler object and, for the thread that works on it, its \<open>t_scheduler\<close> and fibers, whether it
  called \<open>set_hook_enable(true)\<close>, and the name it gave to \<open>Thread::SetName\<close>, which Threads.thy models.\<close>

record 'c sched =
  m_threads :: "int list"
  m_fibers :: "'c task list"
  m_name :: string
  m_rootFiber :: "faddr option"
  m_threadIds :: "int list"
  m_threadCount :: u64
  m_activeThreadCount :: u64
  m_idleThreadCount :: u64
  m_stopping :: bool
  m_autostop :: bool
  m_rootThread :: int
  t_scheduler :: "nat option"
  fs :: "'c fstate"
  t_hook_on :: bool
  t_named :: "string option"

section \<open>Scheduling\<close>

definition scheduleNoLock :: "'c task \<Rightarrow> ('c, 'z) sched_scheme \<Rightarrow> ('c, 'z) sched_scheme \<times> bool" where
  "scheduleNoLock ft s =
     (let need_tickle = (m_fibers s = [])
      in (if is_task ft then s\<lparr>m_fibers := m_fibers s @ [ft]\<rparr> else s, need_tickle))"

text \<open>\<open>schedule(fc, thread)\<close>: the flag says whether \<open>tickle\<close> (virtual) is called at the end.\<close>

definition schedule :: "'c task \<Rightarrow> ('c, 'z) sched_scheme \<Rightarrow> ('c, 'z) sched_scheme \<times> bool" where
  "schedule ft s = scheduleNoLock ft s"

text \<open>\<open>schedule(begin, end)\<close> over fiber pointers or functions: each element is swapped into its
  task and left null; the last component is what the range holds afterwards.\<close>

fun schedule_range ::
    "('x option \<Rightarrow> 'c task) \<Rightarrow> 'x option list \<Rightarrow> bool \<Rightarrow> ('c, 'z) sched_scheme
       \<Rightarrow> ('c, 'z) sched_scheme \<times> bool \<times> 'x option list" where
  "schedule_range mk [] need_tickle s = (s, need_tickle, [])"
| "schedule_range mk (x # xs) need_tickle s =
     (let (s1, n) = scheduleNoLock (mk x) s;
          (s2, n2, ys) = schedule_range mk xs (n \<or> need_tickle) s1
      in (s2, n2, None # ys))"

section \<open>Life cycle\<close>

text \<open>The constructor: \<open>me\<close> is the address of the scheduler, \<open>tid\<close> the calling thread,
  \<open>fmain\<close> and \<open>froot\<close> the addresses of the fibers it may allocate, \<open>run_cb\<close> the bound
  \<open>Scheduler::run\<close>; \<open>cur\<close> and \<open>f\<close> are the thread's \<open>t_scheduler\<close> and fibers.\<close>

definition Scheduler_new ::
    "nat \<Rightarrow> int \<Rightarrow> faddr \<Rightarrow> faddr \<Rightarrow> nat \<Rightarrow> u32 \<Rightarrow> 'c \<Rightarrow> u64 \<Rightarrow> bool \<Rightarrow> string \<Rightarrow> nat option \<Rightarrow> 'c fstate
       \<Rightarrow> 'c sched result" where
  "Scheduler_new me tid fmain froot stk cfg run_cb threads use_caller name cur f =
     rbind (SYLAR_ASSERT (0 < threads) ''threads > 0'')
       (\<lambda>_. let base = \<lparr>m_threads = [], m_fibers = [], m_name = name, m_rootFiber = None,
              m_threadIds = [], m_threadCount = threads, m_activeThreadCount = 0,
              m_idleThreadCount = 0, m_stopping = True, m_autostop = False, m_rootThread = -1,
              t_scheduler = cur, fs = f, t_hook_on = False, t_named = None\<rparr>
            in if use_caller
               then rbind (Fibers.GetThis fmain 0 f)
                 (\<lambda>(f1, _). rbind (SYLAR_ASSERT (cur = None) ''GetThis() == nullptr'')
                 (\<lambda>_. rbind (Fiber_new froot (Some run_cb) 0 False cfg stk 0 f1)
                 (\<lambda>f2. Inr (base\<lparr>m_threadCount := threads - 1, t_scheduler := Some me,
                   m_rootFiber := Some froot, m_rootThread := tid, m_threadIds := [tid], t_named := Some name,
                   fs := f2\<lparr>t_scheduler_fiber := Some froot\<rparr>\<rparr>))))
               else Inr base)"

definition Scheduler_delete :: "nat \<Rightarrow> ('c, 'z) sched_scheme \<Rightarrow> ('c, 'z) sched_scheme result" where
  "Scheduler_delete me s =
     rbind (SYLAR_ASSERT (m_stopping s) ''m_stopping'')
       (\<lambda>_. Inr (if t_scheduler s = Some me then s\<lparr>t_scheduler := None\<rparr> else s))"

text \<open>\<open>start\<close>: \<open>ids i\<close> is the id of the \<open>i\<close>-th thread made.\<close>

definition start :: "(nat \<Rightarrow> int) \<Rightarrow> ('c, 'z) sched_scheme \<Rightarrow> ('c, 'z) sched_scheme result" where
  "start ids s =
     (if \<not> m_stopping s then Inr s
      else rbind (SYLAR_ASSERT (m_threads s = []) ''m_threads.empty()'')
        (\<lambda>_. let new = map ids [0..<unat (m_threadCount s)]
             in Inr (s\<lparr>m_threads := new, m_threadIds := m_threadIds s @ new\<rparr>)))"

definition stopping :: "('c, 'z) sched_scheme \<Rightarrow> bool" where
  "stopping s \<longleftrightarrow> m_autostop s \<and> m_stopping s \<and> m_fibers s = [] \<and> m_activeThreadCount s = 0"

text \<open>
  \<open>stop\<close> up to the point where it hands over: \<open>StopDone\<close> it returned early, \<open>StopEnters p\<close> it
  calls \<open>swapIn\<close> of the root fiber, \<open>StopJoins\<close> it goes on to join the pool. \<open>vstopping\<close> is
  the virtual \<open>stopping()\<close>; the number is how often \<open>tickle\<close> is called before.
\<close>

datatype stop_next = StopDone | StopEnters faddr | StopJoins

definition stop_request ::
    "nat \<Rightarrow> (('c, 'z) sched_scheme \<Rightarrow> bool) \<Rightarrow> ('c, 'z) sched_scheme
       \<Rightarrow> (('c, 'z) sched_scheme \<times> nat \<times> stop_next) result" where
  "stop_request me vstopping s0 =
     (let s1 = s0\<lparr>m_autostop := True\<rparr>;
          lone = (case m_rootFiber s1 of None \<Rightarrow> False
            | Some r \<Rightarrow> m_threadCount s1 = 0
                \<and> (m_state (fiber_at (fs s1) r) = TERM' \<or> m_state (fiber_at (fs s1) r) = INIT));
          s2 = (if lone then s1\<lparr>m_stopping := True\<rparr> else s1)
      in if lone \<and> vstopping s2 then Inr (s2, 0, StopDone)
         else rbind (if m_rootThread s2 \<noteq> -1
                     then SYLAR_ASSERT (t_scheduler s2 = Some me) ''GetThis() == this''
                     else SYLAR_ASSERT (t_scheduler s2 \<noteq> Some me) ''GetThis() != this'')
           (\<lambda>_. let s3 = s2\<lparr>m_stopping := True\<rparr>
                in Inr (s3, unat (m_threadCount s3) + (if m_rootFiber s3 = None then 0 else 1),
                     case m_rootFiber s3 of Some r \<Rightarrow> StopEnters r | None \<Rightarrow> StopJoins)))"

text \<open>The end of \<open>stop\<close>: the pool is emptied and its threads, in order, joined.\<close>

definition stop_join :: "('c, 'z) sched_scheme \<Rightarrow> ('c, 'z) sched_scheme \<times> int list" where
  "stop_join s = (s\<lparr>m_threads := []\<rparr>, m_threads s)"

section \<open>The scheduling loop\<close>

text \<open>The scan of the queue: whether a task of another thread was passed, the task taken, and
  what stays queued.\<close>

fun pick_task ::
    "int \<Rightarrow> (faddr \<Rightarrow> fiber_state) \<Rightarrow> 'c task list \<Rightarrow> (bool \<times> 'c task option \<times> 'c task list) result" where
  "pick_task tid st [] = Inr (False, None, [])"
| "pick_task tid st (t # ts) =
     (if ft_thread t \<noteq> -1 \<and> ft_thread t \<noteq> tid
      then rbind (pick_task tid st ts) (\<lambda>(_, ft, rest). Inr (True, ft, t # rest))
      else rbind (SYLAR_ASSERT (is_task t) ''it->fiber || it->cb'')
        (\<lambda>_. if (case ft_fiber t of None \<Rightarrow> False | Some f \<Rightarrow> st f = EXEC)
             then rbind (pick_task tid st ts) (\<lambda>(b, ft, rest). Inr (b, ft, t # rest))
             else Inr (False, Some t, ts)))"

text \<open>Where the thread is: at the head of the loop, inside a task of one of the three kinds, or
  past the loop.\<close>

datatype run_pc = AtTop | InFiber faddr | InCb faddr | InIdle | Exited

record 'c runner = "'c sched" +
  idle_fiber :: faddr
  cb_fiber :: "faddr option"
  pc :: run_pc

text \<open>\<open>run\<close> up to its loop: \<open>fmain\<close>, \<open>fidle\<close> are the addresses of the fibers it allocates,
  \<open>idle_cb\<close> the bound \<open>Scheduler::idle\<close>.\<close>

definition setThis :: "nat \<Rightarrow> ('c, 'z) sched_scheme \<Rightarrow> ('c, 'z) sched_scheme" where
  "setThis me s = s\<lparr>t_scheduler := Some me\<rparr>"

definition run_enter ::
    "nat \<Rightarrow> int \<Rightarrow> faddr \<Rightarrow> faddr \<Rightarrow> nat \<Rightarrow> u32 \<Rightarrow> 'c \<Rightarrow> 'c runner \<Rightarrow> 'c runner result" where
  "run_enter me tid fmain fidle stk cfg idle_cb s0 =
     (let s = setThis me (s0\<lparr>t_hook_on := True\<rparr>)
      in rbind (if tid \<noteq> m_rootThread s
                then rbind (Fibers.GetThis fmain 0 (fs s))
                       (\<lambda>(f1, c). Inr (f1\<lparr>t_scheduler_fiber := Some c\<rparr>))
                else Inr (fs s))
           (\<lambda>f1. rbind (Fiber_new fidle (Some idle_cb) 0 True cfg stk 0 f1)
           (\<lambda>f2. Inr (s\<lparr>fs := f2, idle_fiber := fidle, cb_fiber := None, pc := AtTop\<rparr>))))"

text \<open>The head of the loop, up to the \<open>swapIn\<close> it ends in (or the exit). \<open>fnew\<close> and \<open>stk\<close> are
  what a \<open>new Fiber\<close> would get; the flag says whether \<open>tickle\<close> was called.\<close>

definition run_top :: "int \<Rightarrow> faddr \<Rightarrow> nat \<Rightarrow> u32 \<Rightarrow> 'c runner \<Rightarrow> ('c runner \<times> bool) result" where
  "run_top tid fnew stk cfg s =
     rbind (pick_task tid (\<lambda>f. m_state (fiber_at (fs s) f)) (m_fibers s))
       (\<lambda>(tickle_me, ft, rest).
          let s1 = s\<lparr>m_fibers := rest\<rparr>;
              to_fiber = (case ft of None \<Rightarrow> None | Some t \<Rightarrow> ft_fiber t);
              to_cb = (case ft of None \<Rightarrow> None | Some t \<Rightarrow> ft_cb t)
          in case to_fiber of
            Some f \<Rightarrow>
              (if m_state (fiber_at (fs s1) f) \<noteq> TERM' \<or> m_state (fiber_at (fs s1) f) \<noteq> EXCEPT
               then rbind (swapIn f 0 (fs s1))
                 (\<lambda>f1. Inr (s1\<lparr>m_activeThreadCount := m_activeThreadCount s1 + 1, fs := f1,
                                pc := InFiber f\<rparr>, tickle_me))
               else Inl (Undefined ''unreachable''))
          | None \<Rightarrow> (case to_cb of
              Some cb \<Rightarrow>
                rbind (case cb_fiber s1 of
                         Some c \<Rightarrow> rbind (Fiber_reset c (Some cb) 0 (fs s1)) (\<lambda>f1. Inr (c, f1))
                       | None \<Rightarrow> rbind (Fiber_new fnew (Some cb) 0 True cfg stk 0 (fs s1))
                                   (\<lambda>f1. Inr (fnew, f1)))
                  (\<lambda>(c, f1). rbind (swapIn c 0 f1)
                    (\<lambda>f2. Inr (s1\<lparr>cb_fiber := Some c,
                         m_activeThreadCount := m_activeThreadCount s1 + 1, fs := f2,
                         pc := InCb c\<rparr>, tickle_me)))
            | None \<Rightarrow>
                if m_state (fiber_at (fs s1) (idle_fiber s1)) = TERM'
                then Inr (s1\<lparr>pc := Exited\<rparr>, tickle_me)
                else rbind (swapIn (idle_fiber s1) 0 (fs s1))
                  (\<lambda>f1. Inr (s1\<lparr>m_idleThreadCount := m_idleThreadCount s1 + 1, fs := f1,
                       pc := InIdle\<rparr>, tickle_me))))"

text \<open>How the code on the entered fiber gives control back.\<close>

datatype leave = LReady | LHold | LEnd "string option"

definition leave_fiber :: "leave \<Rightarrow> faddr \<Rightarrow> 'c fstate \<Rightarrow> 'c fstate result" where
  "leave_fiber how p f =
     (case how of LReady \<Rightarrow> YieldToReady 0 0 0 f | LHold \<Rightarrow> YieldToHold 0 0 0 f
      | LEnd e \<Rightarrow> MainFunc_finish e p 0 f)"

text \<open>The rest of the loop body, after the \<open>swapIn\<close>; the flag says whether it called \<open>tickle\<close>.\<close>

definition run_after :: "'c runner \<Rightarrow> ('c runner \<times> bool) result" where
  "run_after s =
     (case pc s of
        InFiber f \<Rightarrow>
          Inr (s\<lparr>m_activeThreadCount := m_activeThreadCount s - 1, pc := AtTop\<rparr>, False)
      | InCb c \<Rightarrow>
          (let s1 = s\<lparr>m_activeThreadCount := m_activeThreadCount s - 1, pc := AtTop\<rparr>;
               st = m_state (fiber_at (fs s1) c)
           in if st = READY
              then let (s2, n) = schedule (fiber_task (Some c) (-1)) s1
                   in Inr (s2\<lparr>cb_fiber := None\<rparr>, n)
              else if st = EXCEPT \<or> st = TERM'
              then rbind (Fiber_reset c None 0 (fs s1)) (\<lambda>f1. Inr (s1\<lparr>fs := f1\<rparr>, False))
              else Inr (s1\<lparr>fs := set_state c HOLD (fs s1), cb_fiber := None\<rparr>, False))
      | InIdle \<Rightarrow>
          (let s1 = s\<lparr>m_idleThreadCount := m_idleThreadCount s - 1, pc := AtTop\<rparr>;
               st = m_state (fiber_at (fs s1) (idle_fiber s1))
           in Inr (if st \<noteq> TERM' \<and> st \<noteq> EXCEPT
                   then s1\<lparr>fs := set_state (idle_fiber s1) HOLD (fs s1)\<rparr> else s1, False))
      | _ \<Rightarrow> Inl (Undefined ''not inside a task''))"

definition inside :: "'c runner \<Rightarrow> faddr option" where
  "inside s = (case pc s of InFiber f \<Rightarrow> Some f | InCb c \<Rightarrow> Some c | InIdle \<Rightarrow> Some (idle_fiber s)
     | _ \<Rightarrow> None)"

definition run_resume :: "leave \<Rightarrow> 'c runner \<Rightarrow> ('c runner \<times> bool) result" where
  "run_resume how s =
     (case inside s of
        None \<Rightarrow> Inl (Undefined ''not inside a task'')
      | Some p \<Rightarrow> rbind (leave_fiber how p (fs s)) (\<lambda>f1. run_after (s\<lparr>fs := f1\<rparr>)))"

section \<open>The contract of \<open>schedule\<close>\<close>

locale task_sink =
  fixes put :: "'t \<Rightarrow> 's \<Rightarrow> 's \<times> bool" and queue :: "'s \<Rightarrow> 't list" and proper :: "'t \<Rightarrow> bool"
  assumes queue_put: "queue (fst (put t s)) = queue s @ (if proper t then [t] else [])"
    and put_flag: "snd (put t s) = (queue s = [])"
begin

fun put_all :: "'t list \<Rightarrow> 's \<Rightarrow> 's \<times> bool" where
  "put_all [] s = (s, False)"
| "put_all (t # ts) s = (let (s1, n) = put t s; (s2, n2) = put_all ts s1 in (s2, n \<or> n2))"

lemma queue_put_all: "queue (fst (put_all ts s)) = queue s @ filter proper ts"
  by (induction ts arbitrary: s) (simp_all add: split_beta queue_put)

text \<open>Scheduling several tasks asks for a wake-up exactly when the queue was empty.\<close>

lemma put_all_flag: "snd (put_all ts s) \<longleftrightarrow> ts \<noteq> [] \<and> queue s = []"
proof (induction ts arbitrary: s)
  case (Cons t ts)
  then show ?case by (auto simp: split_beta put_flag queue_put)
qed simp

end

interpretation sched_sink: task_sink schedule m_fibers is_task
  by unfold_locales (simp_all add: schedule_def scheduleNoLock_def Let_def)

lemma schedule_frame:
  "fst (schedule t s) = s\<lparr>m_fibers := m_fibers s @ (if is_task t then [t] else [])\<rparr>"
  by (simp add: schedule_def scheduleNoLock_def Let_def)

lemma schedule_range_put_all:
  "schedule_range mk xs n s = (fst (sched_sink.put_all (map mk xs) s),
     n \<or> snd (sched_sink.put_all (map mk xs) s), map (\<lambda>_. None) xs)"
  by (induction xs arbitrary: n s) (auto simp: split_beta schedule_def)

section \<open>The scan of the queue\<close>

definition eligible :: "int \<Rightarrow> (faddr \<Rightarrow> fiber_state) \<Rightarrow> 'c task \<Rightarrow> bool" where
  "eligible tid st t \<longleftrightarrow> (ft_thread t = -1 \<or> ft_thread t = tid)
     \<and> (case ft_fiber t of None \<Rightarrow> True | Some f \<Rightarrow> st f \<noteq> EXEC)"

definition foreign :: "int \<Rightarrow> 'c task \<Rightarrow> bool" where
  "foreign tid t \<longleftrightarrow> ft_thread t \<noteq> -1 \<and> ft_thread t \<noteq> tid"

lemma pick_takeWhile:
  assumes "\<forall>t \<in> set q. is_task t"
  shows "pick_task tid st q =
    (let skip = takeWhile (\<lambda>t. \<not> eligible tid st t) q; others = dropWhile (\<lambda>t. \<not> eligible tid st t) q
     in Inr (\<exists>t \<in> set skip. foreign tid t,
             case others of [] \<Rightarrow> None | t # _ \<Rightarrow> Some t, skip @ tl others))"
  using assms
  by (induction q) (auto simp: eligible_def foreign_def Let_def split: option.splits)

lemma pick_cases:
  assumes "\<forall>t \<in> set q. is_task t" and "pick_task tid st q = Inr (b, ft, rest)"
  obtains "ft = None" and "rest = q" and "\<forall>t \<in> set q. \<not> eligible tid st t"
  | t xs ys where "ft = Some t" and "q = xs @ t # ys" and "rest = xs @ ys" and "eligible tid st t"
      and "\<forall>u \<in> set xs. \<not> eligible tid st u"
proof (cases "dropWhile (\<lambda>t. \<not> eligible tid st t) q")
  case Nil
  then have "takeWhile (\<lambda>t. \<not> eligible tid st t) q = q"
    by (metis append_Nil2 takeWhile_dropWhile_id)
  then have "ft = None" "rest = q" using assms pick_takeWhile [OF assms(1), of tid st] Nil
    by (auto simp: Let_def)
  moreover have "\<forall>t \<in> set q. \<not> eligible tid st t" using Nil by simp
  ultimately show thesis by (rule that(1))
next
  case (Cons t ys)
  let ?xs = "takeWhile (\<lambda>t. \<not> eligible tid st t) q"
  have "ft = Some t" "rest = ?xs @ ys" using assms pick_takeWhile [OF assms(1), of tid st] Cons
    by (auto simp: Let_def)
  moreover have "q = ?xs @ t # ys" using Cons by (metis takeWhile_dropWhile_id)
  moreover have "eligible tid st t" using Cons by (metis dropWhile_eq_Cons_conv)
  moreover have "\<forall>u \<in> set ?xs. \<not> eligible tid st u" by (metis set_takeWhileD)
  ultimately show thesis using that(2) [of t ?xs ys] by blast
qed

section \<open>Many threads on one queue\<close>

text \<open>The locked sections of the threads, in the order they take the mutex: a \<open>schedule\<close> by anyone, one
  of a range of functions, and a scan by thread \<open>tid\<close> that sees the fibers in the states \<open>st\<close>.\<close>

datatype 'c qevent = Put "'c task" | PutRange "'c option list" | Scan int "faddr \<Rightarrow> fiber_state"

fun q_run :: "'c qevent list \<Rightarrow> ('c, 'z) sched_scheme \<Rightarrow> ((int \<times> 'c task) list \<times> ('c, 'z) sched_scheme) result" where
  "q_run [] s = Inr ([], s)"
| "q_run (Put t # es) s = q_run es (fst (schedule t s))"
| "q_run (PutRange xs # es) s = q_run es (fst (schedule_range (\<lambda>f. cb_task f (-1)) xs False s))"
| "q_run (Scan tid st # es) s =
     rbind (pick_task tid st (m_fibers s)) (\<lambda>(_, ft, rest).
       rbind (q_run es (s\<lparr>m_fibers := rest\<rparr>)) (\<lambda>(taken, s').
         Inr ((case ft of None \<Rightarrow> [] | Some t \<Rightarrow> [(tid, t)]) @ taken, s')))"

text \<open>What was handed to the scheduler, in order, but for empty functions and null fibers.\<close>

fun puts :: "'c qevent list \<Rightarrow> 'c task list" where
  "puts [] = []"
| "puts (Put t # es) = (if is_task t then [t] else []) @ puts es"
| "puts (PutRange xs # es) = filter is_task (map (\<lambda>f. cb_task f (-1)) xs) @ puts es"
| "puts (Scan tid st # es) = puts es"

text \<open>The tasks anyone may take at any time: functions not bound to a thread.\<close>

definition free_task :: "'c task \<Rightarrow> bool" where
  "free_task t \<longleftrightarrow> ft_thread t = -1 \<and> ft_fiber t = None"

lemma free_eligible: "free_task t \<Longrightarrow> eligible tid st t"
  by (simp add: free_task_def eligible_def)

lemma schedule_queue: "fst (schedule t s) = s\<lparr>m_fibers := m_fibers s @ (if is_task t then [t] else [])\<rparr>"
  by (simp add: schedule_def scheduleNoLock_def Let_def)

lemma schedule_range_queue:
  "fst (schedule_range mk xs n s) = s\<lparr>m_fibers := m_fibers s @ filter is_task (map mk xs)\<rparr>"
proof (induction xs arbitrary: n s)
  case (Cons x xs)
  have e: "fst (scheduleNoLock (mk x) s) = s\<lparr>m_fibers := m_fibers s @ (if is_task (mk x) then [mk x] else [])\<rparr>"
    by (simp add: scheduleNoLock_def Let_def)
  show ?case by (simp add: split_beta Cons.IH e)
qed simp

lemma q_run_exact:
  assumes "\<forall>t \<in> set (m_fibers s). is_task t"
  shows "\<exists>taken q. q_run es s = Inr (taken, s\<lparr>m_fibers := q\<rparr>)
    \<and> mset (map snd taken) + mset q = mset (m_fibers s @ puts es)
    \<and> (\<forall>(tid, t) \<in> set taken. ft_thread t = -1 \<or> ft_thread t = tid)
    \<and> filter free_task (map snd taken) @ filter free_task q = filter free_task (m_fibers s @ puts es)"
  using assms
proof (induction es s rule: q_run.induct)
  case (1 s)
  show ?case by (rule exI [of _ "[]"], rule exI [of _ "m_fibers s"]) simp
next
  case (2 t es s)
  have "\<forall>u \<in> set (m_fibers (fst (schedule t s))). is_task u" using 2(2) by (auto simp: schedule_queue)
  from 2(1) [OF this] show ?case by (auto simp: schedule_queue)
next
  case (3 xs es s)
  have "\<forall>u \<in> set (m_fibers (fst (schedule_range (\<lambda>f. cb_task f (-1)) xs False s))). is_task u"
    using 3(2) by (auto simp: schedule_range_queue)
  from 3(1) [OF this] show ?case by (simp add: schedule_range_queue)
next
  case (4 tid st es s)
  obtain b ft rest where p: "pick_task tid st (m_fibers s) = Inr (b, ft, rest)"
    using pick_takeWhile [OF 4(2), of tid st] by (auto simp: Let_def)
  have rest: "\<forall>t \<in> set rest. is_task t"
    using 4(2) p by (cases rule: pick_cases [OF 4(2) p]) auto
  obtain taken q where q: "q_run es (s\<lparr>m_fibers := rest\<rparr>) = Inr (taken, s\<lparr>m_fibers := q\<rparr>)"
      "mset (map snd taken) + mset q = mset (rest @ puts es)"
      "\<forall>(tid, t) \<in> set taken. ft_thread t = -1 \<or> ft_thread t = tid"
      "filter free_task (map snd taken) @ filter free_task q = filter free_task (rest @ puts es)"
    using 4(1) [of rest] rest by auto
  from 4(2) p show ?case
  proof (cases rule: pick_cases)
    case 1
    then show ?thesis using p q by (intro exI [of _ taken] exI [of _ q]) simp
  next
    case (2 t xs ys)
    have xs: "filter free_task xs = []"
      using 2(5) free_eligible by (auto simp: filter_empty_conv)
    show ?thesis using q p 2 xs by (intro exI [of _ "(tid, t) # taken"] exI [of _ q]) (auto simp: eligible_def)
  qed
qed

section \<open>The loop at work\<close>

definition queued :: "('c, 'z) sched_scheme \<Rightarrow> faddr list" where
  "queued s = List.map_filter ft_fiber (m_fibers s)"

text \<open>A fiber the loop of the thread with main fiber \<open>m\<close> and scheduling fiber \<open>r\<close> can enter.\<close>

definition enterable :: "faddr \<Rightarrow> faddr \<Rightarrow> 'c runner \<Rightarrow> faddr \<Rightarrow> bool" where
  "enterable m r s p \<longleftrightarrow> p \<noteq> m \<and> p \<noteq> r \<and> m_stack (fiber_at (fs s) p) \<noteq> 0
     \<and> (m_runInScheduler (fiber_at (fs s) p) \<or> r = m)"

text \<open>
  The steps around one thread's loop: the loop itself; the code of the entered task giving
  control back; anyone making a fiber or scheduling. The discipline: a fiber is scheduled when
  it is suspended or suspends itself, at most once at a time, and not after it finished; a
  task's fiber does not finish (or yield as ready) while it is queued; \<open>idle\<close> does not throw.
\<close>

inductive run_step :: "faddr \<Rightarrow> int \<Rightarrow> 'c runner \<Rightarrow> 'c runner \<Rightarrow> bool" for m tid where
  rs_top: "pc s = AtTop \<Longrightarrow> fnew \<noteq> m \<Longrightarrow> m_stack (fiber_at (fs s) fnew) = 0 \<Longrightarrow> stk \<noteq> 0
     \<Longrightarrow> run_top tid fnew stk cfg s = Inr (s', b) \<Longrightarrow> run_step m tid s s'"
| rs_resume: "inside s = Some p
     \<Longrightarrow> how = LHold \<or> how = LReady \<and> pc s = InFiber p \<or> p \<notin> set (queued s)
     \<Longrightarrow> pc s \<noteq> InIdle \<or> how \<in> {LReady, LHold, LEnd None}
     \<Longrightarrow> run_resume how s = Inr (s', b) \<Longrightarrow> run_step m tid s s'"
| rs_new: "p \<noteq> m \<Longrightarrow> m_stack (fiber_at (fs s) p) = 0 \<Longrightarrow> stk \<noteq> 0
     \<Longrightarrow> Fiber_new p cb sz ris cfg stk 0 (fs s) = Inr f' \<Longrightarrow> run_step m tid s (s\<lparr>fs := f'\<rparr>)"
| rs_schedule: "case ft_fiber t of None \<Rightarrow> True
       | Some p \<Rightarrow> (\<exists>r. t_scheduler_fiber (fs s) = Some r \<and> enterable m r s p) \<and> p \<noteq> idle_fiber s
           \<and> p \<notin> set (queued s) \<and> m_state (fiber_at (fs s) p) \<notin> {TERM', EXCEPT}
           \<and> (cb_fiber s \<noteq> Some p \<or> pc s = InCb p)
     \<Longrightarrow> schedule t s = (s', b) \<Longrightarrow> run_step m tid s s'"

text \<open>A worker thread starts the loop with no fiber of its own; the caller's thread starts it on
  the root fiber, entered by \<open>stop\<close>. Functions may have been scheduled before.\<close>

inductive run_reach :: "faddr \<Rightarrow> int \<Rightarrow> 'c runner \<Rightarrow> bool" for m tid where
  rr_worker: "fs s0 = fiber_init \<Longrightarrow> tid \<noteq> m_rootThread s0
     \<Longrightarrow> \<forall>t \<in> set (m_fibers s0). is_task t \<and> ft_fiber t = None
     \<Longrightarrow> m_activeThreadCount s0 = 0 \<Longrightarrow> m_idleThreadCount s0 = 0 \<Longrightarrow> fidle \<noteq> m \<Longrightarrow> stk \<noteq> 0
     \<Longrightarrow> run_enter me tid m fidle stk cfg icb s0 = Inr s \<Longrightarrow> run_reach m tid s"
| rr_root: "fiber_reach m (fs s0) \<Longrightarrow> tid = m_rootThread s0
     \<Longrightarrow> t_scheduler_fiber (fs s0) = Some r \<Longrightarrow> running (fs s0) = FiberFlow r
     \<Longrightarrow> \<forall>t \<in> set (m_fibers s0). is_task t \<and> ft_fiber t = None
     \<Longrightarrow> m_activeThreadCount s0 = 0 \<Longrightarrow> m_idleThreadCount s0 = 0
     \<Longrightarrow> fidle \<noteq> m \<Longrightarrow> m_stack (fiber_at (fs s0) fidle) = 0 \<Longrightarrow> stk \<noteq> 0
     \<Longrightarrow> run_enter me tid m fidle stk cfg icb s0 = Inr s \<Longrightarrow> run_reach m tid s"
| rr_step: "run_reach m tid s \<Longrightarrow> run_step m tid s s' \<Longrightarrow> run_reach m tid s'"

definition queue_ok :: "faddr \<Rightarrow> faddr \<Rightarrow> 'c runner \<Rightarrow> bool" where
  "queue_ok m r s \<longleftrightarrow> (\<forall>t \<in> set (m_fibers s). is_task t) \<and> distinct (queued s)
     \<and> (\<forall>p \<in> set (queued s). enterable m r s p \<and> p \<noteq> idle_fiber s
          \<and> m_state (fiber_at (fs s) p) \<noteq> TERM' \<and> m_state (fiber_at (fs s) p) \<noteq> EXCEPT
          \<and> (cb_fiber s \<noteq> Some p \<or> pc s = InCb p))"

definition own_ok :: "faddr \<Rightarrow> faddr \<Rightarrow> 'c runner \<Rightarrow> bool" where
  "own_ok m r s \<longleftrightarrow> enterable m r s (idle_fiber s)
     \<and> (pc s = InIdle \<or> m_state (fiber_at (fs s) (idle_fiber s)) \<in> {INIT, HOLD, TERM'})
     \<and> (\<forall>c. cb_fiber s = Some c \<longrightarrow> enterable m r s c \<and> c \<noteq> idle_fiber s \<and> pc s \<noteq> InFiber c
          \<and> (pc s = InCb c \<or> m_state (fiber_at (fs s) c) = INIT))"

fun pc_ok :: "faddr \<Rightarrow> faddr \<Rightarrow> 'c runner \<Rightarrow> run_pc \<Rightarrow> bool" where
  "pc_ok m r s (InFiber p) \<longleftrightarrow> running (fs s) = FiberFlow p \<and> enterable m r s p \<and> p \<noteq> idle_fiber s
     \<and> m_activeThreadCount s = 1 \<and> m_idleThreadCount s = 0"
| "pc_ok m r s (InCb c) \<longleftrightarrow> running (fs s) = FiberFlow c \<and> cb_fiber s = Some c
     \<and> m_activeThreadCount s = 1 \<and> m_idleThreadCount s = 0"
| "pc_ok m r s InIdle \<longleftrightarrow> running (fs s) = FiberFlow (idle_fiber s)
     \<and> m_activeThreadCount s = 0 \<and> m_idleThreadCount s = 1"
| "pc_ok m r s _ \<longleftrightarrow> running (fs s) = flow_of m r
     \<and> m_activeThreadCount s = 0 \<and> m_idleThreadCount s = 0"

definition run_inv :: "faddr \<Rightarrow> faddr \<Rightarrow> 'c runner \<Rightarrow> bool" where
  "run_inv m r s \<longleftrightarrow> t_scheduler_fiber (fs s) = Some r \<and> fiber_inv m (fs s)
     \<and> queue_ok m r s \<and> own_ok m r s \<and> pc_ok m r s (pc s)"

lemma enterable_resumer:
  "enterable m r s p \<Longrightarrow> t_scheduler_fiber (fs s) = Some r \<Longrightarrow> resumer m (fs s) p = r"
  by (auto simp: enterable_def resumer_def)

lemma enter_own:
  assumes "enterable m r s p" and "t_scheduler_fiber (fs s) = Some r" and "fiber_inv m (fs s)"
    and "running (fs s) = flow_of m r" and "m_state (fiber_at (fs s) p) \<in> {INIT, HOLD, READY}"
  shows "swapIn p 0 (fs s) = Inr (entered m p (fs s))" and "fiber_inv m (entered m p (fs s))"
proof -
  have res: "resumer m (fs s) p = r" by (rule enterable_resumer [OF assms(1,2)])
  have p: "p \<noteq> m" "m_stack (fiber_at (fs s) p) \<noteq> 0" using assms(1) by (auto simp: enterable_def)
  show "swapIn p 0 (fs s) = Inr (entered m p (fs s))"
    by (subst swapIn_outcome [OF assms(3) p]) (use assms res in auto)
  show "fiber_inv m (entered m p (fs s))"
    by (rule inv_entered [OF assms(3) p]) (use assms res in auto)
qed

lemma state_entered:
  assumes "enterable m r s p" and "t_scheduler_fiber (fs s) = Some r"
  shows "m_state (fiber_at (entered m p (fs s)) q) = (if q = p then EXEC else m_state (fiber_at (fs s) q))"
  using enterable_resumer [OF assms] assms(1) by (auto simp: entered_def enterable_def)

fun left_state :: "leave \<Rightarrow> fiber_state" where
  "left_state LReady = READY"
| "left_state LHold = EXEC"
| "left_state (LEnd None) = TERM'"
| "left_state (LEnd (Some e)) = EXCEPT"

lemma inside_facts:
  assumes "run_inv m r s" and "inside s = Some p"
  shows "running (fs s) = FiberFlow p" and "enterable m r s p"
    and "t_scheduler_fiber (fs s) = Some r" and "fiber_inv m (fs s)"
  using assms by (cases "pc s"; auto simp: run_inv_def inside_def own_ok_def)+

lemma leave_outcome:
  assumes inv: "fiber_inv m (fs s)" and run: "running (fs s) = FiberFlow p"
    and en: "enterable m r s p" and sf: "t_scheduler_fiber (fs s) = Some r"
  shows "\<exists>f. leave_fiber how p (fs s) = Inr f \<and> fiber_inv m f \<and> running f = flow_of m r
    \<and> t_scheduler_fiber f = Some r
    \<and> (\<forall>q. m_stack (fiber_at f q) = m_stack (fiber_at (fs s) q)
         \<and> m_runInScheduler (fiber_at f q) = m_runInScheduler (fiber_at (fs s) q)
         \<and> m_state (fiber_at f q) = (if q = p then left_state how else m_state (fiber_at (fs s) q)))"
proof -
  let ?s = "fs s"
  have np: "t_scheduler_fiber ?s \<noteq> Some p" using en sf by (simp add: enterable_def)
  have res: "resumer m ?s p = r" by (rule enterable_resumer [OF en sf])
  have ex: "m_state (fiber_at ?s p) = EXEC" using running_resumer_ctx [OF inv run] by simp
  define g where "g = (case how of LReady \<Rightarrow> (fiber_at ?s p)\<lparr>m_state := READY\<rparr>
    | LHold \<Rightarrow> fiber_at ?s p | LEnd e \<Rightarrow> finished_fiber e (fiber_at ?s p))"
  define c where "c = (case how of LEnd e \<Rightarrow> AtNeverReach | _ \<Rightarrow> AtSwap (FiberFlow p))"
  have g: "m_stack g = m_stack (fiber_at ?s p)" "m_runInScheduler g = m_runInScheduler (fiber_at ?s p)"
    "m_state g = left_state how" "ctx_ok p ThreadFlow (m_state g) c"
    using ex by (auto simp: g_def c_def finished_fiber_def split: leave.split option.split)
  let ?f = "left c m p (set_fiber p g ?s)"
  have "leave_fiber how p ?s = Inr ?f"
  proof (cases how)
    case LReady
    then show ?thesis using YieldToReady_outcome [OF inv run np, of 0]
      by (simp add: leave_fiber_def g_def c_def set_state_def)
  next
    case LHold
    then show ?thesis using YieldToHold_outcome [OF inv run np, of 0]
      by (simp add: leave_fiber_def g_def c_def set_fiber_def)
  next
    case (LEnd e)
    then show ?thesis using MainFunc_finish_outcome [OF inv run, of e]
      by (simp add: leave_fiber_def g_def c_def)
  qed
  moreover have "fiber_inv m ?f" by (rule inv_left [OF inv run g(1,2,4)])
  moreover have "running ?f = flow_of m r"
    using res g(2) by (auto simp: resumer_def)
  ultimately show ?thesis using g sf by (intro exI [of _ ?f]) auto
qed

lemma queued_simps [simp]:
  "queued (s\<lparr>fs := f\<rparr>) = queued s" "queued (s\<lparr>pc := x\<rparr>) = queued s"
  "queued (s\<lparr>cb_fiber := c\<rparr>) = queued s" "queued (s\<lparr>m_activeThreadCount := a\<rparr>) = queued s"
  "queued (s\<lparr>m_idleThreadCount := a\<rparr>) = queued s"
  "queued (s\<lparr>m_fibers := q\<rparr>) = List.map_filter ft_fiber q"
  by (simp_all add: queued_def)

lemma map_filter_append [simp]:
  "List.map_filter f (xs @ ys) = List.map_filter f xs @ List.map_filter f ys"
  by (simp add: map_filter_def)

text \<open>The aftermath of a task, on the state in which it left its fiber.\<close>

lemma run_inv_resume:
  assumes inv: "run_inv m r s" and ins: "inside s = Some p"
    and disc: "how = LHold \<or> how = LReady \<and> pc s = InFiber p \<or> p \<notin> set (queued s)"
    and idle: "pc s \<noteq> InIdle \<or> how \<in> {LReady, LHold, LEnd None}"
  shows "\<exists>s' b. run_resume how s = Inr (s', b) \<and> run_inv m r s' \<and> pc s' = AtTop"
proof -
  note i = inside_facts [OF inv ins]
  obtain f where lf: "leave_fiber how p (fs s) = Inr f" and f: "fiber_inv m f"
    "running f = flow_of m r" "t_scheduler_fiber f = Some r"
    "\<And>q. m_stack (fiber_at f q) = m_stack (fiber_at (fs s) q)"
    "\<And>q. m_runInScheduler (fiber_at f q) = m_runInScheduler (fiber_at (fs s) q)"
    "\<And>q. m_state (fiber_at f q) = (if q = p then left_state how else m_state (fiber_at (fs s) q))"
    using leave_outcome [OF i(4,1,2,3), of how] by blast
  have q: "queue_ok m r s" and o: "own_ok m r s" using inv by (auto simp: run_inv_def)
  have pm: "p \<noteq> m" "p \<noteq> r" "m_stack (fiber_at f p) \<noteq> 0" using i(2) f(4) by (auto simp: enterable_def)
  have nr: "running f \<noteq> FiberFlow p" using f(2) pm by simp
  have nsf: "t_scheduler_fiber f \<noteq> Some p" using f(3) pm by simp
  have hold_inv: "fiber_inv m (set_state p HOLD f)"
    if "left_state how \<in> {EXEC, READY}"
  proof (rule inv_set_state [OF f(1) pm(1) nr nsf])
    have "ctx_ok p (running f) (m_state (fiber_at f p)) (m_ctx (fiber_at f p))"
      using f(1) pm by (simp add: fiber_inv_def fibers_ok_def)
    then show "ctx_ok p (running f) HOLD (m_ctx (fiber_at f p))" using that nr f(6) by auto
  qed
  show ?thesis
  proof (cases "pc s")
    case (InFiber x)
    then have x: "x = p" using ins by (simp add: inside_def)
    have "run_inv m r (s\<lparr>fs := f, m_activeThreadCount := m_activeThreadCount s - 1, pc := AtTop\<rparr>)"
      using InFiber x inv q o f disc
      by (cases how rule: left_state.cases)
        (auto simp: run_inv_def queue_ok_def own_ok_def enterable_def)
    moreover have "run_resume how s
        = Inr (s\<lparr>fs := f, m_activeThreadCount := m_activeThreadCount s - 1, pc := AtTop\<rparr>, False)"
      using InFiber ins lf by (simp add: run_resume_def run_after_def)
    ultimately show ?thesis by auto
  next
    case (InCb x)
    then have x: "x = p" using ins by (simp add: inside_def)
    let ?s1 = "s\<lparr>fs := f, m_activeThreadCount := m_activeThreadCount s - 1, pc := AtTop\<rparr>"
    have cb: "cb_fiber s = Some p" using InCb x inv by (simp add: run_inv_def)
    consider (ready) "how = LReady" | (hold) "how = LHold" | (ended) e where "how = LEnd e"
      by (cases how)
    then show ?thesis
    proof cases
      case ready
      let ?s2 = "?s1\<lparr>m_fibers := m_fibers s @ [fiber_task (Some p) (-1)], cb_fiber := None\<rparr>"
      have "p \<notin> set (queued s)" using disc ready InCb by simp
      then have "run_inv m r ?s2"
        using ready InCb x inv q o f i(2) cb
        by (auto simp: run_inv_def queue_ok_def own_ok_def enterable_def fiber_task_def is_task_def
            queued_def [symmetric] map_filter_def [of _ "[_]"])
      moreover have "\<exists>b. run_resume how s = Inr (?s2, b)"
        using ready InCb x ins lf f(6)
        by (simp add: run_resume_def run_after_def Let_def schedule_def scheduleNoLock_def
            is_task_def fiber_task_def)
      ultimately show ?thesis by auto
    next
      case hold
      let ?s2 = "?s1\<lparr>fs := set_state p HOLD f, cb_fiber := None\<rparr>"
      have "run_inv m r ?s2"
        using hold InCb x inv q o f cb hold_inv
        by (auto simp: run_inv_def queue_ok_def own_ok_def enterable_def)
      moreover have "run_resume how s = Inr (?s2, False)"
        using hold InCb x ins lf f(6)
        by (simp add: run_resume_def run_after_def Let_def)
      ultimately show ?thesis by auto
    next
      case (ended e)
      let ?g = "(fiber_at f p)\<lparr>m_fcb := None, m_ctx := AtMainFunc, m_state := INIT\<rparr>"
      let ?s2 = "?s1\<lparr>fs := set_fiber p ?g f\<rparr>"
      have np: "p \<notin> set (queued s)" using disc ended by simp
      have st: "m_state (fiber_at f p) = TERM' \<or> m_state (fiber_at f p) = EXCEPT"
        using ended f(6) by (cases e) auto
      have "fiber_inv m (set_fiber p ?g f)"
        by (rule inv_set_fiber [OF f(1) pm(1) nr]) (use nsf nr in auto)
      then have "run_inv m r ?s2"
        using InCb x inv q o f cb np by (auto simp: run_inv_def queue_ok_def own_ok_def enterable_def)
      moreover have "run_resume how s = Inr (?s2, False)"
        using InCb x ins lf st pm(3)
        by (auto simp: run_resume_def run_after_def Let_def Fiber_reset_def)
      ultimately show ?thesis by auto
    qed
  next
    case InIdle
    then have x: "p = idle_fiber s" using ins by (simp add: inside_def)
    let ?s1 = "s\<lparr>fs := f, m_idleThreadCount := m_idleThreadCount s - 1, pc := AtTop\<rparr>"
    show ?thesis
    proof (cases "how = LEnd None")
      case True
      then have "run_inv m r ?s1"
        using InIdle x inv q o f by (auto simp: run_inv_def queue_ok_def own_ok_def enterable_def)
      moreover have "run_resume how s = Inr (?s1, False)"
        using InIdle x ins lf f(6) True by (simp add: run_resume_def run_after_def Let_def)
      ultimately show ?thesis by auto
    next
      case False
      then have st: "left_state how \<in> {EXEC, READY}" using idle InIdle by (cases how) auto
      let ?s2 = "?s1\<lparr>fs := set_state p HOLD f\<rparr>"
      have "run_inv m r ?s2"
        using InIdle x inv q o f hold_inv [OF st]
        by (auto simp: run_inv_def queue_ok_def own_ok_def enterable_def)
      moreover have "run_resume how s = Inr (?s2, False)"
        using InIdle x ins lf f(6) st by (auto simp: run_resume_def run_after_def Let_def)
      ultimately show ?thesis by auto
    qed
  qed (use ins in \<open>simp_all add: inside_def\<close>)
qed

text \<open>What entering a fiber changes, as the queue and the loop's own fibers see it.\<close>

lemma entered_views:
  assumes "enterable m r s p" and "t_scheduler_fiber (fs s) = Some r"
  shows "m_state (fiber_at (entered m p (fs s)) q) = (if q = p then EXEC else m_state (fiber_at (fs s) q))"
    and "m_stack (fiber_at (entered m p (fs s)) q) = m_stack (fiber_at (fs s) q)"
    and "m_runInScheduler (fiber_at (entered m p (fs s)) q) = m_runInScheduler (fiber_at (fs s) q)"
  using state_entered [OF assms] by simp_all

lemma set_fiber_inv_init:
  assumes inv: "fiber_inv m f" and p: "p \<noteq> m" and run: "running f \<noteq> FiberFlow p"
    and sf: "t_scheduler_fiber f \<noteq> Some p" and g: "m_state g = INIT" "m_ctx g = AtMainFunc"
  shows "fiber_inv m (set_fiber p g f)"
  by (rule inv_set_fiber [OF inv p run]) (use run sf g in auto)

lemma Fiber_new_result:
  "Fiber_new p cb sz ris cfg stk 0 f = Inr ((set_fiber p
     \<lparr>m_id = s_fiber_id f + 1, m_stacksize = (if sz \<noteq> 0 then ucast sz else cfg), m_state = INIT,
      m_ctx = AtMainFunc, m_stack = stk, m_fcb = cb, m_runInScheduler = ris\<rparr> f)
     \<lparr>s_fiber_id := s_fiber_id f + 1, s_fiber_count := s_fiber_count f + 1\<rparr>)"
  by (simp add: Fiber_new_def Let_def)

lemma Fiber_new_keeps:
  assumes inv: "fiber_inv m f" and p: "p \<noteq> m" "m_stack (fiber_at f p) = 0"
    and new: "Fiber_new p cb sz ris cfg stk 0 f = Inr f'"
  shows "fiber_inv m f'" and "running f' = running f" and "t_scheduler_fiber f' = t_scheduler_fiber f"
    and "m_stack (fiber_at f' p) = stk" and "m_state (fiber_at f' p) = INIT"
    and "m_runInScheduler (fiber_at f' p) = ris" and "t_fiber f' = t_fiber f"
    and "\<And>q. q \<noteq> p \<Longrightarrow> fiber_at f' q = fiber_at f q"
proof -
  have run: "running f \<noteq> FiberFlow p" using inv p by (auto simp: fiber_inv_def chain_ok_def)
  have sf: "t_scheduler_fiber f \<noteq> Some p" using inv p by (auto simp: fiber_inv_def main_ok_def)
  show "fiber_inv m f'"
    using new set_fiber_inv_init [OF inv p(1) run sf] by (auto simp: Fiber_new_result inv_counters)
qed (use new in \<open>auto simp: Fiber_new_result\<close>)

lemma pc_at_top:
  assumes "run_inv m r s" and "pc s = AtTop"
  shows "running (fs s) = flow_of m r" and "m_activeThreadCount s = 0" and "m_idleThreadCount s = 0"
    and "t_scheduler_fiber (fs s) = Some r" and "fiber_inv m (fs s)" and "queue_ok m r s"
    and "own_ok m r s"
  using assms by (simp_all add: run_inv_def)

lemma run_inv_top_idle:
  assumes inv: "run_inv m r s" and top: "pc s = AtTop"
    and pick: "pick_task tid (\<lambda>f. m_state (fiber_at (fs s) f)) (m_fibers s) = Inr (b, None, m_fibers s)"
  shows "\<exists>s'. run_top tid fnew stk cfg s = Inr (s', b) \<and> run_inv m r s'
    \<and> (pc s' = InIdle \<or> pc s' = Exited \<and> m_state (fiber_at (fs s) (idle_fiber s)) = TERM')"
proof (cases "m_state (fiber_at (fs s) (idle_fiber s)) = TERM'")
  case True
  have "run_inv m r (s\<lparr>pc := Exited\<rparr>)"
    using inv top by (auto simp: run_inv_def queue_ok_def own_ok_def enterable_def)
  then show ?thesis using pick True by (simp add: run_top_def)
next
  case False
  note t = pc_at_top [OF inv top]
  let ?i = "idle_fiber s"
  have en: "enterable m r s ?i" and st: "m_state (fiber_at (fs s) ?i) \<in> {INIT, HOLD, READY}"
    using t(7) top False by (auto simp: own_ok_def)
  note e = enter_own [OF en t(4,5,1) st]
  let ?s' = "s\<lparr>m_idleThreadCount := 1, fs := entered m ?i (fs s), pc := InIdle\<rparr>"
  have "run_inv m r ?s'"
    using t e(2) top inv
    by (auto simp: run_inv_def queue_ok_def own_ok_def enterable_def entered_views [OF en t(4)])
  then show ?thesis using pick False e(1) t(3) by (simp add: run_top_def)
qed

lemma queue_without:
  assumes "queue_ok m r s" and "m_fibers s = xs @ t # ys"
  shows "queue_ok m r (s\<lparr>m_fibers := xs @ ys\<rparr>)"
    and "ft_fiber t = Some p \<Longrightarrow> p \<notin> set (queued (s\<lparr>m_fibers := xs @ ys\<rparr>))"
    and "ft_fiber t = Some p \<Longrightarrow> p \<in> set (queued s)" and "is_task t"
    and "set (queued (s\<lparr>m_fibers := xs @ ys\<rparr>)) \<subseteq> set (queued s)"
  using assms
  by (auto simp: queue_ok_def queued_def enterable_def map_filter_def split: if_splits)

lemma run_inv_top_fiber:
  assumes inv: "run_inv m r s" and top: "pc s = AtTop"
    and pick: "pick_task tid (\<lambda>f. m_state (fiber_at (fs s) f)) (m_fibers s) = Inr (b, Some t, xs @ ys)"
    and q: "m_fibers s = xs @ t # ys" and p: "ft_fiber t = Some p"
    and ne: "m_state (fiber_at (fs s) p) \<noteq> EXEC"
  shows "\<exists>s'. run_top tid fnew stk cfg s = Inr (s', b) \<and> run_inv m r s' \<and> pc s' = InFiber p"
proof -
  note t = pc_at_top [OF inv top]
  have p': "p \<in> set (queued s)" by (rule queue_without(3) [OF t(6) q p])
  then have en: "enterable m r s p" and st: "m_state (fiber_at (fs s) p) \<in> {INIT, HOLD, READY}"
    and ni: "p \<noteq> idle_fiber s" and nc: "cb_fiber s \<noteq> Some p"
    using t(6) ne top by (cases "m_state (fiber_at (fs s) p)"; auto simp: queue_ok_def)+
  note e = enter_own [OF en t(4,5,1) st]
  let ?s' = "s\<lparr>m_fibers := xs @ ys, m_activeThreadCount := 1, fs := entered m p (fs s), pc := InFiber p\<rparr>"
  have "queue_ok m r (s\<lparr>m_fibers := xs @ ys\<rparr>)" by (rule queue_without(1) [OF t(6) q])
  then have "queue_ok m r ?s'"
    using top by (auto simp: queue_ok_def enterable_def entered_views [OF en t(4)])
  then have "run_inv m r ?s'"
    using t e(2) top inv ni nc en
    by (auto simp: run_inv_def own_ok_def enterable_def entered_views [OF en t(4)])
  then show ?thesis using pick p st e(1) t(2) by (auto simp: run_top_def Let_def)
qed

lemma run_inv_enter_cb:
  assumes inv: "run_inv m r s" and top: "pc s = AtTop" and c: "cb_fiber s = Some c"
  shows "swapIn c 0 (fs s) = Inr (entered m c (fs s))"
    and "run_inv m r (s\<lparr>m_activeThreadCount := 1, fs := entered m c (fs s), pc := InCb c\<rparr>)"
proof -
  note t = pc_at_top [OF inv top]
  have en: "enterable m r s c" and st: "m_state (fiber_at (fs s) c) \<in> {INIT, HOLD, READY}"
    using t(7) top c by (auto simp: own_ok_def)
  note e = enter_own [OF en t(4,5,1) st]
  show "swapIn c 0 (fs s) = Inr (entered m c (fs s))" by (rule e(1))
  show "run_inv m r (s\<lparr>m_activeThreadCount := 1, fs := entered m c (fs s), pc := InCb c\<rparr>)"
    using t e(2) top inv c
    by (auto simp: run_inv_def queue_ok_def own_ok_def enterable_def entered_views [OF en t(4)])
qed

text \<open>Making a fiber disturbs neither the queue nor the loop.\<close>

lemma run_inv_new_fiber:
  assumes inv: "run_inv m r s" and new: "p \<noteq> m" "m_stack (fiber_at (fs s) p) = 0"
    and f': "Fiber_new p cb sz ris cfg stk 0 (fs s) = Inr f'"
  shows "run_inv m r (s\<lparr>fs := f'\<rparr>)"
    and "p \<noteq> r" and "p \<noteq> idle_fiber s" and "p \<notin> set (queued s)"
proof -
  have fi: "fiber_inv m (fs s)" and sf: "t_scheduler_fiber (fs s) = Some r"
    and q: "queue_ok m r s" and o: "own_ok m r s" and c: "pc_ok m r s (pc s)"
    using inv by (auto simp: run_inv_def)
  note k = Fiber_new_keeps [OF fi new f']
  let ?s' = "s\<lparr>fs := f'\<rparr>"
  have other: "fiber_at f' x = fiber_at (fs s) x" if "enterable m r s x" for x
    using that new(2) k(8) [of x] by (cases "x = p") (auto simp: enterable_def)
  have en: "enterable m r ?s' x" if "enterable m r s x" for x
    using that other [OF that] by (simp add: enterable_def)
  show "p \<noteq> r" using new fi sf by (auto simp: fiber_inv_def main_ok_def)
  show "p \<noteq> idle_fiber s" using new(2) o by (auto simp: own_ok_def enterable_def)
  show "p \<notin> set (queued s)" using new(2) q by (auto simp: queue_ok_def enterable_def)
  have "queue_ok m r ?s'" using q en other by (auto simp: queue_ok_def)
  moreover have "own_ok m r ?s'" using o en other by (auto simp: own_ok_def)
  moreover have "pc_ok m r ?s' (pc s)" using c en k(2) by (cases "pc s") auto
  ultimately show "run_inv m r ?s'" using k sf by (simp add: run_inv_def)
qed

lemma run_inv_top_cb:
  assumes inv: "run_inv m r s" and top: "pc s = AtTop"
    and pick: "pick_task tid (\<lambda>f. m_state (fiber_at (fs s) f)) (m_fibers s) = Inr (b, Some t, xs @ ys)"
    and q: "m_fibers s = xs @ t # ys" and nf: "ft_fiber t = None" and cb: "ft_cb t = Some cb"
    and new: "cb_fiber s = None \<Longrightarrow> fnew \<noteq> m \<and> m_stack (fiber_at (fs s) fnew) = 0 \<and> stk \<noteq> 0"
    and c: "c = (case cb_fiber s of Some c \<Rightarrow> c | None \<Rightarrow> fnew)"
  shows "\<exists>s'. run_top tid fnew stk cfg s = Inr (s', b) \<and> run_inv m r s' \<and> pc s' = InCb c
    \<and> m_fibers s' = xs @ ys \<and> cb_fiber s' = Some c \<and> idle_fiber s' = idle_fiber s \<and> m_fcb (fiber_at (fs s') c) = Some cb
    \<and> m_state (fiber_at (fs s') (idle_fiber s)) = m_state (fiber_at (fs s) (idle_fiber s))"
proof -
  note t = pc_at_top [OF inv top]
  have q': "queue_ok m r (s\<lparr>m_fibers := xs @ ys\<rparr>)" by (rule queue_without(1) [OF t(6) q])
  have "\<exists>f1. (case cb_fiber s of
        Some c \<Rightarrow> rbind (Fiber_reset c (Some cb) 0 (fs s)) (\<lambda>f1. Inr (c, f1))
      | None \<Rightarrow> rbind (Fiber_new fnew (Some cb) 0 True cfg stk 0 (fs s)) (\<lambda>f1. Inr (fnew, f1)))
      = Inr (c, f1) \<and> run_inv m r (s\<lparr>m_fibers := xs @ ys, fs := f1, cb_fiber := Some c\<rparr>)
      \<and> c \<noteq> idle_fiber s \<and> fiber_at f1 (idle_fiber s) = fiber_at (fs s) (idle_fiber s) \<and> m_fcb (fiber_at f1 c) = Some cb"
  proof (cases "cb_fiber s")
    case None
    note nw = new [OF None]
    have new: "fnew \<noteq> m" "m_stack (fiber_at (fs s) fnew) = 0" "stk \<noteq> 0" using nw by simp_all
    obtain f1 where f1: "Fiber_new fnew (Some cb) 0 True cfg stk 0 (fs s) = Inr f1"
      by (simp add: Fiber_new_result)
    note k = Fiber_new_keeps [OF t(5) new(1,2) f1]
    note n = run_inv_new_fiber [OF inv new(1,2) f1]
    let ?s' = "s\<lparr>m_fibers := xs @ ys, fs := f1, cb_fiber := Some fnew\<rparr>"
    have "queue_ok m r (s\<lparr>fs := f1, m_fibers := xs @ ys\<rparr>)"
      using n(1) q by (intro queue_without(1) [where t = t]) (simp_all add: run_inv_def)
    moreover have "fnew \<notin> set (queued (s\<lparr>m_fibers := xs @ ys\<rparr>))"
      using n(4) queue_without(5) [OF t(6) q] by blast
    ultimately have "queue_ok m r ?s'"
      using None top by (auto simp: queue_ok_def enterable_def)
    moreover have "own_ok m r ?s'"
      using n k None top new(1,3) by (simp add: run_inv_def own_ok_def enterable_def)
    ultimately have "run_inv m r ?s'"
      using t top k by (simp add: run_inv_def)
    moreover have "m_fcb (fiber_at f1 fnew) = Some cb" using f1 by (auto simp: Fiber_new_result)
    moreover have "fiber_at f1 (idle_fiber s) = fiber_at (fs s) (idle_fiber s)" by (rule k(8)) (use n(3) in simp)
    ultimately show ?thesis using None f1 n(3) by (simp add: c)
  next
    case (Some x)
    have en: "enterable m r s x" "m_state (fiber_at (fs s) x) = INIT" "x \<noteq> idle_fiber s"
      using t(7) Some top by (auto simp: own_ok_def)
    let ?g = "(fiber_at (fs s) x)\<lparr>m_fcb := Some cb, m_ctx := AtMainFunc, m_state := INIT\<rparr>"
    have f1: "Fiber_reset x (Some cb) 0 (fs s) = Inr (set_fiber x ?g (fs s))"
      using en by (simp add: Fiber_reset_def enterable_def)
    have "fiber_inv m (set_fiber x ?g (fs s))"
      by (rule set_fiber_inv_init [OF t(5)]) (use en t(1,4) in \<open>auto simp: enterable_def\<close>)
    then have "run_inv m r (s\<lparr>m_fibers := xs @ ys, fs := set_fiber x ?g (fs s), cb_fiber := Some x\<rparr>)"
      unfolding run_inv_def
      using t q' top Some en by (auto simp: queue_ok_def own_ok_def enterable_def)
    then show ?thesis using Some f1 en(3) by (simp add: c)
  qed
  then obtain f1 where f1: "(case cb_fiber s of
        Some c \<Rightarrow> rbind (Fiber_reset c (Some cb) 0 (fs s)) (\<lambda>f1. Inr (c, f1))
      | None \<Rightarrow> rbind (Fiber_new fnew (Some cb) 0 True cfg stk 0 (fs s)) (\<lambda>f1. Inr (fnew, f1)))
      = Inr (c, f1)" and inv1: "run_inv m r (s\<lparr>m_fibers := xs @ ys, fs := f1, cb_fiber := Some c\<rparr>)"
      and v: "c \<noteq> idle_fiber s" "fiber_at f1 (idle_fiber s) = fiber_at (fs s) (idle_fiber s)" "m_fcb (fiber_at f1 c) = Some cb"
    by blast
  let ?s1 = "s\<lparr>m_fibers := xs @ ys, fs := f1, cb_fiber := Some c\<rparr>"
  have "run_top tid fnew stk cfg s
      = Inr (?s1\<lparr>m_activeThreadCount := 1, fs := entered m c f1, pc := InCb c\<rparr>, b)"
    using pick nf cb f1 run_inv_enter_cb(1) [OF inv1] top t(2)
    by (cases "cb_fiber s") (auto simp: run_top_def Let_def rbind_Inr_iff)
  moreover have "run_inv m r (?s1\<lparr>m_activeThreadCount := 1, fs := entered m c f1, pc := InCb c\<rparr>)"
    using run_inv_enter_cb(2) [OF inv1, of c] top by simp
  moreover have "enterable m r ?s1 c" "t_scheduler_fiber (fs ?s1) = Some r"
    using inv1 top by (simp_all add: run_inv_def own_ok_def)
  note entered_views(1) [OF this]
  ultimately show ?thesis using v by (simp add: entered_def)
qed

lemma run_inv_top:
  assumes inv: "run_inv m r s" and top: "pc s = AtTop"
    and new: "fnew \<noteq> m" "m_stack (fiber_at (fs s) fnew) = 0" "stk \<noteq> 0"
  shows "\<exists>s' b. run_top tid fnew stk cfg s = Inr (s', b) \<and> run_inv m r s'"
proof -
  let ?st = "\<lambda>f. m_state (fiber_at (fs s) f)"
  have tasks: "\<forall>t \<in> set (m_fibers s). is_task t"
    using pc_at_top(6) [OF inv top] by (simp add: queue_ok_def)
  obtain b ft rest where p: "pick_task tid ?st (m_fibers s) = Inr (b, ft, rest)"
    using pick_takeWhile [OF tasks] by (auto simp: Let_def)
  from tasks p show ?thesis
  proof (cases rule: pick_cases)
    case 1
    then show ?thesis using run_inv_top_idle [OF inv top, of tid b] p by blast
  next
    case (2 t xs ys)
    show ?thesis
    proof (cases "ft_fiber t")
      case None
      then obtain cb where "ft_cb t = Some cb" using tasks 2 by (auto simp: is_task_def)
      then show ?thesis
        using run_inv_top_cb [OF inv top _ 2(2) None _ _ refl, of tid b cb fnew stk cfg] p 2 new by blast
    next
      case (Some f)
      then show ?thesis
        using run_inv_top_fiber [OF inv top _ 2(2) Some, of tid b fnew stk cfg] p 2
        by (fastforce simp: eligible_def)
    qed
  qed
qed

lemma run_inv_schedule:
  assumes inv: "run_inv m r s" and sch: "schedule t s = (s', b)"
    and t: "\<And>p. ft_fiber t = Some p \<Longrightarrow> enterable m r s p \<and> p \<noteq> idle_fiber s \<and> p \<notin> set (queued s)
      \<and> m_state (fiber_at (fs s) p) \<notin> {TERM', EXCEPT} \<and> (cb_fiber s \<noteq> Some p \<or> pc s = InCb p)"
  shows "run_inv m r s'"
proof -
  have s': "s' = s\<lparr>m_fibers := m_fibers s @ (if is_task t then [t] else [])\<rparr>"
    using sch schedule_frame [of t s] by simp
  have en: "enterable m r (s\<lparr>m_fibers := q\<rparr>) p = enterable m r s p" for q p
    by (simp add: enterable_def)
  have "queue_ok m r s'"
    using inv t unfolding s'
    by (auto simp: run_inv_def queue_ok_def en queued_def [symmetric] map_filter_def [of _ "[_]"]
        split: option.splits)
  moreover have "own_ok m r s'" using inv by (simp add: s' run_inv_def own_ok_def en)
  moreover have "pc_ok m r s' (pc s')" using inv by (cases "pc s") (simp_all add: s' run_inv_def en)
  ultimately show ?thesis using inv by (simp add: run_inv_def s')
qed

lemma run_inv_step: "run_step m tid s s' \<Longrightarrow> run_inv m r s \<Longrightarrow> run_inv m r s'"
proof (induction rule: run_step.induct)
  case (rs_top s fnew stk cfg s' b)
  then show ?case using run_inv_top [of m r s fnew stk tid cfg] by auto
next
  case (rs_resume s p how s' b)
  then show ?case using run_inv_resume [of m r s p how] by auto
next
  case (rs_new p s stk cb sz ris cfg f')
  then show ?case using run_inv_new_fiber(1) by blast
next
  case (rs_schedule t s s' b)
  show ?case
    by (rule run_inv_schedule [OF rs_schedule(3,2)])
      (use rs_schedule in \<open>auto simp: run_inv_def\<close>)
qed

lemma run_inv_start:
  assumes f: "fiber_inv m f" "t_scheduler_fiber f = Some r" "running f = flow_of m r"
    and new: "fidle \<noteq> m" "m_stack (fiber_at f fidle) = 0" "stk \<noteq> 0"
    and f': "Fiber_new fidle icb 0 True cfg stk 0 f = Inr f'"
    and q: "\<forall>t \<in> set (m_fibers s). is_task t \<and> ft_fiber t = None"
    and n: "m_activeThreadCount s = 0" "m_idleThreadCount s = 0"
  shows "run_inv m r (s\<lparr>fs := f', idle_fiber := fidle, cb_fiber := None, pc := AtTop\<rparr>)"
proof -
  note k = Fiber_new_keeps [OF f(1) new(1,2) f']
  have "fidle \<noteq> r" using f new by (auto simp: fiber_inv_def main_ok_def)
  moreover have "queued s = []" using q by (auto simp: queued_def map_filter_def filter_empty_conv)
  ultimately show ?thesis
    using f k new q n by (auto simp: run_inv_def queue_ok_def own_ok_def enterable_def queued_def)
qed

lemma run_reach_inv: "run_reach m tid s \<Longrightarrow> \<exists>r. run_inv m r s"
proof (induction rule: run_reach.induct)
  case (rr_worker s0 fidle stk me cfg icb s)
  obtain f1 where f1: "Fibers.GetThis m 0 (fs s0) = Inr (f1, m)"
    using rr_worker(1) by (simp add: GetThis_def fiber_init_def Fiber_main_def SetThis_def set_fiber_def)
  then have reach: "fiber_reach m f1" using fr_start rr_worker(1) by simp
  have f1': "t_scheduler_fiber f1 = None" "running f1 = ThreadFlow" "m_stack (fiber_at f1 fidle) = 0"
    using f1 rr_worker(1,6)
    by (auto simp: GetThis_def fiber_init_def Fiber_main_def SetThis_def set_fiber_def no_fiber_def)
  let ?f2 = "f1\<lparr>t_scheduler_fiber := Some m\<rparr>"
  have reach2: "fiber_reach m ?f2" by (rule fr_step [OF reach fs_designate]) (use f1' in auto)
  obtain f' where f': "Fiber_new fidle (Some icb) 0 True cfg stk 0 ?f2 = Inr f'"
    by (simp add: Fiber_new_result)
  have "s = setThis me (s0\<lparr>t_hook_on := True\<rparr>)\<lparr>fs := f', idle_fiber := fidle, cb_fiber := None, pc := AtTop\<rparr>"
    using rr_worker(8) f1 f' rr_worker(2) by (simp add: run_enter_def setThis_def)
  moreover have "run_inv m m (setThis me (s0\<lparr>t_hook_on := True\<rparr>)\<lparr>fs := f', idle_fiber := fidle, cb_fiber := None, pc := AtTop\<rparr>)"
    by (rule run_inv_start [OF fiber_reach_inv [OF reach2] _ _ _ _ _ f'])
      (use f1' rr_worker in \<open>simp_all add: setThis_def flow_of_def\<close>)
  ultimately show ?case by blast
next
  case (rr_root s0 r fidle stk me cfg icb s)
  obtain f' where f': "Fiber_new fidle (Some icb) 0 True cfg stk 0 (fs s0) = Inr f'"
    by (simp add: Fiber_new_result)
  have "s = setThis me (s0\<lparr>t_hook_on := True\<rparr>)\<lparr>fs := f', idle_fiber := fidle, cb_fiber := None, pc := AtTop\<rparr>"
    using rr_root(11) f' rr_root(2) by (simp add: run_enter_def setThis_def)
  moreover have "r \<noteq> m" using fiber_reach_inv [OF rr_root(1)] rr_root(4) running_resumer_ctx(1) by blast
  then have "run_inv m r (setThis me (s0\<lparr>t_hook_on := True\<rparr>)\<lparr>fs := f', idle_fiber := fidle, cb_fiber := None, pc := AtTop\<rparr>)"
    by (intro run_inv_start [OF fiber_reach_inv [OF rr_root(1)] _ _ _ _ _ f'])
      (use rr_root in \<open>simp_all add: setThis_def flow_of_def\<close>)
  ultimately show ?case by blast
next
  case (rr_step s s')
  then show ?case using run_inv_step by blast
qed

section \<open>A fiber stuck in the queue\<close>

definition stuck :: "faddr \<Rightarrow> 'c runner \<Rightarrow> bool" where
  "stuck p s \<longleftrightarrow> p \<in> set (queued s) \<and> m_state (fiber_at (fs s) p) = EXEC \<and> inside s \<noteq> Some p"

lemma swapIn_other_state:
  assumes "swapIn x rc f = Inr f2" and "x \<noteq> p"
  shows "m_state (fiber_at f2 p) = m_state (fiber_at f p)"
  using assms
  by (auto simp: swapIn_def Let_def deref_def swapcontext_def activate_def set_state_def set_fiber_def
      SetThis_def rbind_Inr_iff SYLAR_ASSERT_Inr_iff split: option.splits ucontext.splits if_splits)

lemma stuck_top:
  assumes inv: "run_inv m r s" and top: "pc s = AtTop" and st: "stuck p s"
    and new: "fnew \<noteq> m" "m_stack (fiber_at (fs s) fnew) = 0" "stk \<noteq> 0"
    and run: "run_top tid fnew stk cfg s = Inr (s', b)"
  shows "stuck p s'"
proof -
  note t = pc_at_top [OF inv top]
  have p: "p \<in> set (queued s)" "m_state (fiber_at (fs s) p) = EXEC" using st by (auto simp: stuck_def)
  have pe: "enterable m r s p" "p \<noteq> idle_fiber s" "cb_fiber s \<noteq> Some p"
    using t(6) p top by (auto simp: queue_ok_def)
  have pf: "p \<noteq> fnew" using pe new by (auto simp: enterable_def)
  let ?st = "\<lambda>f. m_state (fiber_at (fs s) f)"
  have tasks: "\<forall>t \<in> set (m_fibers s). is_task t" using t(6) by (simp add: queue_ok_def)
  obtain b' ft rest where pk: "pick_task tid ?st (m_fibers s) = Inr (b', ft, rest)"
    using run by (auto simp: run_top_def rbind_Inr_iff)
  from tasks pk have rest: "p \<in> set (List.map_filter ft_fiber rest)
      \<and> (\<forall>t. ft = Some t \<longrightarrow> ft_fiber t \<noteq> Some p)"
  proof (cases rule: pick_cases)
    case 1
    then show ?thesis using p by (simp add: queued_def)
  next
    case (2 t xs ys)
    have "ft_fiber t \<noteq> Some p" using 2(4) p(2) by (auto simp: eligible_def)
    then show ?thesis using p(1) 2 by (auto simp: queued_def map_filter_def split: if_splits)
  qed
  have sw: "m_state (fiber_at f2 p) = m_state (fiber_at f p)"
    if "swapIn x 0 f = Inr f2" and "x \<noteq> p" for x f f2
    using swapIn_other_state that by blast
  show ?thesis
  proof (cases "\<exists>t x. ft = Some t \<and> ft_fiber t = Some x")
    case True
    then obtain t x where x: "ft = Some t" "ft_fiber t = Some x" by blast
    then obtain f1 where "swapIn x 0 (fs s) = Inr f1"
      "s' = s\<lparr>m_fibers := rest, m_activeThreadCount := m_activeThreadCount s + 1, fs := f1, pc := InFiber x\<rparr>"
      using run pk by (auto simp: run_top_def Let_def rbind_Inr_iff split: if_splits)
    moreover from this have "m_state (fiber_at f1 p) = EXEC" using sw [of x "fs s" f1] rest x p by auto
    ultimately show ?thesis using rest x p by (auto simp: stuck_def inside_def queued_def)
  next
    case nf: False
    show ?thesis
    proof (cases "\<exists>t cb. ft = Some t \<and> ft_cb t = Some cb")
      case True
      then obtain t cb where x: "ft = Some t" "ft_cb t = Some cb" by blast
      with nf have "ft_fiber t = None" by auto
      then obtain c f1 f2 where c: "(case cb_fiber s of
           Some c \<Rightarrow> rbind (Fiber_reset c (Some cb) 0 (fs s)) (\<lambda>f1. Inr (c, f1))
         | None \<Rightarrow> rbind (Fiber_new fnew (Some cb) 0 True cfg stk 0 (fs s)) (\<lambda>f1. Inr (fnew, f1)))
           = Inr (c, f1)" "swapIn c 0 f1 = Inr f2"
        "s' = s\<lparr>m_fibers := rest, cb_fiber := Some c,
           m_activeThreadCount := m_activeThreadCount s + 1, fs := f2, pc := InCb c\<rparr>"
        using run pk x by (auto simp: run_top_def Let_def rbind_Inr_iff cong: option.case_cong)
      have cp: "c \<noteq> p" and "m_state (fiber_at f1 p) = EXEC"
        using c(1) pe(3) pf p(2)
        by (auto simp: rbind_Inr_iff Fiber_new_result Fiber_reset_def Let_def SYLAR_ASSERT_Inr_iff
            split: option.splits)
      then show ?thesis using sw [OF c(2) cp] rest c(3) by (auto simp: stuck_def inside_def queued_def)
    next
      case False
      then show ?thesis
        using run pk nf rest p pe sw [of "idle_fiber s" "fs s"]
        by (cases ft) (auto simp: run_top_def Let_def rbind_Inr_iff stuck_def inside_def queued_def
            split: if_splits)
    qed
  qed
qed

lemma stuck_resume:
  assumes inv: "run_inv m r s" and ins: "inside s = Some x" and st: "stuck p s"
    and run: "run_resume how s = Inr (s', b)"
  shows "stuck p s'"
proof -
  note i = inside_facts [OF inv ins]
  have xp: "x \<noteq> p" and p: "p \<in> set (queued s)" "m_state (fiber_at (fs s) p) = EXEC"
    using st ins by (auto simp: stuck_def)
  obtain f where lf: "leave_fiber how x (fs s) = Inr f"
    "\<And>q. m_state (fiber_at f q) = (if q = x then left_state how else m_state (fiber_at (fs s) q))"
    using leave_outcome [OF i(4,1,2,3), of how] by blast
  have fp: "m_state (fiber_at f p) = EXEC" using lf(2) xp p by simp
  have after: "run_after (s\<lparr>fs := f\<rparr>) = Inr (s', b)" using run ins lf(1) by (simp add: run_resume_def)
  show ?thesis
    using after ins fp p xp
    by (cases "pc s")
      (auto simp: run_after_def Let_def stuck_def inside_def schedule_def scheduleNoLock_def
        Fiber_reset_def rbind_Inr_iff SYLAR_ASSERT_Inr_iff queued_def set_fiber_def split: if_splits)
qed

lemma stuck_step: "run_step m tid s s' \<Longrightarrow> run_inv m r s \<Longrightarrow> stuck p s \<Longrightarrow> stuck p s'"
proof (induction rule: run_step.induct)
  case (rs_top s fnew stk cfg s' b)
  then show ?case using stuck_top by blast
next
  case (rs_resume s x how s' b)
  then show ?case using stuck_resume by blast
next
  case (rs_new x s stk cb sz ris cfg f')
  have "p \<noteq> x" using run_inv_new_fiber(4) [OF rs_new(5,1,2,4)] rs_new(6) by (auto simp: stuck_def)
  then show ?case using rs_new(4,6) by (auto simp: Fiber_new_result stuck_def inside_def split: run_pc.splits)
next
  case (rs_schedule t s s' b)
  then show ?case
    using schedule_frame [of t s] by (auto simp: stuck_def inside_def queued_def split: run_pc.splits)
qed

lemma stuck_forever:
  assumes "(run_step m tid)\<^sup>*\<^sup>* s s'" and "run_inv m r s" and "stuck p s"
  shows "stuck p s' \<and> run_inv m r s'"
  using assms by (induction rule: rtranclp_induct) (blast intro: stuck_step run_inv_step)+

lemma stuck_not_stopping: "stuck p s \<Longrightarrow> \<not> stopping s"
  by (auto simp: stuck_def stopping_def queued_def map_filter_def)

section \<open>A loop at work\<close>

text \<open>The run of the witnesses: worker thread 5 with main fiber 10 and idle fiber 12, one function
  scheduled before. It takes the function (on a new fiber, 13), which yields with
  \<open>YieldToHold\<close>; then fiber 13 is scheduled and taken.\<close>

definition demo_run_pre :: "nat runner" where
  "demo_run_pre = \<lparr>m_threads = [], m_fibers = [cb_task (Some 7) (-1)], m_name = ''w'', m_rootFiber = None,
     m_threadIds = [], m_threadCount = 1, m_activeThreadCount = 0, m_idleThreadCount = 0,
     m_stopping = True, m_autostop = False, m_rootThread = -1, t_scheduler = None, fs = fiber_init,
     t_hook_on = False, t_named = None,
     idle_fiber = 0, cb_fiber = None, pc = AtTop\<rparr>"

definition demo_run0 :: "nat runner" where
  "demo_run0 = projr (run_enter 1 5 10 12 500 1024 9 demo_run_pre)"

definition demo_run1 :: "nat runner" where
  "demo_run1 = fst (projr (run_top 5 13 501 1024 demo_run0))"

definition demo_run2 :: "nat runner" where
  "demo_run2 = fst (projr (run_resume LHold demo_run1))"

definition demo_run3 :: "nat runner" where
  "demo_run3 = fst (schedule (fiber_task (Some 13) (-1)) demo_run2)"

definition demo_run4 :: "nat runner" where
  "demo_run4 = fst (projr (run_top 5 14 502 1024 demo_run3))"

lemmas run_defs = demo_run_pre_def run_enter_def setThis_def GetThis_def Fiber_main_def Fiber_new_def
  fiber_init_def no_fiber_def SetThis_def set_fiber_def set_state_def cb_task_def fiber_task_def
  run_top_def is_task_def Let_def swapIn_def swapcontext_def deref_def activate_def run_resume_def
  inside_def leave_fiber_def YieldToHold_def swapOut_def swapOut_at_def run_after_def
  schedule_def scheduleNoLock_def

lemma demo_run0_reach: "run_reach 10 5 demo_run0" and demo_run0_simps:
  "m_fibers demo_run0 = [cb_task (Some 7) (-1)]" "pc demo_run0 = AtTop" "cb_fiber demo_run0 = None"
  "idle_fiber demo_run0 = 12" "m_stack (fiber_at (fs demo_run0) 13) = 0"
proof -
  have e: "\<exists>s. run_enter 1 5 10 12 500 1024 9 demo_run_pre = Inr s"
    by (simp add: run_defs)
  then have "run_enter 1 5 10 12 500 1024 9 demo_run_pre = Inr demo_run0"
    by (auto simp: demo_run0_def)
  then show "run_reach 10 5 demo_run0"
    by (intro rr_worker [where fidle = 12 and stk = 500]) (simp_all add: demo_run_pre_def cb_task_def is_task_def)
qed (simp_all add: demo_run0_def run_defs)

lemma demo_run1: "run_reach 10 5 demo_run1" "pc demo_run1 = InCb 13" "m_fibers demo_run1 = []"
  "run_top 5 13 501 1024 demo_run0 = Inr (demo_run1, False)"
proof -
  have "\<exists>s. run_top 5 13 501 1024 demo_run0 = Inr (s, False)"
    by (simp add: demo_run0_def run_defs)
  then show r: "run_top 5 13 501 1024 demo_run0 = Inr (demo_run1, False)"
    by (auto simp: demo_run1_def)
  show "run_reach 10 5 demo_run1"
    by (rule rr_step [OF demo_run0_reach], rule rs_top [OF _ _ _ _ r]) (simp_all add: demo_run0_simps)
qed (simp_all add: demo_run1_def demo_run0_def run_defs)

lemma demo_run2: "run_reach 10 5 demo_run2" "pc demo_run2 = AtTop" "m_fibers demo_run2 = []"
  "m_state (fiber_at (fs demo_run2) 13) = HOLD" "cb_fiber demo_run2 = None"
  "m_stack (fiber_at (fs demo_run2) 13) = 501" "m_runInScheduler (fiber_at (fs demo_run2) 13)"
  "t_scheduler_fiber (fs demo_run2) = Some 10" "idle_fiber demo_run2 = 12"
proof -
  have "\<exists>s. run_resume LHold demo_run1 = Inr (s, False)"
    by (simp add: demo_run1_def demo_run0_def run_defs)
  then have r: "run_resume LHold demo_run1 = Inr (demo_run2, False)"
    by (auto simp: demo_run2_def)
  show "run_reach 10 5 demo_run2"
    by (rule rr_step [OF demo_run1(1)], rule rs_resume [OF _ _ _ r]) (simp_all add: demo_run1 inside_def)
qed (simp_all add: demo_run2_def demo_run1_def demo_run0_def run_defs)

lemma demo_run3: "run_reach 10 5 demo_run3" "pc demo_run3 = AtTop"
  "m_stack (fiber_at (fs demo_run3) 14) = 0"
proof -
  have r: "schedule (fiber_task (Some 13) (-1)) demo_run2 = (demo_run3, True)"
    by (simp add: demo_run3_def schedule_def scheduleNoLock_def Let_def demo_run2(3))
  show "run_reach 10 5 demo_run3"
    by (rule rr_step [OF demo_run2(1)], rule rs_schedule [OF _ r])
      (simp add: fiber_task_def enterable_def demo_run2 queued_def map_filter_def)
qed (simp_all add: demo_run3_def demo_run2_def demo_run1_def demo_run0_def run_defs)

lemma demo_run4: "run_reach 10 5 demo_run4" "pc demo_run4 = InFiber 13" "m_fibers demo_run4 = []"
proof -
  have "\<exists>s. run_top 5 14 502 1024 demo_run3 = Inr (s, False)"
    by (simp add: demo_run3_def demo_run2_def demo_run1_def demo_run0_def run_defs)
  then have r: "run_top 5 14 502 1024 demo_run3 = Inr (demo_run4, False)"
    by (auto simp: demo_run4_def)
  show "run_reach 10 5 demo_run4"
    by (rule rr_step [OF demo_run3(1)], rule rs_top [OF _ _ _ _ r]) (simp_all add: demo_run3)
qed (simp_all add: demo_run4_def demo_run3_def demo_run2_def demo_run1_def demo_run0_def run_defs)

section \<open>Properties\<close>

text \<open>The scan of the queue takes the first task that may run here (not bound to another
  thread, its fiber not executing) and leaves all others queued in their order; it asks for a
  wake-up exactly when it passed a task of another thread, and takes nothing only if no task
  may run here.\<close>

theorem sched_pick_exact:
  assumes "\<forall>t \<in> set q. is_task t"
  shows "case pick_task tid st q of
      Inl e \<Rightarrow> False
    | Inr (tickle_me, None, rest) \<Rightarrow> rest = q \<and> filter (eligible tid st) q = []
        \<and> (tickle_me \<longleftrightarrow> filter (foreign tid) q \<noteq> [])
    | Inr (tickle_me, Some t, rest) \<Rightarrow> \<exists>xs ys. q = xs @ t # ys \<and> rest = xs @ ys \<and> eligible tid st t
        \<and> filter (eligible tid st) xs = [] \<and> (tickle_me \<longleftrightarrow> filter (foreign tid) xs \<noteq> [])"
proof -
  let ?skip = "takeWhile (\<lambda>t. \<not> eligible tid st t) q" and ?others = "dropWhile (\<lambda>t. \<not> eligible tid st t) q"
  have skip: "filter (eligible tid st) ?skip = []"
    by (auto simp: filter_empty_conv dest: set_takeWhileD)
  have q: "q = ?skip @ ?others" by simp
  show ?thesis
  proof (cases ?others)
    case Nil
    then have sk: "?skip = q" using q by (metis append_Nil2)
    show ?thesis
      using skip unfolding pick_takeWhile [OF assms] Let_def Nil sk by (simp add: filter_empty_conv)
  next
    case (Cons t ys)
    then have e: "eligible tid st t" by (metis dropWhile_eq_Cons_conv)
    have "q = ?skip @ t # ys" using q Cons by metis
    then have "\<exists>xs ys'. q = xs @ t # ys' \<and> ?skip @ ys = xs @ ys' \<and> eligible tid st t
        \<and> filter (eligible tid st) xs = []
        \<and> ((\<exists>t \<in> set ?skip. foreign tid t) \<longleftrightarrow> filter (foreign tid) xs \<noteq> [])"
      using e skip by (intro exI [of _ ?skip] exI [of _ ys]) (simp add: filter_empty_conv)
    then show ?thesis unfolding pick_takeWhile [OF assms] Let_def using Cons by simp
  qed
qed

theorem sched_pick_exact_witness:
  "case pick_task 5 (\<lambda>_. HOLD) [cb_task (Some 1) 4, cb_task (Some (2::nat)) (-1)] of
     Inr (b, Some t, rest) \<Rightarrow> b \<and> ft_cb t = Some 2 | _ \<Rightarrow> False"
  using sched_pick_exact [of "[cb_task (Some 1) 4, cb_task (Some (2::nat)) (-1)]" 5 "\<lambda>_. HOLD"]
  by (simp add: cb_task_def is_task_def)

text \<open>C18: whatever the interleaving of the threads' locked sections, no scan faults; every task
  scheduled, alone or in a range, is taken by one thread at most once or is still queued (as
  multisets); a task bound to a thread is taken by that thread only; unbound functions are taken first
  come, first served across all threads; and nothing but the queue changes.\<close>

theorem sched_queue_exact:
  "\<exists>taken left_over. q_run es (s\<lparr>m_fibers := []\<rparr>) = Inr (taken, s\<lparr>m_fibers := left_over\<rparr>)
    \<and> mset (map snd taken) + mset left_over = mset (puts es)
    \<and> filter (\<lambda>(tid, t). ft_thread t \<noteq> -1 \<and> ft_thread t \<noteq> tid) taken = []
    \<and> filter free_task (map snd taken) @ filter free_task left_over = filter free_task (puts es)"
proof -
  obtain taken q where "q_run es (s\<lparr>m_fibers := []\<rparr>) = Inr (taken, s\<lparr>m_fibers := q\<rparr>)"
    "mset (map snd taken) + mset q = mset (puts es)"
    "\<forall>(tid, t) \<in> set taken. ft_thread t = -1 \<or> ft_thread t = tid"
    "filter free_task (map snd taken) @ filter free_task q = filter free_task (puts es)"
    using q_run_exact [of "s\<lparr>m_fibers := []\<rparr>" es] by auto
  then show ?thesis by (intro exI [of _ taken] exI [of _ q]) (auto simp: filter_empty_conv)
qed

text \<open>C17: the loop of the only scheduling thread of a scheduler, as long as the program keeps to the
  discipline of \<open>run_step\<close> (a fiber is queued at most once at a time and not after it ended, the
  fiber inside is not queued when it leaves otherwise than by \<open>YieldToHold\<close>, \<open>idle\<close> does not throw),
  never faults in a state it can reach: at its head it goes into a task, into \<open>idle\<close> or out of the
  loop, and inside a task the fiber's leaving brings it back to the head. The active and idle counts,
  which no other thread changes then, are 1 exactly while it is in a task or in \<open>idle\<close>. Outside the
  discipline it does fault (\<open>sched_finished_fiber_faults\<close>), and several threads change the counts
  without a lock.\<close>

theorem sched_loop_never_faults:
  assumes reach: "run_reach m tid s"
    and new: "fnew \<noteq> m" "m_stack (fiber_at (fs s) fnew) = 0" "stk \<noteq> 0"
    and disc: "how = LHold \<or> (case inside s of None \<Rightarrow> True | Some p \<Rightarrow> p \<notin> set (queued s))"
    and idle: "pc s \<noteq> InIdle \<or> how \<in> {LReady, LHold, LEnd None}"
  shows "(case pc s of
       AtTop \<Rightarrow> \<exists>s' b. run_top tid fnew stk cfg s = Inr (s', b) \<and> pc s' \<noteq> AtTop
     | Exited \<Rightarrow> True
     | _ \<Rightarrow> \<exists>s' b. run_resume how s = Inr (s', b) \<and> pc s' = AtTop)
    \<and> m_activeThreadCount s = (case pc s of InFiber p \<Rightarrow> 1 | InCb c \<Rightarrow> 1 | _ \<Rightarrow> 0)
    \<and> m_idleThreadCount s = (case pc s of InIdle \<Rightarrow> 1 | _ \<Rightarrow> 0)"
proof -
  obtain r where inv: "run_inv m r s" using run_reach_inv [OF reach] by blast
  have res: "\<exists>s' b. run_resume how s = Inr (s', b) \<and> pc s' = AtTop" if "inside s = Some p" for p
    using run_inv_resume [OF inv that, of how] disc idle that by auto
  have top: "\<exists>s' b. run_top tid fnew stk cfg s = Inr (s', b) \<and> pc s' \<noteq> AtTop" if at: "pc s = AtTop"
  proof -
    obtain s' b where s': "run_top tid fnew stk cfg s = Inr (s', b)"
      using run_inv_top [OF inv at new] by blast
    moreover have "pc s' \<noteq> AtTop"
      using s' by (auto simp: run_top_def Let_def rbind_Inr_iff split: option.splits if_splits)
    ultimately show ?thesis by blast
  qed
  show ?thesis
    using inv res top by (cases "pc s") (auto simp: run_inv_def inside_def)
qed

theorem sched_loop_never_faults_witness:
  "\<exists>s' b. run_resume (LEnd None) demo_run4 = Inr (s', b) \<and> pc s' = AtTop"
proof -
  have q: "queued demo_run4 = []" by (simp add: queued_def demo_run4(3) map_filter_def)
  have f: "m_stack (fiber_at (fs demo_run4) 99) = 0"
    by (simp add: demo_run4_def demo_run3_def demo_run2_def demo_run1_def demo_run0_def run_defs)
  show ?thesis
    using sched_loop_never_faults [OF demo_run4(1), of 99 1 "LEnd None" 0] f q
    by (simp add: demo_run4(2) inside_def)
qed

text \<open>C19: a fiber that was run as a fiber task and gives up control with \<open>YieldToHold\<close> (as every
  hooked call does) never runs again: the loop leaves its state at \<open>EXEC\<close>, so once it is
  scheduled again every scan passes over it. It stays queued for ever, and the scheduler can
  never stop.\<close>

theorem sched_second_hold_starves:
  assumes reach: "run_reach m tid s" and pc: "pc s = InFiber p" and nq: "p \<notin> set (queued s)"
  shows "\<exists>s1 b1 s2 b2. run_resume LHold s = Inr (s1, b1)
    \<and> schedule (fiber_task (Some p) (-1)) s1 = (s2, b2) \<and> run_reach m tid s2
    \<and> (\<forall>s'. (run_step m tid)\<^sup>*\<^sup>* s2 s' \<longrightarrow> p \<in> set (queued s') \<and> inside s' \<noteq> Some p
         \<and> m_state (fiber_at (fs s') p) = EXEC \<and> \<not> stopping s')"
proof -
  obtain r where inv: "run_inv m r s" using run_reach_inv [OF reach] by blast
  have ins: "inside s = Some p" using pc by (simp add: inside_def)
  note i = inside_facts [OF inv ins]
  obtain f where lf: "leave_fiber LHold p (fs s) = Inr f" "t_scheduler_fiber f = Some r"
    "\<And>q. m_stack (fiber_at f q) = m_stack (fiber_at (fs s) q)
       \<and> m_runInScheduler (fiber_at f q) = m_runInScheduler (fiber_at (fs s) q)
       \<and> m_state (fiber_at f q) = (if q = p then left_state LHold else m_state (fiber_at (fs s) q))"
    using leave_outcome [OF i(4,1,2,3), of LHold] by blast
  let ?s1 = "s\<lparr>fs := f, m_activeThreadCount := m_activeThreadCount s - 1, pc := AtTop\<rparr>"
  have s1: "run_resume LHold s = Inr (?s1, False)"
    using pc ins lf(1) by (simp add: run_resume_def run_after_def)
  have reach1: "run_reach m tid ?s1"
    by (rule rr_step [OF reach rs_resume [OF ins _ _ s1]]) (simp_all add: pc)
  define s2 where "s2 = fst (schedule (fiber_task (Some p) (-1)) ?s1)"
  obtain b2 where s2: "schedule (fiber_task (Some p) (-1)) ?s1 = (s2, b2)"
    by (metis s2_def prod.collapse)
  have p: "enterable m r s p" "p \<noteq> idle_fiber s" "cb_fiber s \<noteq> Some p"
    using inv pc by (auto simp: run_inv_def own_ok_def)
  have reach2: "run_reach m tid s2"
    by (rule rr_step [OF reach1 rs_schedule [OF _ s2]])
      (use p nq lf in \<open>simp add: fiber_task_def enterable_def\<close>)
  have st: "stuck p s2"
    using lf(3) [of p] schedule_frame [of "fiber_task (Some p) (-1)" ?s1] s2
    by (auto simp: stuck_def inside_def queued_def fiber_task_def is_task_def map_filter_def)
  obtain r2 where "run_inv m r2 s2" using run_reach_inv [OF reach2] by blast
  then have "p \<in> set (queued s') \<and> inside s' \<noteq> Some p \<and> m_state (fiber_at (fs s') p) = EXEC \<and> \<not> stopping s'"
    if "(run_step m tid)\<^sup>*\<^sup>* s2 s'" for s'
    using stuck_forever [OF that] st stuck_not_stopping [of p s'] by (auto simp: stuck_def)
  then show ?thesis using s1 s2 reach2 by blast
qed

theorem sched_second_hold_starves_witness:
  "\<exists>s1 s2 b. run_resume LHold demo_run4 = Inr (s1, b)
     \<and> s2 = fst (schedule (fiber_task (Some 13) (-1)) s1) \<and> \<not> stopping s2"
proof -
  have "13 \<notin> set (queued demo_run4)" by (simp add: queued_def demo_run4(3) map_filter_def)
  from sched_second_hold_starves [OF demo_run4(1,2) this] show ?thesis
    by (metis fst_conv rtranclp.rtrancl_refl)
qed

text \<open>A finished fiber that is scheduled makes the loop abort: the guard
  \<open>state != TERM || state != EXCEPT\<close> holds for every state, so the loop enters the fiber and runs
  into its "never reach" assertion.\<close>

theorem sched_finished_fiber_faults:
  assumes reach: "run_reach m tid s" and top: "pc s = AtTop" and empty: "m_fibers s = []"
    and sf: "t_scheduler_fiber (fs s) = Some r" and p: "enterable m r s p"
    and st: "m_state (fiber_at (fs s) p) \<in> {TERM', EXCEPT}"
  shows "run_top tid fnew stk cfg (fst (schedule (fiber_task (Some p) (-1)) s))
    = Inl (AssertFail ''never reach'')"
proof -
  obtain r' where inv: "run_inv m r' s" using run_reach_inv [OF reach] by blast
  then have r: "r' = r" using sf by (simp add: run_inv_def)
  note t = pc_at_top [OF inv top]
  have pm: "p \<noteq> m" "m_stack (fiber_at (fs s) p) \<noteq> 0" using p by (auto simp: enterable_def)
  have "swapIn p 0 (fs s) = Inl (AssertFail ''never reach'')"
    by (subst swapIn_outcome [OF t(5) pm])
      (use t(1,4) st r enterable_resumer [OF p sf] in auto)
  then show ?thesis
    using empty st
    by (auto simp: schedule_frame fiber_task_def is_task_def run_top_def Let_def)
qed

definition demo_run5 :: "nat runner" where
  "demo_run5 = fst (projr (run_resume (LEnd None) demo_run4))"

lemmas demo_runs = demo_run5_def demo_run4_def demo_run3_def demo_run2_def demo_run1_def demo_run0_def

lemma demo_run5: "run_reach 10 5 demo_run5" "pc demo_run5 = AtTop" "m_fibers demo_run5 = []"
proof -
  have "\<exists>s. run_resume (LEnd None) demo_run4 = Inr (s, False)"
    by (simp add: demo_runs run_defs MainFunc_finish_def)
  then have r: "run_resume (LEnd None) demo_run4 = Inr (demo_run5, False)"
    by (auto simp: demo_run5_def)
  show "run_reach 10 5 demo_run5"
    by (rule rr_step [OF demo_run4(1)], rule rs_resume [OF _ _ _ r])
      (simp_all add: demo_run4 inside_def queued_def map_filter_def)
qed (simp_all add: demo_runs run_defs MainFunc_finish_def)

theorem sched_finished_fiber_faults_witness:
  "run_top 5 14 502 1024 (fst (schedule (fiber_task (Some 13) (-1)) demo_run5))
    = Inl (AssertFail ''never reach'')"
  by (rule sched_finished_fiber_faults [OF demo_run5(1,2,3), where r = 10])
    (simp_all add: enterable_def demo_runs run_defs MainFunc_finish_def)

text \<open>Running a function task reuses the loop's callback fiber: no fiber is created, the
  reused fiber runs the new function, and when the function returns the fiber is empty, fresh
  and kept for the next one, and the loop is back at its head.\<close>

theorem sched_cb_fiber_reused:
  assumes reach: "run_reach m tid s" and top: "pc s = AtTop" and c: "cb_fiber s = Some c"
    and q: "m_fibers s = cb_task (Some cb) (-1) # ts"
    and new: "fnew \<noteq> m" "m_stack (fiber_at (fs s) fnew) = 0" "stk \<noteq> 0"
  shows "\<exists>s1 s2. run_top tid fnew stk cfg s = Inr (s1, False) \<and> pc s1 = InCb c
    \<and> m_fibers s1 = ts \<and> m_fcb (fiber_at (fs s1) c) = Some cb \<and> m_activeThreadCount s1 = 1
    \<and> TotalFibers (fs s1) = TotalFibers (fs s)
    \<and> run_resume (LEnd None) s1 = Inr (s2, False) \<and> pc s2 = AtTop \<and> cb_fiber s2 = Some c
    \<and> m_state (fiber_at (fs s2) c) = INIT \<and> m_fcb (fiber_at (fs s2) c) = None
    \<and> m_activeThreadCount s2 = 0 \<and> TotalFibers (fs s2) = TotalFibers (fs s)"
proof -
  obtain r where inv: "run_inv m r s" using run_reach_inv [OF reach] by blast
  note t = pc_at_top [OF inv top]
  have en: "enterable m r s c" "m_state (fiber_at (fs s) c) = INIT"
    using t(7) c top by (auto simp: own_ok_def)
  have nq: "c \<notin> set (queued s)" using t(6) c top by (auto simp: queue_ok_def)
  let ?f1 = "set_fiber c ((fiber_at (fs s) c)\<lparr>m_fcb := Some cb, m_ctx := AtMainFunc, m_state := INIT\<rparr>) (fs s)"
  let ?s1 = "s\<lparr>m_fibers := ts, cb_fiber := Some c, m_activeThreadCount := 1,
    fs := entered m c ?f1, pc := InCb c\<rparr>"
  have pick: "pick_task tid (\<lambda>f. m_state (fiber_at (fs s) f)) (m_fibers s)
      = Inr (False, Some (cb_task (Some cb) (-1)), [] @ ts)"
    using q by (simp add: cb_task_def is_task_def)
  obtain s1 where s1: "run_top tid fnew stk cfg s = Inr (s1, False)" "run_inv m r s1" "pc s1 = InCb c"
    using run_inv_top_cb [OF inv top pick _ _ _ _ refl, of cb fnew stk cfg] q c new by (auto simp: cb_task_def)
  have r1: "Fiber_reset c (Some cb) 0 (fs s) = Inr ?f1"
    using en by (simp add: Fiber_reset_def enterable_def)
  then obtain f2 where f2: "swapIn c 0 ?f1 = Inr f2" and
    s1': "s1 = s\<lparr>m_fibers := ts, cb_fiber := Some c, m_activeThreadCount := m_activeThreadCount s + 1,
            fs := f2, pc := InCb c\<rparr>"
    using s1(1) pick c by (auto simp: run_top_def cb_task_def rbind_Inr_iff)
  have keep: "m_fcb (fiber_at f2 q) = m_fcb (fiber_at ?f1 q)" "s_fiber_count f2 = s_fiber_count ?f1" for q
    using f2
    by (auto simp: swapIn_def Let_def deref_def swapcontext_def activate_def set_state_def set_fiber_def
        SetThis_def rbind_Inr_iff SYLAR_ASSERT_Inr_iff split: option.splits ucontext.splits if_splits)
  have ins: "inside s1 = Some c" using s1(3) by (simp add: inside_def)
  note i = inside_facts [OF s1(2) ins]
  let ?f3 = "left AtNeverReach m c (set_fiber c (finished_fiber None (fiber_at (fs s1) c)) (fs s1))"
  have l: "leave_fiber (LEnd None) c (fs s1) = Inr ?f3"
    using MainFunc_finish_outcome [OF i(4,1), of None] by (simp add: leave_fiber_def)
  have "m_stack (fiber_at (fs s1) c) \<noteq> 0" using i(2) by (simp add: enterable_def)
  then have "\<exists>s2. run_resume (LEnd None) s1 = Inr (s2, False) \<and> pc s2 = AtTop \<and> cb_fiber s2 = Some c
    \<and> m_state (fiber_at (fs s2) c) = INIT \<and> m_fcb (fiber_at (fs s2) c) = None
    \<and> m_activeThreadCount s2 = 0 \<and> TotalFibers (fs s2) = TotalFibers (fs s)"
    using ins l s1(3) s1' t(2) keep(2)
    by (simp add: run_resume_def run_after_def Let_def finished_fiber_def left_def Fiber_reset_def
        TotalFibers_def set_fiber_def)
  moreover have "m_fcb (fiber_at (fs s1) c) = Some cb" "TotalFibers (fs s1) = TotalFibers (fs s)"
    using s1' keep(1) [of c] keep(2) by (simp_all add: TotalFibers_def set_fiber_def)
  ultimately show ?thesis using s1 s1' t(2) by auto
qed

definition demo_cb1 :: "nat runner" where
  "demo_cb1 = fst (projr (run_resume (LEnd None) demo_run1))"

definition demo_cb2 :: "nat runner" where
  "demo_cb2 = fst (schedule (cb_task (Some 8) (-1)) demo_cb1)"

lemma demo_cb: "run_reach 10 5 demo_cb2" "pc demo_cb2 = AtTop" "cb_fiber demo_cb2 = Some 13"
  "m_fibers demo_cb2 = [cb_task (Some 8) (-1)]" "m_stack (fiber_at (fs demo_cb2) 14) = 0"
proof -
  have "\<exists>s. run_resume (LEnd None) demo_run1 = Inr (s, False)"
    by (simp add: demo_runs run_defs MainFunc_finish_def Fiber_reset_def)
  then have r: "run_resume (LEnd None) demo_run1 = Inr (demo_cb1, False)"
    by (auto simp: demo_cb1_def)
  have reach: "run_reach 10 5 demo_cb1"
    by (rule rr_step [OF demo_run1(1)], rule rs_resume [OF _ _ _ r])
      (simp_all add: demo_run1 inside_def queued_def map_filter_def)
  have "schedule (cb_task (Some 8) (-1)) demo_cb1 = (demo_cb2, snd (schedule (cb_task (Some 8) (-1)) demo_cb1))"
    by (simp add: demo_cb2_def)
  then show "run_reach 10 5 demo_cb2"
    by (intro rr_step [OF reach] rs_schedule) (simp_all add: cb_task_def)
qed (simp_all add: demo_cb2_def demo_cb1_def demo_runs run_defs MainFunc_finish_def Fiber_reset_def)

theorem sched_cb_fiber_reused_witness:
  "\<exists>s1 s2. run_top 5 14 502 1024 demo_cb2 = Inr (s1, False) \<and> pc s1 = InCb 13
    \<and> TotalFibers (fs s1) = TotalFibers (fs demo_cb2)
    \<and> run_resume (LEnd None) s1 = Inr (s2, False) \<and> pc s2 = AtTop"
  using sched_cb_fiber_reused [OF demo_cb(1-4) _ demo_cb(5), of 502 1024] by auto

text \<open>\<open>m_stopping\<close> is true from the constructor on and nothing clears it, so \<open>start\<close> never
  reports an already running scheduler: started twice, it aborts on its empty-pool assertion.
  The first \<open>start\<close> makes exactly the pool threads and records their ids after the caller's.\<close>

theorem sched_start_twice:
  assumes new: "Scheduler_new me tid fmain froot stk cfg icb threads use_caller name cur f = Inr s0"
    and many: "m_threadCount s0 \<noteq> 0"
  shows "\<exists>s1. start ids s0 = Inr s1 \<and> m_stopping s1
    \<and> m_threads s1 = map ids [0..<unat threads - (if use_caller then 1 else 0)]
    \<and> m_threadIds s1 = (if use_caller then [tid] else []) @ m_threads s1
    \<and> start ids' s1 = Inl (AssertFail ''m_threads.empty()'')"
proof -
  have s0: "m_stopping s0" "m_threads s0 = []" "0 < threads"
    "m_threadCount s0 = (if use_caller then threads - 1 else threads)"
    "m_threadIds s0 = (if use_caller then [tid] else [])"
    using new by (auto simp: Scheduler_new_def Let_def rbind_Inr_iff SYLAR_ASSERT_Inr_iff split: if_splits)
  have "unat (threads - 1) = unat threads - 1"
    using s0(3) by (simp add: unat_minus_one word_neq_0_conv)
  then have n: "unat (m_threadCount s0) = unat threads - (if use_caller then 1 else 0)"
    using s0(4) by simp
  let ?new = "map ids [0..<unat (m_threadCount s0)]"
  let ?s1 = "s0\<lparr>m_threads := ?new, m_threadIds := m_threadIds s0 @ ?new\<rparr>"
  have "unat (m_threadCount s0) \<noteq> 0" using many by (simp add: unat_eq_zero)
  then show ?thesis using s0(1,2,5) n
    by (intro exI [of _ ?s1]) (simp add: start_def Let_def)
qed

theorem sched_start_twice_witness:
  "\<exists>s0 s1. Scheduler_new 1 5 10 11 500 1024 (9::nat) 3 True ''s'' None fiber_init = Inr s0
    \<and> start (\<lambda>i. int i + 6) s0 = Inr s1 \<and> m_threadIds s1 = [5, 6, 7]
    \<and> start (\<lambda>i. int i + 6) s1 = Inl (AssertFail ''m_threads.empty()'')"
proof -
  obtain s0 where s0: "Scheduler_new 1 5 10 11 500 1024 (9::nat) 3 True ''s'' None fiber_init = Inr s0"
    "m_threadCount s0 = 2"
    by (simp add: Scheduler_new_def run_defs)
  with sched_start_twice [OF s0(1), of "\<lambda>i. int i + 6" "\<lambda>i. int i + 6"] show ?thesis
    by (auto simp: upt_rec)
qed

text \<open>\<open>stop\<close> called on the right thread always ends the scheduler: it is set to stop and to
  stop by itself, nothing is taken from the queue, and unless the caller's thread is the only
  one and everything is done, every pool thread and the root fiber get a wake-up and the root
  fiber is entered, or the pool joined. On the wrong thread it asserts.\<close>

theorem sched_stop_exact:
  assumes "m_stopping s"
  shows "case stop_request me stopping s of
      Inl e \<Rightarrow> (m_rootThread s \<noteq> -1) = (t_scheduler s \<noteq> Some me)
    | Inr (s', wakes, how) \<Rightarrow> s' = s\<lparr>m_autostop := True\<rparr> \<and>
        (case how of
           StopDone \<Rightarrow> stopping s' \<and> m_threadCount s = 0 \<and> wakes = 0
         | StopEnters r \<Rightarrow> m_rootFiber s = Some r \<and> wakes = unat (m_threadCount s) + 1
         | StopJoins \<Rightarrow> m_rootFiber s = None \<and> wakes = unat (m_threadCount s))"
  using assms
  by (auto simp: stop_request_def Let_def SYLAR_ASSERT_def ensure_def split: option.splits if_splits)

theorem sched_stop_exact_witness:
  "case stop_request 1 stopping (demo_run5\<lparr>m_rootThread := -1, t_scheduler := None\<rparr>) of
     Inl e \<Rightarrow> False | Inr (s', wakes, how) \<Rightarrow> how = StopJoins \<and> wakes = 1"
proof -
  let ?s = "demo_run5\<lparr>m_rootThread := -1, t_scheduler := None\<rparr>"
  have "m_stopping ?s" "m_rootFiber ?s = None" "m_threadCount ?s = 1"
    by (simp_all add: demo_runs run_defs MainFunc_finish_def)
  note f = this
  obtain s' w how where r: "stop_request 1 stopping ?s = Inr (s', w, how)"
    using sched_stop_exact [OF f(1), of 1] by (cases "stop_request 1 stopping ?s") auto
  show ?thesis
    using sched_stop_exact [OF f(1), of 1] f unfolding r by (cases how) simp_all
qed

end
