(* ===== verification/SchedRuns.thy ===== *)
theory SchedRuns
  imports Schedulers
begin

text \<open>
  The loop of \<open>Scheduler::run\<close> (sylar/scheduler.cpp) as a whole, on the parts of Schedulers.thy: one
  thread working off its queue. What happens on the entered fibers is given from outside, as
  the way each of them gives control back. \<open>Scheduler::idle\<close>, which only logs, returns at once.
\<close>

section \<open>The loop\<close>

text \<open>What was entered: a fiber, or the function put on the callback fiber, or the idle fiber.\<close>

datatype 'c visit = VFiber faddr | VCb "'c option" | VIdle

definition visit_of :: "'c runner \<Rightarrow> 'c visit" where
  "visit_of s = (case pc s of InFiber f \<Rightarrow> VFiber f | InCb c \<Rightarrow> VCb (m_fcb (fiber_at (fs s) c)) | _ \<Rightarrow> VIdle)"

text \<open>\<open>while (true)\<close>, for as many rounds as there are ways of leaving; each comes with what a
  \<open>new Fiber\<close> of its round would get. \<open>None\<close>: control did not come back.\<close>

fun run_loop ::
    "int \<Rightarrow> u32 \<Rightarrow> (leave \<times> faddr \<times> nat) list \<Rightarrow> 'c runner \<Rightarrow> ('c runner \<times> 'c visit list) result" where
  "run_loop tid cfg [] s = Inr (s, [])"
| "run_loop tid cfg ((how, fnew, stk) # rounds) s =
     rbind (run_top tid fnew stk cfg s) (\<lambda>(s1, _).
       if pc s1 = Exited then Inr (s1, [])
       else rbind (run_resume how s1) (\<lambda>(s2, _).
            rbind (run_loop tid cfg rounds s2) (\<lambda>(s3, vs). Inr (s3, visit_of s1 # vs))))"

section \<open>Rounds whose task ends\<close>

text \<open>The function of the callback fiber or of the idle fiber returned.\<close>

lemma resume_end:
  assumes inv: "run_inv m r s" and ins: "inside s = Some p" and cb: "pc s = InCb p \<or> pc s = InIdle" and nq: "p \<notin> set (queued s)"
  shows "\<exists>s'. run_resume (LEnd None) s = Inr (s', False) \<and> run_inv m r s' \<and> pc s' = AtTop
    \<and> m_fibers s' = m_fibers s \<and> cb_fiber s' = cb_fiber s \<and> idle_fiber s' = idle_fiber s
    \<and> m_state (fiber_at (fs s') (idle_fiber s)) = (if pc s = InIdle then TERM' else m_state (fiber_at (fs s) (idle_fiber s)))"
proof -
  note i = inside_facts [OF inv ins]
  obtain f where lf: "leave_fiber (LEnd None) p (fs s) = Inr f"
    "\<And>q. m_stack (fiber_at f q) = m_stack (fiber_at (fs s) q)"
    "\<And>q. m_state (fiber_at f q) = (if q = p then TERM' else m_state (fiber_at (fs s) q))"
    using leave_outcome [OF i(4,1,2,3), of "LEnd None"] by auto
  obtain s' b where s': "run_resume (LEnd None) s = Inr (s', b)" "run_inv m r s'" "pc s' = AtTop"
    using run_inv_resume [OF inv ins, of "LEnd None"] nq by auto
  show ?thesis
  proof (cases "pc s = InIdle")
    case True
    then have "p = idle_fiber s" using ins by (simp add: inside_def)
    then have "run_resume (LEnd None) s
        = Inr (s\<lparr>fs := f, m_idleThreadCount := m_idleThreadCount s - 1, pc := AtTop\<rparr>, False)"
      using True ins lf by (simp add: run_resume_def run_after_def Let_def)
    then show ?thesis using s' True lf(3) \<open>p = idle_fiber s\<close> by auto
  next
    case False
    then have pc: "pc s = InCb p" using cb by simp
    have o: "p \<noteq> idle_fiber s" using inv pc by (auto simp: run_inv_def own_ok_def)
    have st: "m_stack (fiber_at f p) \<noteq> 0" using i(2) lf(2) by (simp add: enterable_def)
    have "run_resume (LEnd None) s = Inr (s\<lparr>m_activeThreadCount := m_activeThreadCount s - 1, pc := AtTop,
        fs := set_fiber p ((fiber_at f p)\<lparr>m_fcb := None, m_ctx := AtMainFunc, m_state := INIT\<rparr>) f\<rparr>, False)"
      using pc ins lf st by (simp add: run_resume_def run_after_def Let_def Fiber_reset_def)
    then show ?thesis using s' False lf(3) o by auto
  qed
qed

text \<open>A round that takes a function from the front of the queue.\<close>

lemma cb_round:
  assumes inv: "run_inv m r s" and top: "pc s = AtTop"
    and q: "m_fibers s = cb_task (Some cb) thr # ts" "thr = -1 \<or> thr = tid"
    and new: "cb_fiber s = None \<Longrightarrow> fnew \<noteq> m \<and> m_stack (fiber_at (fs s) fnew) = 0 \<and> stk \<noteq> 0"
    and rest: "\<forall>t \<in> set ts. ft_fiber t = None"
  shows "\<exists>s1 s2. run_top tid fnew stk cfg s = Inr (s1, False) \<and> pc s1 \<noteq> Exited \<and> visit_of s1 = VCb (Some cb)
    \<and> run_resume (LEnd None) s1 = Inr (s2, False) \<and> run_inv m r s2 \<and> pc s2 = AtTop \<and> m_fibers s2 = ts
    \<and> cb_fiber s2 \<noteq> None \<and> idle_fiber s2 = idle_fiber s
    \<and> m_state (fiber_at (fs s2) (idle_fiber s)) = m_state (fiber_at (fs s) (idle_fiber s))"
proof -
  define c where "c = (case cb_fiber s of Some c \<Rightarrow> c | None \<Rightarrow> fnew)"
  have pick: "pick_task tid (\<lambda>f. m_state (fiber_at (fs s) f)) (m_fibers s) = Inr (False, Some (cb_task (Some cb) thr), [] @ ts)"
    using q by (auto simp: cb_task_def is_task_def)
  obtain s1 where s1: "run_top tid fnew stk cfg s = Inr (s1, False)" "run_inv m r s1" "pc s1 = InCb c"
    "m_fibers s1 = ts" "cb_fiber s1 = Some c" "idle_fiber s1 = idle_fiber s" "m_fcb (fiber_at (fs s1) c) = Some cb"
    "m_state (fiber_at (fs s1) (idle_fiber s)) = m_state (fiber_at (fs s) (idle_fiber s))"
    using run_inv_top_cb [OF inv top pick _ _ _ new c_def, of cb cfg] q(1) by (auto simp: cb_task_def)
  have "queued s1 = []" using rest s1(4) by (auto simp: queued_def map_filter_def filter_empty_conv)
  then obtain s2 where "run_resume (LEnd None) s1 = Inr (s2, False)" "run_inv m r s2" "pc s2 = AtTop" "m_fibers s2 = ts"
    "cb_fiber s2 = Some c" "idle_fiber s2 = idle_fiber s"
    "m_state (fiber_at (fs s2) (idle_fiber s)) = m_state (fiber_at (fs s) (idle_fiber s))"
    using resume_end [OF s1(2), of c] s1 by (auto simp: inside_def)
  then show ?thesis using s1 by (auto simp: visit_of_def)
qed

text \<open>The two rounds with an empty queue: \<open>idle\<close> returns, and the loop ends.\<close>

lemma idle_rounds:
  assumes inv: "run_inv m r s" and top: "pc s = AtTop" and q: "m_fibers s = []"
    and st: "m_state (fiber_at (fs s) (idle_fiber s)) \<noteq> TERM'"
  shows "\<exists>s'. run_loop tid cfg [(LEnd None, f1, k1), (LEnd None, f2, k2)] s = Inr (s', [VIdle])
    \<and> pc s' = Exited \<and> m_fibers s' = [] \<and> run_inv m r s'"
proof -
  have pick: "pick_task tid st (m_fibers x) = Inr (False, None, m_fibers x)" if "m_fibers x = []" for st and x :: "'c runner"
    using that by simp
  obtain s1 where s1: "run_top tid f1 k1 cfg s = Inr (s1, False)" "run_inv m r s1" "pc s1 = InIdle"
    using run_inv_top_idle [OF inv top pick [OF q], of f1 k1 cfg] st by auto
  have f: "m_fibers s1 = []"
    using s1(1,3) q by (auto simp: run_top_def Let_def rbind_Inr_iff split: if_splits)
  then have nq: "queued s1 = []" by (simp add: queued_def map_filter_def)
  obtain s2 where s2: "run_resume (LEnd None) s1 = Inr (s2, False)" "run_inv m r s2" "pc s2 = AtTop"
    "m_fibers s2 = []" "idle_fiber s2 = idle_fiber s1" "m_state (fiber_at (fs s2) (idle_fiber s1)) = TERM'"
    using resume_end [OF s1(2), of "idle_fiber s1"] s1(3) nq f by (auto simp: inside_def)
  have s3: "run_top tid f2 k2 cfg s2 = Inr (s2\<lparr>pc := Exited\<rparr>, False)"
    using s2(4-6) by (simp add: run_top_def)
  obtain s' where "run_top tid f2 k2 cfg s2 = Inr (s', False)" "run_inv m r s'"
    using run_inv_top_idle [OF s2(2,3) pick [OF s2(4)], of f2 k2 cfg] by blast
  then have "run_inv m r (s2\<lparr>pc := Exited\<rparr>)" using s3 by simp
  then show ?thesis using s1 s2 s3 by (simp add: visit_of_def)
qed

lemma run_loop_drains:
  assumes "run_inv m r s" and "pc s = AtTop" and "m_fibers s = map (\<lambda>(cb, thr). cb_task (Some cb) thr) jobs"
    and "\<forall>(cb, thr) \<in> set jobs. thr = -1 \<or> thr = tid"
    and "m_state (fiber_at (fs s) (idle_fiber s)) \<noteq> TERM'"
    and "cb_fiber s = None \<Longrightarrow> fnew \<noteq> m \<and> m_stack (fiber_at (fs s) fnew) = 0 \<and> stk \<noteq> 0"
  shows "\<exists>s'. run_loop tid cfg (replicate (length jobs + 2) (LEnd None, fnew, stk)) s
      = Inr (s', map (\<lambda>j. VCb (Some (fst j))) jobs @ [VIdle]) \<and> pc s' = Exited \<and> m_fibers s' = [] \<and> run_inv m r s'"
  using assms
proof (induction jobs arbitrary: s)
  case Nil
  then show ?case using idle_rounds [of m r s tid cfg fnew stk fnew stk] by (simp add: numeral_2_eq_2 del: run_loop.simps)
next
  case (Cons j jobs)
  obtain cb thr where j: "j = (cb, thr)" by force
  have q: "m_fibers s = cb_task (Some cb) thr # map (\<lambda>(cb, thr). cb_task (Some cb) thr) jobs" "thr = -1 \<or> thr = tid"
    using Cons.prems(3,4) j by auto
  obtain s1 s2 where r: "run_top tid fnew stk cfg s = Inr (s1, False)" "pc s1 \<noteq> Exited" "visit_of s1 = VCb (Some cb)"
    "run_resume (LEnd None) s1 = Inr (s2, False)" "run_inv m r s2" "pc s2 = AtTop"
    "m_fibers s2 = map (\<lambda>(cb, thr). cb_task (Some cb) thr) jobs" "cb_fiber s2 \<noteq> None" "idle_fiber s2 = idle_fiber s"
    "m_state (fiber_at (fs s2) (idle_fiber s)) = m_state (fiber_at (fs s) (idle_fiber s))"
    using cb_round [OF Cons.prems(1,2) q Cons.prems(6), of cfg] by (auto simp: cb_task_def split_beta)
  obtain s' where "run_loop tid cfg (replicate (length jobs + 2) (LEnd None, fnew, stk)) s2
      = Inr (s', map (\<lambda>j. VCb (Some (fst j))) jobs @ [VIdle])" "pc s' = Exited" "m_fibers s' = []" "run_inv m r s'"
    using Cons.IH [OF r(5-7)] Cons.prems(4,5) r(8-10) by auto
  then show ?case using r(1-4) j by simp
qed

section \<open>Properties\<close>

text \<open>C20: a worker whose queue holds functions for it or for any thread runs every one of them exactly
  once, first in, first out, each on the callback fiber, and then enters \<open>idle\<close>; since that returns,
  the loop ends with the queue empty in the round after, whether or not anyone asked the scheduler to
  stop: what is scheduled later has no thread to run it.\<close>

theorem sched_drains_and_exits:
  assumes reach: "run_reach m tid s" and top: "pc s = AtTop"
    and q: "m_fibers s = map (\<lambda>(cb, thr). cb_task (Some cb) thr) jobs" "\<forall>(cb, thr) \<in> set jobs. thr = -1 \<or> thr = tid"
    and idle: "m_state (fiber_at (fs s) (idle_fiber s)) \<noteq> TERM'"
    and new: "fnew \<noteq> m" "m_stack (fiber_at (fs s) fnew) = 0" "stk \<noteq> 0"
  shows "\<exists>s'. run_loop tid cfg (replicate (length jobs + 2) (LEnd None, fnew, stk)) s
      = Inr (s', map (\<lambda>j. VCb (Some (fst j))) jobs @ [VIdle])
    \<and> pc s' = Exited \<and> m_fibers s' = [] \<and> m_activeThreadCount s' = 0 \<and> m_idleThreadCount s' = 0"
proof -
  obtain r where inv: "run_inv m r s" using run_reach_inv [OF reach] by blast
  obtain s' where s': "run_loop tid cfg (replicate (length jobs + 2) (LEnd None, fnew, stk)) s
      = Inr (s', map (\<lambda>j. VCb (Some (fst j))) jobs @ [VIdle])" "pc s' = Exited" "m_fibers s' = []" "run_inv m r s'"
    using run_loop_drains [OF inv top q idle] new by blast
  then show ?thesis by (auto simp: run_inv_def)
qed

text \<open>Two functions, one of them for the worker itself.\<close>

definition sdemo :: "nat runner" where
  "sdemo = fst (schedule (cb_task (Some 9) 5) (fst (schedule (cb_task (Some 8) (-1)) demo_run0)))"

text \<open>The state it is tried on is one a worker reaches.\<close>

lemma sdemo_shape:
  "m_fibers sdemo = [cb_task (Some 7) (-1), cb_task (Some 8) (-1), cb_task (Some 9) 5]" "pc sdemo = AtTop"
  "m_state (fiber_at (fs sdemo) (idle_fiber sdemo)) \<noteq> TERM'" "m_stack (fiber_at (fs sdemo) 13) = 0"
  by (simp_all add: sdemo_def demo_run0_def run_defs schedule_def is_task_def)

lemma schedule_reach:
  assumes "run_reach m tid s"
  shows "run_reach m tid (fst (schedule (cb_task c thr) s))"
  by (rule rr_step [OF assms rs_schedule [where t = "cb_task c thr" and s = s and s' = "fst (schedule (cb_task c thr) s)" and b = "snd (schedule (cb_task c thr) s)"]])
    (simp_all add: cb_task_def)

lemma sdemo_reach: "run_reach 10 5 sdemo"
  unfolding sdemo_def by (intro schedule_reach demo_run0_reach)

theorem sched_drains_and_exits_witness:
  "\<exists>s'. run_loop 5 1024 (replicate 5 (LEnd None, 13, 501)) sdemo
      = Inr (s', [VCb (Some 7), VCb (Some 8), VCb (Some 9), VIdle])
    \<and> pc s' = Exited \<and> m_fibers s' = [] \<and> m_activeThreadCount s' = 0 \<and> m_idleThreadCount s' = 0"
  using sched_drains_and_exits [OF sdemo_reach sdemo_shape(2), of "[(7, -1), (8, -1), (9, 5)]" 13 501 1024]
    sdemo_shape by (simp add: numeral_eq_Suc)

end
