(* ===== verification/SchedLife.thy ===== *)
theory SchedLife
  imports SchedRuns
begin

text \<open>
  The life of a scheduler that only uses the thread it is made on (\<open>threads = 1\<close>, \<open>use_caller\<close>), from its
  constructor to its destructor: sylar/scheduler.cpp and the root fiber of sylar/fiber.cpp. \<open>stop\<close>
  enters the root fiber, whose function is \<open>run\<close>, and goes on when that fiber has ended.
\<close>

section \<open>From stop to its return\<close>

text \<open>What \<open>run\<close> keeps on its stack when it starts.\<close>

definition as_runner :: "faddr \<Rightarrow> 'c sched \<Rightarrow> 'c runner" where
  "as_runner p s = sched.extend s \<lparr>idle_fiber = p, cb_fiber = None, pc = AtTop\<rparr>"

text \<open>The end of \<open>run\<close>: the destructors of \<open>cb_fiber\<close> and \<open>idle_fiber\<close>, its only owners now.\<close>

definition run_exit :: "'c runner \<Rightarrow> 'c runner result" where
  "run_exit s =
     rbind (case cb_fiber s of None \<Rightarrow> Inr (fs s) | Some c \<Rightarrow> Fiber_delete c (fs s))
       (\<lambda>f. rbind (Fiber_delete (idle_fiber s) f) (\<lambda>f1. Inr (s\<lparr>fs := f1\<rparr>)))"

text \<open>The function of the root fiber \<open>r\<close>, from the start of \<open>MainFunc\<close> to its last \<open>swapOut\<close>.\<close>

definition root_fiber ::
    "nat \<Rightarrow> int \<Rightarrow> faddr \<Rightarrow> faddr \<Rightarrow> nat \<Rightarrow> u32 \<Rightarrow> 'c \<Rightarrow> (leave \<times> faddr \<times> nat) list \<Rightarrow> faddr \<Rightarrow> 'c sched
       \<Rightarrow> ('c sched \<times> 'c visit list) result" where
  "root_fiber me tid m fidle stk cfg icb rounds r s =
     rbind (MainFunc_start m 0 0 (fs s))
      (\<lambda>(f, _). rbind (run_enter me tid m fidle stk cfg icb (as_runner fidle (s\<lparr>fs := f\<rparr>)))
      (\<lambda>s1. rbind (run_loop tid cfg rounds s1)
      (\<lambda>(s2, visits). rbind (run_exit s2)
      (\<lambda>s3. rbind (MainFunc_finish None r 0 (fs s3))
      (\<lambda>f4. Inr (sched.truncate s3\<lparr>fs := f4\<rparr>, visits))))))"

text \<open>\<open>stop\<close> without a pool of threads.\<close>

definition stop_caller ::
    "nat \<Rightarrow> int \<Rightarrow> faddr \<Rightarrow> faddr \<Rightarrow> nat \<Rightarrow> u32 \<Rightarrow> 'c \<Rightarrow> (leave \<times> faddr \<times> nat) list \<Rightarrow> 'c sched
       \<Rightarrow> ('c sched \<times> 'c visit list) result" where
  "stop_caller me tid m fidle stk cfg icb rounds s =
     rbind (stop_request me stopping s)
      (\<lambda>(s1, _, next). case next of
         StopDone \<Rightarrow> Inr (s1, [])
       | StopJoins \<Rightarrow> Inr (fst (stop_join s1), [])
       | StopEnters r \<Rightarrow>
           rbind (swapIn r 0 (fs s1))
            (\<lambda>f. rbind (root_fiber me tid m fidle stk cfg icb rounds r (s1\<lparr>fs := f\<rparr>))
            (\<lambda>(s2, visits). Inr (fst (stop_join s2), visits))))"

section \<open>What the loop leaves alone\<close>

lemma run_top_shape:
  assumes "run_top tid fnew stk cfg s = Inr (s', b)"
  shows "\<exists>q c f n n' p. s' = s\<lparr>m_fibers := q, cb_fiber := c, fs := f, m_activeThreadCount := n,
      m_idleThreadCount := n', pc := p\<rparr>
    \<and> (p = Exited \<longrightarrow> m_state (fiber_at f (idle_fiber s)) = TERM')"
proof -
  obtain tk ft q where pick: "pick_task tid (\<lambda>f. m_state (fiber_at (fs s) f)) (m_fibers s) = Inr (tk, ft, q)"
    using assms by (auto simp: run_top_def rbind_Inr_iff)
  consider (fiber) t g where "ft = Some t" "ft_fiber t = Some g"
    | (cb) t k where "ft = Some t" "ft_fiber t = None" "ft_cb t = Some k"
    | (none) "ft = None \<or> (\<exists>t. ft = Some t \<and> ft_fiber t = None \<and> ft_cb t = None)"
    by (metis option.exhaust)
  then show ?thesis
  proof cases
    case fiber
    then obtain f where "s' = s\<lparr>m_fibers := q, m_activeThreadCount := m_activeThreadCount s + 1, fs := f, pc := InFiber g\<rparr>"
      using assms pick by (auto simp: run_top_def Let_def rbind_Inr_iff split: if_splits)
    then show ?thesis
      by (intro exI [of _ q] exI [of _ "cb_fiber s"] exI [of _ f] exI [of _ "m_activeThreadCount s + 1"]
          exI [of _ "m_idleThreadCount s"] exI [of _ "InFiber g"]) simp
  next
    case cb
    then obtain c f where "s' = s\<lparr>m_fibers := q, cb_fiber := Some c, m_activeThreadCount := m_activeThreadCount s + 1,
        fs := f, pc := InCb c\<rparr>"
      using assms pick by (auto simp: run_top_def Let_def rbind_Inr_iff)
    then show ?thesis
      by (intro exI [of _ q] exI [of _ "Some c"] exI [of _ f] exI [of _ "m_activeThreadCount s + 1"]
          exI [of _ "m_idleThreadCount s"] exI [of _ "InCb c"]) simp
  next
    case none
    show ?thesis
    proof (cases "m_state (fiber_at (fs s) (idle_fiber s)) = TERM'")
      case True
      then have "s' = s\<lparr>m_fibers := q, pc := Exited\<rparr>" using assms pick none by (auto simp: run_top_def Let_def)
      then show ?thesis using True
        by (intro exI [of _ q] exI [of _ "cb_fiber s"] exI [of _ "fs s"] exI [of _ "m_activeThreadCount s"]
            exI [of _ "m_idleThreadCount s"] exI [of _ Exited]) simp
    next
      case False
      then obtain f where "s' = s\<lparr>m_fibers := q, m_idleThreadCount := m_idleThreadCount s + 1, fs := f, pc := InIdle\<rparr>"
        using assms pick none by (auto simp: run_top_def Let_def rbind_Inr_iff)
      then show ?thesis
        by (intro exI [of _ q] exI [of _ "cb_fiber s"] exI [of _ f] exI [of _ "m_activeThreadCount s"]
            exI [of _ "m_idleThreadCount s + 1"] exI [of _ InIdle]) simp
    qed
  qed
qed

lemma run_top_frame:
  assumes "run_top tid fnew stk cfg s = Inr (s', b)"
  shows "m_autostop s' = m_autostop s" "m_stopping s' = m_stopping s" "m_threads s' = m_threads s"
    "t_scheduler s' = t_scheduler s" "idle_fiber s' = idle_fiber s"
    "pc s' = Exited \<Longrightarrow> m_state (fiber_at (fs s') (idle_fiber s')) = TERM'"
  using run_top_shape [OF assms] by auto

lemma schedule_keeps:
  "m_autostop (fst (schedule t s)) = m_autostop s" "m_stopping (fst (schedule t s)) = m_stopping s"
  "m_threads (fst (schedule t s)) = m_threads s" "t_scheduler (fst (schedule t s)) = t_scheduler s"
  "m_rootFiber (fst (schedule t s)) = m_rootFiber s" "m_threadCount (fst (schedule t s)) = m_threadCount s"
  "m_rootThread (fst (schedule t s)) = m_rootThread s" "fs (fst (schedule t s)) = fs s"
  "m_activeThreadCount (fst (schedule t s)) = m_activeThreadCount s"
  "m_idleThreadCount (fst (schedule t s)) = m_idleThreadCount s"
  by (simp_all add: schedule_def scheduleNoLock_def Let_def)

lemma schedule_keeps_runner:
  "idle_fiber (fst (schedule t s)) = idle_fiber s" "pc (fst (schedule t s)) = pc s"
  by (simp_all add: schedule_def scheduleNoLock_def Let_def)

lemma run_after_frame:
  assumes "run_after s = Inr (s', b)"
  shows "m_autostop s' = m_autostop s" "m_stopping s' = m_stopping s" "m_threads s' = m_threads s"
    "t_scheduler s' = t_scheduler s" "idle_fiber s' = idle_fiber s" "pc s' = AtTop"
  using assms
  by (cases "pc s"; auto simp: run_after_def Let_def rbind_Inr_iff split_beta schedule_keeps schedule_keeps_runner
      split: if_splits)+

lemma run_resume_frame:
  assumes "run_resume how s = Inr (s', b)"
  shows "m_autostop s' = m_autostop s" "m_stopping s' = m_stopping s" "m_threads s' = m_threads s"
    "t_scheduler s' = t_scheduler s" "idle_fiber s' = idle_fiber s" "pc s' = AtTop"
proof -
  obtain f where "run_after (s\<lparr>fs := f\<rparr>) = Inr (s', b)"
    using assms by (auto simp: run_resume_def rbind_Inr_iff split: option.splits)
  from run_after_frame [OF this] show "m_autostop s' = m_autostop s" "m_stopping s' = m_stopping s"
    "m_threads s' = m_threads s" "t_scheduler s' = t_scheduler s" "idle_fiber s' = idle_fiber s" "pc s' = AtTop"
    by simp_all
qed

lemma run_loop_frame:
  assumes "run_loop tid cfg rounds s = Inr (s', vs)"
  shows "m_autostop s' = m_autostop s \<and> m_stopping s' = m_stopping s \<and> m_threads s' = m_threads s
    \<and> t_scheduler s' = t_scheduler s \<and> idle_fiber s' = idle_fiber s
    \<and> (pc s \<noteq> Exited \<longrightarrow> pc s' = Exited \<longrightarrow> m_state (fiber_at (fs s') (idle_fiber s')) = TERM')"
  using assms
proof (induction tid cfg rounds s arbitrary: s' vs rule: run_loop.induct)
  case (2 tid cfg how fnew stk rounds s)
  obtain s1 b where t: "run_top tid fnew stk cfg s = Inr (s1, b)" using 2(2) by (auto simp: rbind_Inr_iff)
  show ?case
  proof (cases "pc s1 = Exited")
    case True
    then show ?thesis using 2(2) t run_top_frame [OF t] by auto
  next
    case False
    then obtain s2 b2 ws where r: "run_resume how s1 = Inr (s2, b2)" "run_loop tid cfg rounds s2 = Inr (s', ws)"
      using 2(2) t by (auto simp: rbind_Inr_iff)
    have "pc s2 \<noteq> Exited" using run_resume_frame(6) [OF r(1)] by simp
    then show ?thesis
      using 2(1) [OF False r(2)] run_top_frame(1-5) [OF t] run_resume_frame(1-5) [OF r(1)] by auto
  qed
qed simp

section \<open>The way of the root fiber\<close>

text \<open>Queueing functions changes nothing but the queue.\<close>

definition queue_all :: "('c \<times> int) list \<Rightarrow> 'c sched \<Rightarrow> 'c sched" where
  "queue_all jobs s = fold (\<lambda>(cb, thr) s. fst (schedule (cb_task (Some cb) thr) s)) jobs s"

lemma queue_all_eq: "queue_all jobs s = s\<lparr>m_fibers := m_fibers s @ map (\<lambda>(cb, thr). cb_task (Some cb) thr) jobs\<rparr>"
proof (induction jobs arbitrary: s)
  case (Cons j jobs)
  obtain cb thr where j: "j = (cb, thr)" by force
  have "fst (schedule (cb_task (Some cb) thr) s) = s\<lparr>m_fibers := m_fibers s @ [cb_task (Some cb) thr]\<rparr>"
    by (simp add: schedule_def scheduleNoLock_def is_task_def cb_task_def)
  then show ?case using Cons.IH [of "fst (schedule (cb_task (Some cb) thr) s)"] j by (simp add: queue_all_def)
qed (simp add: queue_all_def)

text \<open>The scheduler as its constructor leaves it.\<close>

lemma made:
  fixes run_cb :: 'c
  assumes s0: "Scheduler_new me tid m r stk cfg run_cb 1 True name None fiber_init = Inr s0" and r: "r \<noteq> m" "stk \<noteq> 0"
  shows "m_fibers s0 = []" "m_threadCount s0 = 0" "m_rootFiber s0 = Some r" "m_rootThread s0 = tid"
    "t_scheduler s0 = Some me" "m_threads s0 = []" "m_activeThreadCount s0 = 0" "m_idleThreadCount s0 = 0"
    "m_stopping s0" "running (fs s0) = ThreadFlow" "t_scheduler_fiber (fs s0) = Some r"
    "m_state (fiber_at (fs s0) r) = INIT" "m_fcb (fiber_at (fs s0) r) = Some run_cb"
    "m_stack (fiber_at (fs s0) r) \<noteq> 0" "\<not> m_runInScheduler (fiber_at (fs s0) r)"
    "p \<noteq> r \<Longrightarrow> m_stack (fiber_at (fs s0) p) = 0" "fiber_reach m (fs s0)"
proof -
  obtain f1 :: "'c fstate" where f1: "Fibers.GetThis m 0 fiber_init = Inr (f1, m)"
    by (simp add: GetThis_def fiber_init_def Fiber_main_def SetThis_def set_fiber_def)
  then have f1': "t_scheduler_fiber f1 = None" "running f1 = ThreadFlow" "\<And>p. m_stack (fiber_at f1 p) = 0"
    by (auto simp: GetThis_def fiber_init_def Fiber_main_def SetThis_def set_fiber_def no_fiber_def)
  obtain f2 where f2: "Fiber_new r (Some run_cb) 0 False cfg stk 0 f1 = Inr f2" by (simp add: Fiber_new_def Let_def)
  have f2': "t_scheduler_fiber f2 = None" "running f2 = ThreadFlow"
    "m_state (fiber_at f2 r) = INIT" "m_fcb (fiber_at f2 r) = Some run_cb" "m_stack (fiber_at f2 r) = stk"
    "\<not> m_runInScheduler (fiber_at f2 r)" "\<And>p. p \<noteq> r \<Longrightarrow> m_stack (fiber_at f2 p) = 0"
    using f1' f2 by (auto simp: Fiber_new_def Let_def set_fiber_def)
  have s0': "fs s0 = f2\<lparr>t_scheduler_fiber := Some r\<rparr>" "m_fibers s0 = []" "m_threadCount s0 = 0" "m_rootFiber s0 = Some r"
    "m_rootThread s0 = tid" "t_scheduler s0 = Some me" "m_threads s0 = []" "m_activeThreadCount s0 = 0"
    "m_idleThreadCount s0 = 0" "m_stopping s0"
    using s0 f1 f2 by (auto simp: Scheduler_new_def Let_def SYLAR_ASSERT_def)
  have "fiber_step m f1 f2"
    by (rule fs_new [OF r(1) f1'(3) r(2) _ _ f2]) (use f1' in simp_all)
  then have reach: "fiber_reach m f2" by (rule fr_step [OF fr_start [OF f1]])
  have "fiber_step m f2 (f2\<lparr>t_scheduler_fiber := Some r\<rparr>)"
    by (rule fs_designate) (use f2' r in auto)
  then show "fiber_reach m (fs s0)" unfolding s0' by (rule fr_step [OF reach])
  show "m_fibers s0 = []" "m_threadCount s0 = 0" "m_rootFiber s0 = Some r" "m_rootThread s0 = tid"
    "t_scheduler s0 = Some me" "m_threads s0 = []" "m_activeThreadCount s0 = 0" "m_idleThreadCount s0 = 0"
    "m_stopping s0" "running (fs s0) = ThreadFlow" "t_scheduler_fiber (fs s0) = Some r"
    "m_state (fiber_at (fs s0) r) = INIT" "m_fcb (fiber_at (fs s0) r) = Some run_cb"
    "m_stack (fiber_at (fs s0) r) \<noteq> 0" "\<not> m_runInScheduler (fiber_at (fs s0) r)"
    "p \<noteq> r \<Longrightarrow> m_stack (fiber_at (fs s0) p) = 0"
    using s0' f2' r by auto
qed

text \<open>A fiber that has ended or never began is destroyed without touching the others.\<close>

lemma delete_done:
  assumes inv: "fiber_inv m f" and p: "p \<noteq> m" "m_stack (fiber_at f p) \<noteq> 0" "running f \<noteq> FiberFlow p"
    and sf: "t_scheduler_fiber f \<noteq> Some p" and st: "m_state (fiber_at f p) \<in> {TERM', INIT}"
  shows "\<exists>f'. Fiber_delete p f = Inr f' \<and> fiber_inv m f' \<and> running f' = running f
    \<and> t_scheduler_fiber f' = t_scheduler_fiber f \<and> (\<forall>q. q \<noteq> p \<longrightarrow> fiber_at f' q = fiber_at f q)"
proof -
  let ?f = "(set_fiber p no_fiber f)\<lparr>s_fiber_count := s_fiber_count f - 1\<rparr>"
  have d: "Fiber_delete p f = Inr ?f" using p(2) st by (auto simp: Fiber_delete_def SYLAR_ASSERT_def)
  then have "fiber_inv m ?f" by (intro inv_fiber_step [OF fs_delete [OF p sf] inv])
  then show ?thesis using d by (auto simp: set_fiber_def)
qed

lemma run_exit_done:
  assumes inv: "run_inv m r s" and ex: "pc s = Exited" and idle: "m_state (fiber_at (fs s) (idle_fiber s)) = TERM'"
    and r: "r \<noteq> m"
  shows "\<exists>f. run_exit s = Inr (s\<lparr>fs := f\<rparr>) \<and> fiber_inv m f \<and> running f = FiberFlow r \<and> t_scheduler_fiber f = Some r"
proof -
  have i: "fiber_inv m (fs s)" "t_scheduler_fiber (fs s) = Some r" "running (fs s) = FiberFlow r"
    and own: "own_ok m r s" using inv ex r by (auto simp: run_inv_def flow_of_def)
  have id: "idle_fiber s \<noteq> m" "idle_fiber s \<noteq> r" "m_stack (fiber_at (fs s) (idle_fiber s)) \<noteq> 0"
    using own by (auto simp: own_ok_def enterable_def)
  obtain f where f: "(case cb_fiber s of None \<Rightarrow> Inr (fs s) | Some c \<Rightarrow> Fiber_delete c (fs s)) = Inr f" "fiber_inv m f"
    "running f = FiberFlow r" "t_scheduler_fiber f = Some r" "fiber_at f (idle_fiber s) = fiber_at (fs s) (idle_fiber s)"
  proof (cases "cb_fiber s")
    case None
    then show ?thesis using i that by simp
  next
    case (Some c)
    then have "c \<noteq> m" "m_stack (fiber_at (fs s) c) \<noteq> 0" "c \<noteq> r" "c \<noteq> idle_fiber s" "m_state (fiber_at (fs s) c) = INIT"
      using own ex by (auto simp: own_ok_def enterable_def)
    then show ?thesis using delete_done [OF i(1), of c] i Some that by auto
  qed
  then obtain f' where "Fiber_delete (idle_fiber s) f = Inr f'" "fiber_inv m f'" "running f' = FiberFlow r"
    "t_scheduler_fiber f' = Some r"
    using delete_done [OF f(2) id(1)] id idle by auto
  then show ?thesis using f(1) by (intro exI [of _ f']) (simp add: run_exit_def)
qed

text \<open>The root fiber from the moment it is entered.\<close>

lemma root_fiber_done:
  fixes s :: "'c sched"
  assumes inv: "fiber_inv m (fs s)" and run: "running (fs s) = FiberFlow r" "t_scheduler_fiber (fs s) = Some r"
    "t_fiber (fs s) = Some r" "m_fcb (fiber_at (fs s) r) = Some run_cb"
    and addr: "r \<noteq> m" "fidle \<noteq> m" "m_stack (fiber_at (fs s) fidle) = 0" "kidle \<noteq> 0"
      "fnew \<noteq> m" "fnew \<noteq> fidle" "m_stack (fiber_at (fs s) fnew) = 0" "knew \<noteq> 0"
    and s: "tid = m_rootThread s" "m_activeThreadCount s = 0" "m_idleThreadCount s = 0"
      "m_fibers s = map (\<lambda>(cb, thr). cb_task (Some cb) thr) jobs" "\<forall>(cb, thr) \<in> set jobs. thr = -1 \<or> thr = tid"
  shows "\<exists>s'. root_fiber me tid m fidle kidle cfg icb (replicate (length jobs + 2) (LEnd None, fnew, knew)) r s
      = Inr (s', map (\<lambda>j. VCb (Some (fst j))) jobs @ [VIdle])
    \<and> m_fibers s' = [] \<and> m_activeThreadCount s' = 0 \<and> m_autostop s' = m_autostop s \<and> m_stopping s' = m_stopping s
    \<and> t_scheduler s' = Some me \<and> m_state (fiber_at (fs s') r) = TERM' \<and> running (fs s') = ThreadFlow"
proof -
  obtain f1 where f1: "Fiber_new fidle (Some icb) 0 True cfg kidle 0 (fs s) = Inr f1" by (simp add: Fiber_new_result)
  let ?s1 = "setThis me ((as_runner fidle s)\<lparr>t_hook_on := True\<rparr>)\<lparr>fs := f1, idle_fiber := fidle, cb_fiber := None, pc := AtTop\<rparr>"
  have as: "fs (as_runner fidle s) = fs s" "m_fibers (as_runner fidle s) = m_fibers s"
    "m_rootThread (as_runner fidle s) = m_rootThread s" "m_activeThreadCount (as_runner fidle s) = 0"
    "m_idleThreadCount (as_runner fidle s) = 0" "m_autostop (as_runner fidle s) = m_autostop s"
    "m_stopping (as_runner fidle s) = m_stopping s"
    using s by (simp_all add: as_runner_def sched.defs)
  have tk: "\<forall>t \<in> set (m_fibers (setThis me ((as_runner fidle s)\<lparr>t_hook_on := True\<rparr>))). is_task t \<and> ft_fiber t = None"
    by (auto simp: setThis_def as s cb_task_def is_task_def)
  have start: "MainFunc_start m 0 0 (fs s) = Inr (fs s, Some run_cb)"
    using run by (simp add: MainFunc_start_def GetThis_def)
  have enter: "run_enter me tid m fidle kidle cfg icb (as_runner fidle s) = Inr ?s1"
    using s(1) f1 as by (simp add: run_enter_def setThis_def)
  have inv1: "run_inv m r ?s1"
    by (rule run_inv_start [OF inv run(2) _ addr(2,3,4) f1 tk]) (use run(1) addr(1) as in \<open>simp_all add: flow_of_def setThis_def\<close>)
  have new: "m_state (fiber_at f1 fidle) = INIT" "m_stack (fiber_at f1 fnew) = 0"
    using f1 addr by (auto simp: Fiber_new_def Let_def set_fiber_def)
  obtain s2 where loop: "run_loop tid cfg (replicate (length jobs + 2) (LEnd None, fnew, knew)) ?s1
      = Inr (s2, map (\<lambda>j. VCb (Some (fst j))) jobs @ [VIdle])" "pc s2 = Exited" "m_fibers s2 = []" "run_inv m r s2"
    using run_loop_drains [OF inv1, of jobs tid fnew knew cfg] new addr s as by (auto simp: setThis_def)
  have fr: "m_autostop s2 = m_autostop s" "m_stopping s2 = m_stopping s" "t_scheduler s2 = Some me"
    "m_state (fiber_at (fs s2) (idle_fiber s2)) = TERM'"
    using run_loop_frame [OF loop(1)] loop(2) as by (auto simp: setThis_def)
  obtain f where f: "run_exit s2 = Inr (s2\<lparr>fs := f\<rparr>)" "fiber_inv m f" "running f = FiberFlow r" "t_scheduler_fiber f = Some r"
    using run_exit_done [OF loop(4,2) fr(4) addr(1)] by blast
  let ?g = "left AtNeverReach m r (set_fiber r (finished_fiber None (fiber_at f r)) f)"
  have fin: "MainFunc_finish None r 0 f = Inr ?g" by (rule MainFunc_finish_outcome [OF f(2,3)])
  have "main_ok m f" using f(2) by (simp add: fiber_inv_def)
  then have nris: "\<not> m_runInScheduler (fiber_at f r)" using f(4) addr(1) by (simp add: main_ok_def)
  have g: "running ?g = ThreadFlow" "m_state (fiber_at ?g r) = TERM'"
    using nris by (simp_all add: left_def resumer_def set_fiber_def finished_fiber_def flow_of_def)
  have act: "m_activeThreadCount s2 = 0" using loop(2,4) by (simp add: run_inv_def)
  show ?thesis
    using start enter loop(1,3) f(1) fin fr g act
    by (intro exI [of _ "sched.truncate (s2\<lparr>fs := f\<rparr>)\<lparr>fs := ?g\<rparr>"]) (simp add: root_fiber_def sched.defs)
qed

section \<open>Properties\<close>

text \<open>C21: the life of a scheduler on the caller's thread alone. Functions are scheduled after \<open>start\<close>, for
  this thread or for any; \<open>stop\<close> runs every one of them exactly once, first in, first out, and returns
  to the thread's own code with \<open>stopping\<close> true and the root fiber ended (without functions it does
  not enter it at all). The destructors of the fibers of \<open>run\<close> and of the scheduler pass their
  assertions, and the thread has no scheduler any more.\<close>

theorem sched_life:
  assumes s0: "Scheduler_new me tid m r stk cfg run_cb 1 True name None fiber_init = Inr s0" and s1: "start ids s0 = Inr s1"
    and addr: "r \<noteq> m" "fidle \<notin> {m, r}" "fnew \<notin> {m, r, fidle}" "stk \<noteq> 0" "kidle \<noteq> 0" "knew \<noteq> 0"
    and jobs: "tid \<noteq> -1" "\<forall>(cb, thr) \<in> set jobs. thr = -1 \<or> thr = tid"
  shows "\<exists>s2 s3. stop_caller me tid m fidle kidle cfg icb (replicate (length jobs + 2) (LEnd None, fnew, knew)) (queue_all jobs s1)
      = Inr (s2, if jobs = [] then [] else map (\<lambda>j. VCb (Some (fst j))) jobs @ [VIdle])
    \<and> stopping s2 \<and> running (fs s2) = ThreadFlow
    \<and> m_state (fiber_at (fs s2) r) = (if jobs = [] then INIT else TERM')
    \<and> Scheduler_delete me s2 = Inr s3 \<and> t_scheduler s3 = None"
proof -
  note md = made [OF s0 addr(1,4)]
  have s1': "s1 = s0" using s1 md by (auto simp: start_def Let_def)
  let ?q = "queue_all jobs s1"
  have q: "?q = s0\<lparr>m_fibers := map (\<lambda>(cb, thr). cb_task (Some cb) thr) jobs\<rparr>" using md by (simp add: s1' queue_all_eq)
  show ?thesis
  proof (cases "jobs = []")
    case True
    then have "stop_request me stopping ?q = Inr (?q\<lparr>m_autostop := True, m_stopping := True\<rparr>, 0, StopDone)"
      using md q by (simp add: stop_request_def Let_def stopping_def)
    then show ?thesis using True md q
      by (auto simp: stop_caller_def stopping_def Scheduler_delete_def SYLAR_ASSERT_def)
  next
    case False
    let ?s = "?q\<lparr>m_autostop := True, m_stopping := True\<rparr>"
    have req: "stop_request me stopping ?q = Inr (?s, 1, StopEnters r)"
      using False md q jobs(1) by (simp add: stop_request_def Let_def stopping_def SYLAR_ASSERT_def)
    have inv: "fiber_inv m (fs s0)" by (rule fiber_reach_inv [OF md(17)])
    have res: "resumer m (fs s0) r = m" using md by (simp add: resumer_def)
    have sw: "swapIn r 0 (fs s0) = Inr (entered m r (fs s0))"
      by (subst swapIn_outcome [OF inv addr(1)]) (use md res in \<open>simp_all add: flow_of_def\<close>)
    have inv': "fiber_inv m (entered m r (fs s0))"
      by (rule inv_entered [OF inv addr(1)]) (use md res in \<open>simp_all add: flow_of_def\<close>)
    let ?e = "?s\<lparr>fs := entered m r (fs s0)\<rparr>"
    have e: "fiber_inv m (fs ?e)" "running (fs ?e) = FiberFlow r" "t_scheduler_fiber (fs ?e) = Some r"
      "t_fiber (fs ?e) = Some r" "m_fcb (fiber_at (fs ?e) r) = Some run_cb" "m_stack (fiber_at (fs ?e) fidle) = 0"
      "m_stack (fiber_at (fs ?e) fnew) = 0" "tid = m_rootThread ?e" "m_activeThreadCount ?e = 0" "m_idleThreadCount ?e = 0"
      "m_fibers ?e = map (\<lambda>(cb, thr). cb_task (Some cb) thr) jobs" "m_autostop ?e" "m_stopping ?e"
      using inv' md q res addr by (simp_all add: entered_def)
    obtain s2 where s2: "root_fiber me tid m fidle kidle cfg icb (replicate (length jobs + 2) (LEnd None, fnew, knew)) r ?e
        = Inr (s2, map (\<lambda>j. VCb (Some (fst j))) jobs @ [VIdle])"
      "m_fibers s2 = []" "m_activeThreadCount s2 = 0" "m_autostop s2" "m_stopping s2" "t_scheduler s2 = Some me"
      "m_state (fiber_at (fs s2) r) = TERM'" "running (fs s2) = ThreadFlow"
      using root_fiber_done [OF e(1-5) addr(1) _ e(6) addr(5) _ _ e(7) addr(6) e(8-11) jobs(2), of me cfg icb] addr e(12,13)
      by auto
    have "stop_caller me tid m fidle kidle cfg icb (replicate (length jobs + 2) (LEnd None, fnew, knew)) ?q
        = Inr (fst (stop_join s2), map (\<lambda>j. VCb (Some (fst j))) jobs @ [VIdle])"
      using req sw s2(1) q by (simp add: stop_caller_def)
    then show ?thesis using False s2(2-8)
      by (simp add: stop_join_def stopping_def Scheduler_delete_def SYLAR_ASSERT_def)
  qed
qed

theorem sched_life_witness:
  "\<exists>s0 s2 s3. Scheduler_new 1 5 10 11 500 1024 (0 :: nat) 1 True ''main'' None fiber_init = Inr s0
    \<and> stop_caller 1 5 10 12 501 1024 9 (replicate 4 (LEnd None, 13, 502)) (queue_all [(7, -1), (8, 5)] s0)
        = Inr (s2, [VCb (Some 7), VCb (Some 8), VIdle])
    \<and> stopping s2 \<and> Scheduler_delete 1 s2 = Inr s3 \<and> t_scheduler s3 = None"
proof -
  obtain s0 where s0: "Scheduler_new 1 5 10 11 500 1024 (0 :: nat) 1 True ''main'' None fiber_init = Inr s0"
    by (simp add: Scheduler_new_def GetThis_def fiber_init_def Fiber_main_def SetThis_def Fiber_new_def Let_def SYLAR_ASSERT_def)
  have s1: "start (\<lambda>_. 0) s0 = Inr s0" using made(2,6,9) [OF s0] by (simp add: start_def)
  show ?thesis
    using sched_life [OF s0 s1, of 12 13 501 502 "[(7, -1), (8, 5)]" 9] s0 by (auto simp: eval_nat_numeral)
qed

end
