(* ===== verification/IOManagers.thy ===== *)
theory IOManagers
  imports Schedulers Timers
begin

text \<open>
  sylar/iomanager.h and sylar/iomanager.cpp: the table of file descriptor contexts, adding,
  deleting, cancelling and triggering events, the wake-up pipe and one round of \<open>idle\<close>. The
  IO manager is a scheduler (the record extends \<open>sched\<close>) with a timer manager. System calls are
  arguments: what \<open>epoll_ctl\<close>, \<open>epoll_wait\<close>, \<open>write\<close>, \<open>epoll_create\<close>, \<open>pipe\<close> and \<open>fcntl\<close>
  returned. \<open>interest\<close> is what the kernel was told by the successful \<open>epoll_ctl\<close> calls.
\<close>

unbundle bit_operations_syntax

section \<open>Data\<close>

text \<open>\<open>enum Event\<close> and the epoll flags; an \<open>Event\<close> parameter is a 32-bit value.\<close>

abbreviation NONE :: u32 where "NONE \<equiv> 0x0"
abbreviation READ :: u32 where "READ \<equiv> 0x1"
abbreviation WRITE :: u32 where "WRITE \<equiv> 0x4"
abbreviation EPOLLIN :: u32 where "EPOLLIN \<equiv> 0x1"
abbreviation EPOLLOUT :: u32 where "EPOLLOUT \<equiv> 0x4"
abbreviation EPOLLERR :: u32 where "EPOLLERR \<equiv> 0x8"
abbreviation EPOLLHUP :: u32 where "EPOLLHUP \<equiv> 0x10"
abbreviation EPOLLET :: u32 where "EPOLLET \<equiv> 0x80000000"

record 'c event_context =
  ev_scheduler :: "nat option"
  ev_fiber :: "faddr option"
  ev_cb :: "'c option"

record 'c fd_context =
  read_ctx :: "'c event_context"
  write_ctx :: "'c event_context"
  ctx_fd :: int
  events :: u32

text \<open>The manager. \<open>tickle_pipe\<close> counts the unread bytes of the pipe, \<open>posted\<close> the tasks handed
  to other schedulers, in order.\<close>

record ('w, 'c) iom = "('w, 'c) tcb sched" +
  timers :: "('w, 'c) timer_manager"
  m_epfd :: int
  m_tickleFds :: "int \<times> int"
  m_pendingEventCount :: u64
  m_fdContexts :: "('w, 'c) tcb fd_context list"
  interest :: "int \<Rightarrow> u32 option"
  tickle_pipe :: nat
  posted :: "(nat \<times> ('w, 'c) tcb task) list"

datatype epoll_op = EPOLL_CTL_ADD | EPOLL_CTL_MOD | EPOLL_CTL_DEL

text \<open>A successful \<open>epoll_ctl\<close> replaces or removes the entry of the descriptor.\<close>

definition epoll_ctl :: "epoll_op \<Rightarrow> int \<Rightarrow> u32 \<Rightarrow> ('w, 'c) iom \<Rightarrow> ('w, 'c) iom" where
  "epoll_ctl op fd evs s = s\<lparr>interest := (interest s)(fd :=
     (case op of EPOLL_CTL_DEL \<Rightarrow> None | _ \<Rightarrow> Some evs))\<rparr>"

section \<open>Descriptor contexts\<close>

definition EventContext :: "'c event_context" where
  "EventContext = \<lparr>ev_scheduler = None, ev_fiber = None, ev_cb = None\<rparr>"

definition FdContext :: "int \<Rightarrow> 'c fd_context" where
  "FdContext fd = \<lparr>read_ctx = EventContext, write_ctx = EventContext, ctx_fd = fd, events = NONE\<rparr>"

text \<open>\<open>getContext\<close> returns a reference: reading and replacing what it refers to.\<close>

definition getContext :: "u32 \<Rightarrow> 'c fd_context \<Rightarrow> 'c event_context result" where
  "getContext event c =
     (if event = READ then Inr (read_ctx c) else if event = WRITE then Inr (write_ctx c)
      else Inl (AssertFail ''getContext''))"

definition putContext :: "u32 \<Rightarrow> 'c event_context \<Rightarrow> 'c fd_context \<Rightarrow> 'c fd_context" where
  "putContext event x c = (if event = READ then c\<lparr>read_ctx := x\<rparr> else c\<lparr>write_ctx := x\<rparr>)"

definition resetContext :: "'c event_context \<Rightarrow> 'c event_context" where
  "resetContext x = x\<lparr>ev_scheduler := None, ev_fiber := None, ev_cb := None\<rparr>"

text \<open>\<open>triggerEvent\<close>: the context afterwards, and the scheduler and task of the \<open>schedule\<close> call
  it makes (swapping the callback or fiber out of the context).\<close>

definition triggerEvent ::
    "u32 \<Rightarrow> 'c fd_context \<Rightarrow> ('c fd_context \<times> nat \<times> 'c task) result" where
  "triggerEvent event c0 =
     rbind (SYLAR_ASSERT (events c0 AND event \<noteq> 0) ''events & event'')
       (\<lambda>_. let c = c0\<lparr>events := events c0 AND NOT event\<rparr>
            in rbind (getContext event c)
              (\<lambda>x. case ev_scheduler x of
                 None \<Rightarrow> Inl (Undefined ''null scheduler'')
               | Some sch \<Rightarrow>
                   (case ev_cb x of
                      Some cb \<Rightarrow> Inr (putContext event (x\<lparr>ev_cb := None, ev_scheduler := None\<rparr>) c,
                                     sch, cb_task (Some cb) (-1))
                    | None \<Rightarrow> Inr (putContext event (x\<lparr>ev_fiber := None, ev_scheduler := None\<rparr>) c,
                                   sch, fiber_task (ev_fiber x) (-1)))))"

section \<open>The manager\<close>

definition hasIdleThreads :: "('c, 'z) sched_scheme \<Rightarrow> bool" where
  "hasIdleThreads s \<longleftrightarrow> m_idleThreadCount s > 0"

text \<open>\<open>tickle\<close>; \<open>wr\<close> is what \<open>write\<close> returns.\<close>

definition tickle :: "int \<Rightarrow> ('w, 'c) iom \<Rightarrow> ('w, 'c) iom result" where
  "tickle wr s =
     (if \<not> hasIdleThreads s then Inr s
      else rbind (SYLAR_ASSERT (wr = 1) ''rt == 1'') (\<lambda>_. Inr (s\<lparr>tickle_pipe := tickle_pipe s + 1\<rparr>)))"

definition onTimerInsertedAtFront :: "int \<Rightarrow> ('w, 'c) iom \<Rightarrow> ('w, 'c) iom result" where
  "onTimerInsertedAtFront wr s = tickle wr s"

text \<open>\<open>schedule\<close> on the scheduler \<open>sch\<close>, which may be the manager itself (\<open>me\<close>).\<close>

definition post :: "nat \<Rightarrow> int \<Rightarrow> nat \<Rightarrow> ('w, 'c) tcb task \<Rightarrow> ('w, 'c) iom \<Rightarrow> ('w, 'c) iom result" where
  "post me wr sch t s =
     (if sch = me then let (s1, need_tickle) = schedule t s in if need_tickle then tickle wr s1 else Inr s1
      else Inr (s\<lparr>posted := posted s @ [(sch, t)]\<rparr>))"

text \<open>\<open>contextResize\<close>.\<close>

definition contextResize :: "nat \<Rightarrow> ('w, 'c) iom \<Rightarrow> ('w, 'c) iom" where
  "contextResize n s = s\<lparr>m_fdContexts :=
     map (\<lambda>i. if i < length (m_fdContexts s) then m_fdContexts s ! i else FdContext (int i)) [0..<n]\<rparr>"

definition put_ctx :: "int \<Rightarrow> ('w, 'c) tcb fd_context \<Rightarrow> ('w, 'c) iom \<Rightarrow> ('w, 'c) iom" where
  "put_ctx fd c s = s\<lparr>m_fdContexts := (m_fdContexts s)[nat fd := c]\<rparr>"

text \<open>The context \<open>addEvent\<close> works on: the size is tested under the read lock, the table grown
  under the write lock; \<open>fd * 1.5\<close> is truncated.\<close>

definition addEvent_grow :: "int \<Rightarrow> ('w, 'c) iom \<Rightarrow> ('w, 'c) iom" where
  "addEvent_grow fd s = contextResize (nat (3 * fd div 2)) s"

definition addEvent_table :: "int \<Rightarrow> ('w, 'c) iom \<Rightarrow> ('w, 'c) iom" where
  "addEvent_table fd s = (if int (length (m_fdContexts s)) > fd then s else addEvent_grow fd s)"

text \<open>\<open>addEvent\<close>; \<open>rt\<close> is the result of \<open>epoll_ctl\<close>, \<open>fmain\<close> the address of a main fiber that
  \<open>Fiber::GetThis\<close> may make.\<close>

definition addEvent ::
    "faddr \<Rightarrow> int \<Rightarrow> int \<Rightarrow> u32 \<Rightarrow> ('w, 'c) tcb option \<Rightarrow> ('w, 'c) iom \<Rightarrow> (('w, 'c) iom \<times> int) result" where
  "addEvent fmain rt fd event cb s0 =
     (let s = addEvent_table fd s0
      in rbind (vec_get (m_fdContexts s) fd)
       (\<lambda>c. rbind (SYLAR_ASSERT (events c AND event = 0) ''!(fd_ctx->events & event)'')
       (\<lambda>_. let op = (if events c \<noteq> 0 then EPOLL_CTL_MOD else EPOLL_CTL_ADD)
            in if rt \<noteq> 0 then Inr (s, -1)
               else let s1 = (epoll_ctl op fd (EPOLLET OR events c OR event) s)
                               \<lparr>m_pendingEventCount := m_pendingEventCount s + 1\<rparr>;
                        c1 = c\<lparr>events := events c OR event\<rparr>
                    in rbind (getContext event c1)
                      (\<lambda>x. rbind (SYLAR_ASSERT (ev_scheduler x = None \<and> ev_fiber x = None \<and> ev_cb x = None)
                              ''!event_ctx.scheduler && !event_ctx.fiber && !event_ctx.cb'')
                      (\<lambda>_. let x1 = x\<lparr>ev_scheduler := t_scheduler s1\<rparr>
                           in case cb of
                             Some f \<Rightarrow> Inr (put_ctx fd (putContext event (x1\<lparr>ev_cb := Some f\<rparr>) c1) s1, 0)
                           | None \<Rightarrow>
                               rbind (Fibers.GetThis fmain 0 (fs s1))
                                (\<lambda>(f1, cur). rbind (SYLAR_ASSERT (m_state (fiber_at f1 cur) = EXEC)
                                     ''event_ctx.fiber->getState() == Fiber::EXEC'')
                                (\<lambda>_. Inr (put_ctx fd (putContext event (x1\<lparr>ev_fiber := Some cur\<rparr>) c1)
                                            (s1\<lparr>fs := f1\<rparr>), 0))))))))"

definition delEvent :: "int \<Rightarrow> int \<Rightarrow> u32 \<Rightarrow> ('w, 'c) iom \<Rightarrow> (('w, 'c) iom \<times> bool) result" where
  "delEvent rt fd event s =
     (if int (length (m_fdContexts s)) \<le> fd then Inr (s, False)
      else rbind (vec_get (m_fdContexts s) fd)
       (\<lambda>c. if events c AND event = 0 then Inr (s, False)
            else let new_events = events c AND NOT event;
                     op = (if new_events \<noteq> 0 then EPOLL_CTL_MOD else EPOLL_CTL_DEL)
                 in if rt \<noteq> 0 then Inr (s, False)
                    else let s1 = (epoll_ctl op fd (EPOLLET OR new_events) s)
                                    \<lparr>m_pendingEventCount := m_pendingEventCount s - 1\<rparr>;
                             c1 = c\<lparr>events := new_events\<rparr>
                         in rbind (getContext event c1)
                           (\<lambda>x. Inr (put_ctx fd (putContext event (resetContext x) c1) s1, True))))"

text \<open>\<open>triggerEvent\<close> on the context of \<open>fd\<close>, followed by \<open>--m_pendingEventCount\<close>.\<close>

definition trigger_at :: "nat \<Rightarrow> int \<Rightarrow> int \<Rightarrow> u32 \<Rightarrow> ('w, 'c) iom \<Rightarrow> ('w, 'c) iom result" where
  "trigger_at me wr fd event s =
     rbind (vec_get (m_fdContexts s) fd)
       (\<lambda>c. rbind (triggerEvent event c)
       (\<lambda>(c1, sch, t). rbind (post me wr sch t (put_ctx fd c1 s))
       (\<lambda>s1. Inr (s1\<lparr>m_pendingEventCount := m_pendingEventCount s1 - 1\<rparr>))))"

definition cancelEvent ::
    "nat \<Rightarrow> int \<Rightarrow> int \<Rightarrow> int \<Rightarrow> u32 \<Rightarrow> ('w, 'c) iom \<Rightarrow> (('w, 'c) iom \<times> bool) result" where
  "cancelEvent me wr rt fd event s =
     (if int (length (m_fdContexts s)) \<le> fd then Inr (s, False)
      else rbind (vec_get (m_fdContexts s) fd)
       (\<lambda>c. if events c AND event = 0 then Inr (s, False)
            else let new_events = events c AND NOT event;
                     op = (if new_events \<noteq> 0 then EPOLL_CTL_MOD else EPOLL_CTL_DEL)
                 in if rt \<noteq> 0 then Inr (s, False)
                    else rbind (trigger_at me wr fd event (epoll_ctl op fd (EPOLLET OR new_events) s))
                           (\<lambda>s1. Inr (s1, True))))"

text \<open>Trigger an event if the mask has it, as \<open>cancelAll\<close> and \<open>idle\<close> do in turn.\<close>

definition trigger_if ::
    "nat \<Rightarrow> int \<Rightarrow> int \<Rightarrow> u32 \<Rightarrow> u32 \<Rightarrow> ('w, 'c) iom \<Rightarrow> ('w, 'c) iom result" where
  "trigger_if me wr fd event evs s =
     (if evs AND event \<noteq> 0 then trigger_at me wr fd event s else Inr s)"

definition cancelAll :: "nat \<Rightarrow> int \<Rightarrow> int \<Rightarrow> int \<Rightarrow> ('w, 'c) iom \<Rightarrow> (('w, 'c) iom \<times> bool) result" where
  "cancelAll me wr rt fd s =
     (if int (length (m_fdContexts s)) \<le> fd then Inr (s, False)
      else rbind (vec_get (m_fdContexts s) fd)
       (\<lambda>c. if events c = 0 then Inr (s, False)
            else if rt \<noteq> 0 then Inr (s, False)
            else rbind (trigger_if me wr fd READ (events c) (epoll_ctl EPOLL_CTL_DEL fd 0 s))
             (\<lambda>s1. rbind (vec_get (m_fdContexts s1) fd)
             (\<lambda>c1. rbind (trigger_if me wr fd WRITE (events c1) s1)
             (\<lambda>s2. rbind (vec_get (m_fdContexts s2) fd)
             (\<lambda>c2. rbind (SYLAR_ASSERT (events c2 = 0) ''fd_ctx->events == 0'')
             (\<lambda>_. Inr (s2, True))))))))"

section \<open>Waiting\<close>

text \<open>\<open>stopping(timeout)\<close>, and \<open>stopping()\<close>.\<close>

definition io_stopping :: "u64 \<Rightarrow> ('w, 'c) iom \<Rightarrow> ('w, 'c) iom \<times> u64 \<times> bool" where
  "io_stopping now s =
     (let (tm, timeout) = getNextTimer now (timers s);
          s1 = s\<lparr>timers := tm\<rparr>
      in (s1, timeout, timeout = NOT 0 \<and> stopping s1 \<and> m_pendingEventCount s1 = 0))"

text \<open>The timeout handed to \<open>epoll_wait\<close>; \<open>(int)x\<close> keeps the low 32 bits, signed.\<close>

definition c_int :: "u64 \<Rightarrow> int" where
  "c_int x = sint (ucast x :: u32)"

definition epoll_timeout :: "u64 \<Rightarrow> int" where
  "epoll_timeout next_timeout =
     (let MAX_TIMEOUT = 3000 :: int;
          t = (if next_timeout \<noteq> NOT 0
               then (if c_int next_timeout > MAX_TIMEOUT then 3000 else next_timeout)
               else 3000)
      in c_int t)"

text \<open>What \<open>epoll_wait\<close> reports: an error number, or entries of a mask and the \<open>epoll_data\<close> that
  was registered: a plain descriptor or the pointer to a context (its index).\<close>

datatype epoll_data = DataFd int | DataPtr nat

datatype wait_result = WErr int | WEvents "(u32 \<times> epoll_data) list"

text \<open>The retry loop around \<open>epoll_wait\<close>, on the results of its calls.\<close>

fun epoll_wait_loop :: "int \<Rightarrow> wait_result list \<Rightarrow> (u32 \<times> epoll_data) list option" where
  "epoll_wait_loop EINTR [] = None"
| "epoll_wait_loop EINTR (WErr e # rs) = (if e = EINTR then epoll_wait_loop EINTR rs else Some [])"
| "epoll_wait_loop EINTR (WEvents es # rs) = Some es"

text \<open>\<open>event.data.fd\<close> of a pointer is its low half, \<open>low32\<close>.\<close>

definition data_fd :: "(nat \<Rightarrow> int) \<Rightarrow> epoll_data \<Rightarrow> int" where
  "data_fd low32 d = (case d of DataFd fd \<Rightarrow> fd | DataPtr i \<Rightarrow> low32 i)"

definition real_events :: "u32 \<Rightarrow> u32" where
  "real_events evs =
     (let evs1 = (if evs AND (EPOLLERR OR EPOLLHUP) \<noteq> 0 then evs OR (EPOLLIN OR EPOLLOUT) else evs)
      in (if evs1 AND EPOLLIN \<noteq> 0 then READ else NONE) OR (if evs1 AND EPOLLOUT \<noteq> 0 then WRITE else NONE))"

text \<open>One iteration of the loop over the events; \<open>rt2\<close> is the result of \<open>epoll_ctl\<close>.\<close>

definition handle_event ::
    "nat \<Rightarrow> int \<Rightarrow> (nat \<Rightarrow> int) \<Rightarrow> int \<Rightarrow> u32 \<times> epoll_data \<Rightarrow> ('w, 'c) iom \<Rightarrow> ('w, 'c) iom result" where
  "handle_event me wr low32 rt2 e s =
     (if data_fd low32 (snd e) = fst (m_tickleFds s) then Inr (s\<lparr>tickle_pipe := 0\<rparr>)
      else case snd e of
        DataFd _ \<Rightarrow> Inl (Undefined ''data.fd used as a pointer'')
      | DataPtr i \<Rightarrow>
          rbind (vec_get (m_fdContexts s) (int i))
           (\<lambda>c. let re = real_events (fst e)
                in if events c AND re = NONE then Inr s
                   else let left_events = events c AND NOT re;
                            op = (if left_events \<noteq> 0 then EPOLL_CTL_MOD else EPOLL_CTL_DEL)
                        in if rt2 \<noteq> 0 then Inr s
                           else rbind (trigger_if me wr (int i) READ re
                                         (epoll_ctl op (ctx_fd c) (EPOLLET OR left_events) s))
                                  (trigger_if me wr (int i) WRITE re)))"

fun handle_events ::
    "nat \<Rightarrow> int \<Rightarrow> (nat \<Rightarrow> int) \<Rightarrow> (int \<times> u32 \<times> epoll_data) list \<Rightarrow> ('w, 'c) iom \<Rightarrow> ('w, 'c) iom result" where
  "handle_events me wr low32 [] s = Inr s"
| "handle_events me wr low32 ((rt2, e) # es) s =
     rbind (handle_event me wr low32 rt2 e s) (handle_events me wr low32 es)"

text \<open>One round of \<open>idle\<close>, up to its \<open>swapOut\<close>: \<open>None\<close> when it leaves the loop. \<open>now1\<close> and
  \<open>now2\<close> are the clock readings of \<open>stopping\<close> and \<open>listExpiredCb\<close>, \<open>waits\<close> the results of
  \<open>epoll_wait\<close>, \<open>rts i\<close> that of \<open>epoll_ctl\<close> for the \<open>i\<close>-th event.\<close>

definition idle_round ::
    "nat \<Rightarrow> int \<Rightarrow> (nat \<Rightarrow> int) \<Rightarrow> int \<Rightarrow> u64 \<Rightarrow> u64 \<Rightarrow> taddr \<Rightarrow> wait_result list \<Rightarrow> (nat \<Rightarrow> int)
       \<Rightarrow> ('w, 'c) iom \<Rightarrow> (('w, 'c) iom \<times> int) option result" where
  "idle_round me wr low32 EINTR now1 now2 nowp waits rts s0 =
     (let (s, next_timeout, stop) = io_stopping now1 s0
      in if stop then Inr None
         else case epoll_wait_loop EINTR waits of
           None \<Rightarrow> Inl (Undefined ''still waiting'')
         | Some es \<Rightarrow>
            (let (tm, cbs) = listExpiredCb now2 nowp (timers s);
                 s1 = s\<lparr>timers := tm\<rparr>;
                 (s2, need_tickle, _) = schedule_range (\<lambda>f. cb_task f (-1)) cbs False s1
             in rbind (if cbs \<noteq> [] \<and> need_tickle then tickle wr s2 else Inr s2)
               (\<lambda>s3. rbind (handle_events me wr low32 (zip (map rts [0..<length es]) es) s3)
               (\<lambda>s4. Inr (Some (s4, epoll_timeout next_timeout))))))"

text \<open>The constructor after \<open>Scheduler\<close>'s: \<open>ep\<close>, \<open>pp\<close>, \<open>fc\<close>, \<open>ct\<close> are the results of
  \<open>epoll_create\<close>, \<open>pipe\<close>, \<open>fcntl\<close> and \<open>epoll_ctl\<close>, \<open>tfds\<close> the descriptors of the pipe.\<close>

definition IOManager_new ::
    "int \<Rightarrow> int \<Rightarrow> int \<times> int \<Rightarrow> int \<Rightarrow> int \<Rightarrow> u64 \<Rightarrow> (nat \<Rightarrow> int) \<Rightarrow> ('w, 'c) tcb sched \<Rightarrow> ('w, 'c) iom result" where
  "IOManager_new ep pp tfds fc ct now ids base =
     rbind (SYLAR_ASSERT (ep > 0) ''m_epfd > 0'')
      (\<lambda>_. rbind (SYLAR_ASSERT (pp = 0) ''!rt'')
      (\<lambda>_. rbind (SYLAR_ASSERT (fc = 0) ''!rt'')
      (\<lambda>_. rbind (SYLAR_ASSERT (ct = 0) ''!rt'')
      (\<lambda>_. start ids (contextResize 32 (epoll_ctl EPOLL_CTL_ADD (fst tfds) (EPOLLIN OR EPOLLET)
             (sched.extend base \<lparr>timers = TimeManager now, m_epfd = ep, m_tickleFds = tfds,
               m_pendingEventCount = 0, m_fdContexts = [], interest = (\<lambda>_. None), tickle_pipe = 0,
               posted = []\<rparr>)))))))"

text \<open>The destructor after \<open>stop\<close>, which \<open>stop_request\<close> and \<open>stop_join\<close> model: the descriptors it
  closes (what \<open>close\<close> returns is ignored) and the contexts it deletes, then \<open>~Scheduler\<close>. With
  its last descriptor an epoll instance loses its entries.\<close>

definition IOManager_delete ::
    "nat \<Rightarrow> ('w, 'c) iom \<Rightarrow> (('w, 'c) iom \<times> int list \<times> ('w, 'c) tcb fd_context list) result" where
  "IOManager_delete me s =
     (let closed = [m_epfd s, fst (m_tickleFds s), snd (m_tickleFds s)];
          s1 = s\<lparr>interest := (\<lambda>_. None), m_fdContexts := []\<rparr>
      in rbind (Scheduler_delete me s1) (\<lambda>s2. Inr (s2, closed, m_fdContexts s)))"

section \<open>The table of contexts\<close>

definition entry_ok :: "bool \<Rightarrow> 'c event_context \<Rightarrow> bool" where
  "entry_ok registered x \<longleftrightarrow> (if registered then ev_scheduler x \<noteq> None \<and> (ev_cb x = None) \<noteq> (ev_fiber x = None)
     else x = EventContext)"

definition fdc_ok :: "nat \<Rightarrow> 'c fd_context \<Rightarrow> bool" where
  "fdc_ok i c \<longleftrightarrow> ctx_fd c = int i \<and> events c \<in> {NONE, READ, WRITE, READ OR WRITE}
     \<and> entry_ok (events c AND READ \<noteq> 0) (read_ctx c) \<and> entry_ok (events c AND WRITE \<noteq> 0) (write_ctx c)"

definition registered :: "'c fd_context \<Rightarrow> nat" where
  "registered c = (if events c AND READ \<noteq> 0 then 1 else 0) + (if events c AND WRITE \<noteq> 0 then 1 else 0)"

definition events_at :: "('w, 'c) iom \<Rightarrow> nat \<Rightarrow> u32" where
  "events_at s i = (if i < length (m_fdContexts s) then events (m_fdContexts s ! i) else NONE)"

definition table_ok :: "('w, 'c) iom \<Rightarrow> bool" where
  "table_ok s \<longleftrightarrow> (\<forall>i < length (m_fdContexts s). fdc_ok i (m_fdContexts s ! i))
     \<and> m_pendingEventCount s = of_nat (sum_list (map registered (m_fdContexts s)))"

definition interest_ok :: "('w, 'c) iom \<Rightarrow> bool" where
  "interest_ok s \<longleftrightarrow> (\<forall>i. int i \<noteq> fst (m_tickleFds s) \<longrightarrow> interest s (int i) =
     (if events_at s i = NONE then None else Some (EPOLLET OR events_at s i)))"

text \<open>The four values a context's \<open>events\<close> takes, and the arithmetic on them.\<close>

lemma event_cases:
  assumes "fdc_ok i c"
  obtains "events c = 0" | "events c = 1" | "events c = 4" | "events c = 5"
  using assms by (auto simp: fdc_ok_def)

lemmas fdc_defs = fdc_ok_def entry_ok_def registered_def EventContext_def

lemma sum_list_update_nat:
  fixes f :: "'a \<Rightarrow> nat"
  assumes "i < length xs"
  shows "sum_list (map f (xs[i := x])) + f (xs ! i) = sum_list (map f xs) + f x"
proof -
  have "xs = take i xs @ xs ! i # drop (Suc i) xs" using assms by (simp add: id_take_nth_drop)
  then have "sum_list (map f xs) = sum_list (map f (take i xs)) + f (xs ! i) + sum_list (map f (drop (Suc i) xs))"
    by (metis (no_types, lifting) add.assoc list.simps(9) map_append sum_list.Cons sum_list_append)
  then show ?thesis using assms by (simp add: upd_conv_take_nth_drop)
qed

text \<open>Replacing one context keeps the count when it moves with the registrations.\<close>

lemma table_ok_put:
  assumes "table_ok s" and "i < length (m_fdContexts s)" and "fdc_ok i c"
    and "n + of_nat (registered (m_fdContexts s ! i)) = m_pendingEventCount s + of_nat (registered c)"
    and "m_fdContexts s' = (m_fdContexts s)[i := c]" and "m_pendingEventCount s' = n"
  shows "table_ok s'"
proof -
  have "of_nat (sum_list (map registered ((m_fdContexts s)[i := c]))) + of_nat (registered (m_fdContexts s ! i))
      = (of_nat (sum_list (map registered (m_fdContexts s))) + of_nat (registered c) :: u64)"
    using sum_list_update_nat [OF assms(2), of registered c] by (metis of_nat_add)
  then have "n = of_nat (sum_list (map registered ((m_fdContexts s)[i := c])))"
    using assms(1,4) unfolding table_ok_def by (metis add_right_imp_eq)
  then show ?thesis
    using assms unfolding table_ok_def by (auto simp: nth_list_update)
qed

section \<open>Triggering\<close>

definition entry_of :: "u32 \<Rightarrow> 'c fd_context \<Rightarrow> 'c event_context" where
  "entry_of event c = (if event = READ then read_ctx c else write_ctx c)"

definition entry_task :: "'c event_context \<Rightarrow> 'c task" where
  "entry_task x = (case ev_cb x of Some cb \<Rightarrow> cb_task (Some cb) (-1) | None \<Rightarrow> fiber_task (ev_fiber x) (-1))"

definition triggered :: "u32 \<Rightarrow> 'c fd_context \<Rightarrow> 'c fd_context" where
  "triggered event c = putContext event EventContext (c\<lparr>events := events c AND NOT event\<rparr>)"

lemma triggerEvent_outcome:
  assumes "fdc_ok i c" and "event \<in> {READ, WRITE}" and "events c AND event \<noteq> 0"
  shows "triggerEvent event c = Inr (triggered event c, the (ev_scheduler (entry_of event c)),
      entry_task (entry_of event c))"
    and "fdc_ok i (triggered event c)" and "registered c = Suc (registered (triggered event c))"
    and "is_task (entry_task (entry_of event c))"
proof -
  have e: "entry_ok True (entry_of event c)" using assms by (auto simp: fdc_ok_def entry_of_def)
  show "triggerEvent event c = Inr (triggered event c, the (ev_scheduler (entry_of event c)),
      entry_task (entry_of event c))"
    using assms e
    by (auto simp: triggerEvent_def getContext_def putContext_def triggered_def entry_of_def entry_ok_def
        entry_task_def EventContext_def split: option.splits)
  show "is_task (entry_task (entry_of event c))"
    using e by (auto simp: entry_ok_def entry_task_def is_task_def cb_task_def fiber_task_def split: option.splits)
  from assms(1) show "fdc_ok i (triggered event c)"
    using assms by (cases rule: event_cases) (auto simp: triggered_def putContext_def fdc_defs)
  from assms(1) show "registered c = Suc (registered (triggered event c))"
    using assms(2,3) by (cases rule: event_cases) (auto simp: triggered_def putContext_def registered_def)
qed

text \<open>What handing a task to a scheduler changes. The wake-up byte is written exactly when the
  own queue was empty and a thread is idle.\<close>

definition handed :: "nat \<Rightarrow> nat \<Rightarrow> ('w, 'c) tcb task \<Rightarrow> ('w, 'c) iom \<Rightarrow> ('w, 'c) iom" where
  "handed me sch t s =
     (if sch = me then s\<lparr>m_fibers := m_fibers s @ [t],
        tickle_pipe := tickle_pipe s + (if m_fibers s = [] \<and> hasIdleThreads s then 1 else 0)\<rparr>
      else s\<lparr>posted := posted s @ [(sch, t)]\<rparr>)"

lemma post_outcome:
  "is_task t \<Longrightarrow> post me 1 sch t s = Inr (handed me sch t s)"
  by (simp add: post_def schedule_def scheduleNoLock_def Let_def tickle_def hasIdleThreads_def handed_def)

lemma handed_simps [simp]:
  "m_fdContexts (handed me sch t s) = m_fdContexts s"
  "m_pendingEventCount (handed me sch t s) = m_pendingEventCount s"
  "interest (handed me sch t s) = interest s" "m_tickleFds (handed me sch t s) = m_tickleFds s"
  "timers (handed me sch t s) = timers s" "fs (handed me sch t s) = fs s"
  "m_idleThreadCount (handed me sch t s) = m_idleThreadCount s"
  by (simp_all add: handed_def)

text \<open>The tasks a manager has handed out, its own queue and the other schedulers' together.\<close>

definition delivered :: "nat \<Rightarrow> ('w, 'c) iom \<Rightarrow> (nat \<times> ('w, 'c) tcb task) list" where
  "delivered me s = map (Pair me) (m_fibers s) @ filter (\<lambda>p. fst p \<noteq> me) (posted s)"

definition after_trigger :: "nat \<Rightarrow> nat \<Rightarrow> u32 \<Rightarrow> ('w, 'c) iom \<Rightarrow> ('w, 'c) iom" where
  "after_trigger me i event s =
     (let c = m_fdContexts s ! i; x = entry_of event c
      in (handed me (the (ev_scheduler x)) (entry_task x)
            (s\<lparr>m_fdContexts := (m_fdContexts s)[i := triggered event c]\<rparr>))
           \<lparr>m_pendingEventCount := m_pendingEventCount s - 1\<rparr>)"

lemma after_trigger_simps [simp]:
  "m_fdContexts (after_trigger me i event s) = (m_fdContexts s)[i := triggered event (m_fdContexts s ! i)]"
  "m_pendingEventCount (after_trigger me i event s) = m_pendingEventCount s - 1"
  "interest (after_trigger me i event s) = interest s"
  "m_tickleFds (after_trigger me i event s) = m_tickleFds s"
  "timers (after_trigger me i event s) = timers s" "fs (after_trigger me i event s) = fs s"
  by (simp_all add: after_trigger_def Let_def)

lemma trigger_at_outcome:
  assumes t: "table_ok s" and i: "i < length (m_fdContexts s)" and e: "event \<in> {READ, WRITE}"
    and reg: "events (m_fdContexts s ! i) AND event \<noteq> 0"
  shows "trigger_at me 1 (int i) event s = Inr (after_trigger me i event s)"
    and "table_ok (after_trigger me i event s)"
proof -
  have c: "fdc_ok i (m_fdContexts s ! i)" using t i by (simp add: table_ok_def)
  note tr = triggerEvent_outcome [OF c e reg]
  show "trigger_at me 1 (int i) event s = Inr (after_trigger me i event s)"
    using i by (simp add: trigger_at_def tr(1) put_ctx_def post_outcome [OF tr(4)] after_trigger_def Let_def)
  show "table_ok (after_trigger me i event s)"
    by (rule table_ok_put [OF t i tr(2)]) (simp_all add: tr(3))
qed

lemma events_at_update:
  "i < length (m_fdContexts s) \<Longrightarrow> m_fdContexts s' = (m_fdContexts s)[i := c]
    \<Longrightarrow> events_at s' j = (if j = i then events c else events_at s j)"
  by (auto simp: events_at_def)

lemma triggered_events [simp]: "events (triggered event c) = events c AND NOT event"
  by (simp add: triggered_def putContext_def)

lemma triggered_other:
  "event \<in> {READ, WRITE} \<Longrightarrow> event' \<in> {READ, WRITE} \<Longrightarrow> event' \<noteq> event
    \<Longrightarrow> entry_of event' (triggered event c) = entry_of event' c"
  by (auto simp: entry_of_def triggered_def putContext_def)

text \<open>Telling the kernel: the entry of one descriptor follows its context.\<close>

lemma interest_ok_ctl:
  assumes "interest_ok s" and "int i \<noteq> fst (m_tickleFds s)"
    and "interest s' = (interest s)(int i := (if e = NONE then None else Some (EPOLLET OR e)))"
    and "m_tickleFds s' = m_tickleFds s" and "\<And>j. events_at s' j = (if j = i then e else events_at s j)"
  shows "interest_ok s'"
  using assms unfolding interest_ok_def by auto

definition io_inv :: "('w, 'c) iom \<Rightarrow> bool" where
  "io_inv s \<longleftrightarrow> table_ok s \<and> interest_ok s"

text \<open>The \<open>epoll_ctl\<close> that leaves the events \<open>e\<close> of a context registered.\<close>

definition told :: "nat \<Rightarrow> u32 \<Rightarrow> ('w, 'c) iom \<Rightarrow> ('w, 'c) iom" where
  "told i e s = epoll_ctl (if e \<noteq> 0 then EPOLL_CTL_MOD else EPOLL_CTL_DEL) (int i) (EPOLLET OR e) s"

lemma told_simps [simp]:
  "m_fdContexts (told i e s) = m_fdContexts s" "m_pendingEventCount (told i e s) = m_pendingEventCount s"
  "m_tickleFds (told i e s) = m_tickleFds s" "events_at (told i e s) j = events_at s j"
  "interest (told i e s) = (interest s)(int i := (if e = NONE then None else Some (EPOLLET OR e)))"
  "table_ok (told i e s) = table_ok s" "m_fibers (told i e s) = m_fibers s"
  "posted (told i e s) = posted s"
  by (simp_all add: told_def epoll_ctl_def events_at_def table_ok_def)

definition cancelled :: "nat \<Rightarrow> nat \<Rightarrow> u32 \<Rightarrow> ('w, 'c) iom \<Rightarrow> ('w, 'c) iom" where
  "cancelled me i event s = after_trigger me i event (told i (events_at s i AND NOT event) s)"

lemma cancelEvent_outcome:
  assumes inv: "io_inv s" and i: "i < length (m_fdContexts s)" and e: "event \<in> {READ, WRITE}"
    and nt: "int i \<noteq> fst (m_tickleFds s)" and reg: "events_at s i AND event \<noteq> 0"
  shows "cancelEvent me 1 0 (int i) event s = Inr (cancelled me i event s, True)"
    and "io_inv (cancelled me i event s)"
proof -
  let ?left = "events_at s i AND NOT event"
  have ev: "events (m_fdContexts s ! i) = events_at s i" using i by (simp add: events_at_def)
  have t: "table_ok (told i ?left s)" using inv by (simp add: io_inv_def)
  have r: "events (m_fdContexts s ! i) AND event \<noteq> 0" using reg ev by simp
  note tr = trigger_at_outcome [of "told i ?left s" i event me, OF t _ e, unfolded told_simps, OF i r]
  show "cancelEvent me 1 0 (int i) event s = Inr (cancelled me i event s, True)"
    using i reg tr(1) ev unfolding cancelEvent_def told_def Let_def cancelled_def by simp
  have "interest_ok (cancelled me i event s)"
    by (rule interest_ok_ctl [where s = s and i = i and e = ?left])
      (use inv i ev nt in \<open>auto simp: io_inv_def cancelled_def events_at_def\<close>)
  then show "io_inv (cancelled me i event s)" using tr(2) by (simp add: io_inv_def cancelled_def)
qed

text \<open>Triggering the events of a mask, reading first.\<close>

definition triggered_all :: "nat \<Rightarrow> nat \<Rightarrow> u32 \<Rightarrow> ('w, 'c) iom \<Rightarrow> ('w, 'c) iom" where
  "triggered_all me i evs s =
     (let s1 = (if evs AND READ \<noteq> 0 then after_trigger me i READ s else s)
      in if evs AND WRITE \<noteq> 0 then after_trigger me i WRITE s1 else s1)"

lemma triggered_all_frame [simp]:
  "interest (triggered_all me i evs s) = interest s"
  "m_tickleFds (triggered_all me i evs s) = m_tickleFds s"
  "length (m_fdContexts (triggered_all me i evs s)) = length (m_fdContexts s)"
  by (simp_all add: triggered_all_def Let_def)

lemma trigger_both:
  assumes t: "table_ok s" and i: "i < length (m_fdContexts s)" and m: "evs \<in> {0, 1, 4, 5}"
    and sub: "events_at s i AND evs = evs"
  shows "rbind (trigger_if me 1 (int i) READ evs s) (trigger_if me 1 (int i) WRITE evs)
      = Inr (triggered_all me i evs s)"
    and "table_ok (triggered_all me i evs s)"
    and "events_at (triggered_all me i evs s) j = (if j = i then events_at s i AND NOT evs else events_at s j)"
proof -
  have ev: "events (m_fdContexts s ! i) = events_at s i" using i by (simp add: events_at_def)
  have c: "fdc_ok i (m_fdContexts s ! i)" using t i by (simp add: table_ok_def)
  let ?s1 = "if evs AND READ \<noteq> 0 then after_trigger me i READ s else s"
  have in4: "events_at s i \<in> {0, 1, 4, 5}" using c ev by (auto simp: fdc_ok_def)
  have r: "evs AND READ \<noteq> 0 \<Longrightarrow> events_at s i AND READ \<noteq> 0"
    and w: "evs AND WRITE \<noteq> 0 \<Longrightarrow> events_at s i AND WRITE \<noteq> 0 \<and> (events_at s i AND NOT READ) AND WRITE \<noteq> 0"
    using m sub in4 by auto
  have s1: "trigger_if me 1 (int i) READ evs s = Inr ?s1" "table_ok ?s1"
    using trigger_at_outcome [OF t i, of READ me] r ev t by (auto simp: trigger_if_def)
  have i1: "i < length (m_fdContexts ?s1)" using i by simp
  have w1: "evs AND WRITE \<noteq> 0 \<Longrightarrow> events (m_fdContexts ?s1 ! i) AND WRITE \<noteq> 0"
    using w ev i by simp
  have s2: "trigger_if me 1 (int i) WRITE evs ?s1 = Inr (triggered_all me i evs s)"
    "table_ok (triggered_all me i evs s)"
    using trigger_at_outcome [OF s1(2) i1, of WRITE me] w1 s1(2)
    by (auto simp: trigger_if_def triggered_all_def Let_def)
  let ?e1 = "if evs AND READ \<noteq> 0 then events_at s i AND NOT READ else events_at s i"
  have nth: "m_fdContexts (triggered_all me i evs s) ! j = m_fdContexts s ! j" if "j \<noteq> i" for j
    using that by (simp add: triggered_all_def Let_def)
  have at: "events (m_fdContexts (triggered_all me i evs s) ! i)
      = (if evs AND WRITE \<noteq> 0 then ?e1 AND NOT WRITE else ?e1)"
    using i ev by (simp add: triggered_all_def Let_def)
  have "(if evs AND WRITE \<noteq> 0 then ?e1 AND NOT WRITE else ?e1) = events_at s i AND NOT evs"
    using m in4 sub by (elim insertE emptyE; simp)
  then have events: "events_at (triggered_all me i evs s) j
      = (if j = i then events_at s i AND NOT evs else events_at s j)"
    using at nth [of j] i by (simp add: events_at_def)
  show "rbind (trigger_if me 1 (int i) READ evs s) (trigger_if me 1 (int i) WRITE evs)
      = Inr (triggered_all me i evs s)"
    by (simp only: s1(1) rbind_simps s2(1))
  show "table_ok (triggered_all me i evs s)" by (rule s2(2))
  show "events_at (triggered_all me i evs s) j = (if j = i then events_at s i AND NOT evs else events_at s j)"
    by (rule events)
qed

definition cancelled_all :: "nat \<Rightarrow> nat \<Rightarrow> ('w, 'c) iom \<Rightarrow> ('w, 'c) iom" where
  "cancelled_all me i s = triggered_all me i (events_at s i) (told i NONE s)"

lemma trigger_READ_events:
  assumes "table_ok s" and "i < length (m_fdContexts s)"
    and "trigger_if me 1 (int i) READ (events_at s i) s = Inr s1"
  shows "i < length (m_fdContexts s1)" and "events (m_fdContexts s1 ! i) = events_at s i AND NOT READ"
proof -
  have c: "fdc_ok i (m_fdContexts s ! i)" using assms by (simp add: table_ok_def)
  have ev: "events (m_fdContexts s ! i) = events_at s i" using assms(2) by (simp add: events_at_def)
  then have in4: "events_at s i \<in> {0, 1, 4, 5}" using c by (auto simp: fdc_ok_def)
  have "s1 = (if events_at s i AND READ \<noteq> 0 then after_trigger me i READ s else s)"
    using assms trigger_at_outcome [OF assms(1,2), of READ me] ev by (auto simp: trigger_if_def split: if_splits)
  then show "i < length (m_fdContexts s1)" and "events (m_fdContexts s1 ! i) = events_at s i AND NOT READ"
    using in4 assms(2) ev by auto
qed

lemma cancelAll_outcome:
  assumes inv: "io_inv s" and i: "i < length (m_fdContexts s)"
    and nt: "int i \<noteq> fst (m_tickleFds s)" and reg: "events_at s i \<noteq> 0"
  shows "cancelAll me 1 0 (int i) s = Inr (cancelled_all me i s, True)"
    and "io_inv (cancelled_all me i s)" and "events_at (cancelled_all me i s) i = 0"
proof -
  let ?s = "told i NONE s"
  have ev: "events (m_fdContexts s ! i) = events_at s i" using i by (simp add: events_at_def)
  have t: "table_ok ?s" using inv by (simp add: io_inv_def)
  have c: "fdc_ok i (m_fdContexts s ! i)" using inv i by (simp add: io_inv_def table_ok_def)
  have in4: "events_at s i \<in> {0, 1, 4, 5}" using c ev by (auto simp: fdc_ok_def)
  have i': "i < length (m_fdContexts ?s)" using i by simp
  have sub: "events_at ?s i AND events_at s i = events_at s i" by simp
  note b = trigger_both [OF t i' in4 sub, of me]
  obtain s1 where s1: "trigger_if me 1 (int i) READ (events_at s i) ?s = Inr s1"
    "trigger_if me 1 (int i) WRITE (events_at s i) s1 = Inr (cancelled_all me i s)"
    using b(1) by (auto simp: rbind_Inr_iff cancelled_all_def)
  have t1: "i < length (m_fdContexts s1)" "events (m_fdContexts s1 ! i) = events_at s i AND NOT READ"
    using trigger_READ_events [OF t i', of me s1] s1(1) by simp_all
  then have w: "trigger_if me 1 (int i) WRITE (events (m_fdContexts s1 ! i)) s1 = Inr (cancelled_all me i s)"
    using s1(2) in4 unfolding t1(2) trigger_if_def by (elim insertE emptyE; simp)
  show z: "events_at (cancelled_all me i s) i = 0" using b(3) by (simp add: cancelled_all_def)
  have len: "i < length (m_fdContexts (cancelled_all me i s))" using i by (simp add: cancelled_all_def)
  have z': "events (m_fdContexts (cancelled_all me i s) ! i) = 0"
    using z len by (simp add: events_at_def)
  have ctl: "epoll_ctl EPOLL_CTL_DEL (int i) 0 s = ?s" by (simp add: told_def epoll_ctl_def)
  show "cancelAll me 1 0 (int i) s = Inr (cancelled_all me i s, True)"
    using i reg z' len t1(1) by (simp add: cancelAll_def ctl ev s1(1) w)
  have "interest_ok (cancelled_all me i s)"
    by (rule interest_ok_ctl [where s = s and i = i and e = NONE])
      (use inv nt b(3) in \<open>auto simp: io_inv_def cancelled_all_def\<close>)
  then show "io_inv (cancelled_all me i s)" using b(2) by (simp add: io_inv_def cancelled_all_def)
qed

section \<open>Adding and deleting\<close>

lemma getContext_entry: "event \<in> {READ, WRITE} \<Longrightarrow> getContext event c = Inr (entry_of event c)"
  by (auto simp: getContext_def entry_of_def)

lemma resetContext_eq: "resetContext x = EventContext"
  by (simp add: resetContext_def EventContext_def)

definition deleted :: "nat \<Rightarrow> u32 \<Rightarrow> ('w, 'c) iom \<Rightarrow> ('w, 'c) iom" where
  "deleted i event s = (told i (events_at s i AND NOT event) s)
     \<lparr>m_pendingEventCount := m_pendingEventCount s - 1,
      m_fdContexts := (m_fdContexts s)[i := triggered event (m_fdContexts s ! i)]\<rparr>"

lemma delEvent_outcome:
  assumes inv: "io_inv s" and i: "i < length (m_fdContexts s)" and e: "event \<in> {READ, WRITE}"
    and nt: "int i \<noteq> fst (m_tickleFds s)" and reg: "events_at s i AND event \<noteq> 0"
  shows "delEvent 0 (int i) event s = Inr (deleted i event s, True)" and "io_inv (deleted i event s)"
proof -
  let ?c = "m_fdContexts s ! i"
  have ev: "events ?c = events_at s i" using i by (simp add: events_at_def)
  have c: "fdc_ok i ?c" and t: "table_ok s" using inv i by (simp_all add: io_inv_def table_ok_def)
  have r: "events ?c AND event \<noteq> 0" using reg ev by simp
  note tr = triggerEvent_outcome [OF c e r]
  show "delEvent 0 (int i) event s = Inr (deleted i event s, True)"
    using i reg
    by (simp add: delEvent_def Let_def ev deleted_def told_def put_ctx_def getContext_entry [OF e]
        resetContext_eq triggered_def epoll_ctl_def)
  have "table_ok (deleted i event s)"
    by (rule table_ok_put [OF t i tr(2)]) (simp_all add: deleted_def tr(3))
  moreover have "interest_ok (deleted i event s)"
    by (rule interest_ok_ctl [where s = s and i = i and e = "events_at s i AND NOT event"])
      (use inv i ev nt in \<open>auto simp: io_inv_def deleted_def events_at_def\<close>)
  ultimately show "io_inv (deleted i event s)" by (simp add: io_inv_def)
qed

lemma contextResize_grow:
  assumes inv: "io_inv s" and n: "length (m_fdContexts s) \<le> n"
  shows "io_inv (contextResize n s)" and "length (m_fdContexts (contextResize n s)) = n"
    and "events_at (contextResize n s) i = events_at s i"
proof -
  have new: "fdc_ok i (FdContext (int i))" "registered (FdContext (int i)) = 0" "events (FdContext (int i)) = 0"
    for i by (simp_all add: FdContext_def fdc_defs)
  show len: "length (m_fdContexts (contextResize n s)) = n" by (simp add: contextResize_def)
  show ev: "events_at (contextResize n s) i = events_at s i" for i
    using n by (simp add: events_at_def contextResize_def new(3))
  have "map registered (m_fdContexts (contextResize n s))
      = map registered (m_fdContexts s) @ replicate (n - length (m_fdContexts s)) 0"
    using n by (intro nth_equalityI) (auto simp: contextResize_def nth_append new(2))
  then have "sum_list (map registered (m_fdContexts (contextResize n s)))
      = sum_list (map registered (m_fdContexts s))" by (simp add: sum_list_replicate)
  then have "table_ok (contextResize n s)"
    using inv new(1) by (auto simp: io_inv_def table_ok_def contextResize_def)
  moreover have "interest_ok (contextResize n s)"
    using inv ev by (simp add: io_inv_def interest_ok_def) (simp add: contextResize_def)
  ultimately show "io_inv (contextResize n s)" by (simp add: io_inv_def)
qed

lemma addEvent_table_outcome:
  assumes inv: "io_inv s" and fd: "0 \<le> fd" and big: "32 \<le> length (m_fdContexts s)"
  shows "io_inv (addEvent_table fd s)" and "nat fd < length (m_fdContexts (addEvent_table fd s))"
    and "events_at (addEvent_table fd s) i = events_at s i"
    and "m_tickleFds (addEvent_table fd s) = m_tickleFds s"
    and "length (m_fdContexts s) \<le> length (m_fdContexts (addEvent_table fd s))"
proof -
  have *: "length (m_fdContexts s) \<le> nat (3 * fd div 2) \<and> nat fd < nat (3 * fd div 2)"
    if "\<not> fd < int (length (m_fdContexts s))"
    using that big by linarith
  show "io_inv (addEvent_table fd s)" and "nat fd < length (m_fdContexts (addEvent_table fd s))"
    and "events_at (addEvent_table fd s) i = events_at s i"
    and "m_tickleFds (addEvent_table fd s) = m_tickleFds s"
    and "length (m_fdContexts s) \<le> length (m_fdContexts (addEvent_table fd s))"
    using * contextResize_grow [OF inv] inv fd
    by (auto simp: addEvent_table_def addEvent_grow_def contextResize_def)
qed

definition added :: "nat \<Rightarrow> u32 \<Rightarrow> ('w, 'c) tcb event_context \<Rightarrow> ('w, 'c) iom \<Rightarrow> ('w, 'c) iom" where
  "added i event x s =
     (let c = m_fdContexts s ! i
      in (told i (events c OR event) s)\<lparr>m_pendingEventCount := m_pendingEventCount s + 1,
           m_fdContexts := (m_fdContexts s)[i := putContext event x (c\<lparr>events := events c OR event\<rparr>)]\<rparr>)"

lemma added_context:
  assumes c: "fdc_ok i c" and e: "event \<in> {READ, WRITE}" and reg: "events c AND event = 0"
    and x: "entry_ok True x"
  shows "fdc_ok i (putContext event x (c\<lparr>events := events c OR event\<rparr>))"
    and "registered (putContext event x (c\<lparr>events := events c OR event\<rparr>)) = Suc (registered c)"
proof -
  have r: "entry_ok (events c AND READ \<noteq> 0) (read_ctx c)" "entry_ok (events c AND WRITE \<noteq> 0) (write_ctx c)"
    "ctx_fd c = int i" using c by (simp_all add: fdc_ok_def)
  consider "event = READ" "events c \<in> {0, 4}" | "event = WRITE" "events c \<in> {0, 1}"
    using e reg by (elim insertE emptyE; cases rule: event_cases [OF c]) simp_all
  then have "fdc_ok i (putContext event x (c\<lparr>events := events c OR event\<rparr>))
      \<and> registered (putContext event x (c\<lparr>events := events c OR event\<rparr>)) = Suc (registered c)"
    using x r
    by cases (elim insertE emptyE; simp add: putContext_def fdc_ok_def registered_def)+
  then show "fdc_ok i (putContext event x (c\<lparr>events := events c OR event\<rparr>))"
    and "registered (putContext event x (c\<lparr>events := events c OR event\<rparr>)) = Suc (registered c)"
    by blast+
qed

lemma added_inv:
  assumes inv: "io_inv s" and i: "i < length (m_fdContexts s)" and e: "event \<in> {READ, WRITE}"
    and nt: "int i \<noteq> fst (m_tickleFds s)" and reg: "events_at s i AND event = 0"
    and x: "entry_ok True x"
  shows "io_inv (added i event x s)"
proof -
  let ?c = "m_fdContexts s ! i"
  let ?c' = "putContext event x (?c\<lparr>events := events ?c OR event\<rparr>)"
  have ev: "events ?c = events_at s i" using i by (simp add: events_at_def)
  have c: "fdc_ok i ?c" and t: "table_ok s" using inv i by (simp_all add: io_inv_def table_ok_def)
  have c': "fdc_ok i ?c'" and n: "registered ?c' = Suc (registered ?c)"
    using added_context [OF c e _ x] reg ev by simp_all
  have "table_ok (added i event x s)"
    by (rule table_ok_put [OF t i c']) (simp_all add: added_def Let_def n)
  moreover have ne: "events_at s i OR event \<noteq> 0"
    using c e unfolding ev [symmetric] by (cases rule: event_cases) auto
  have ctl: "interest (added i event x s) = (interest s)(int i :=
      (if events_at s i OR event = NONE then None else Some (EPOLLET OR (events_at s i OR event))))"
    using ne by (simp add: added_def Let_def ev)
  have at: "events_at (added i event x s) j = (if j = i then events_at s i OR event else events_at s j)" for j
    using i by (auto simp: events_at_def added_def Let_def putContext_def)
  have "interest_ok (added i event x s)"
    by (rule interest_ok_ctl [OF _ nt ctl _ at]) (use inv in \<open>simp_all add: io_inv_def added_def Let_def\<close>)
  ultimately show ?thesis by (simp add: io_inv_def)
qed

text \<open>The entry \<open>addEvent\<close> writes: the calling thread's scheduler, and the callback or its fiber.\<close>

definition new_entry :: "('w, 'c) tcb option \<Rightarrow> faddr \<Rightarrow> ('w, 'c) iom \<Rightarrow> ('w, 'c) tcb event_context" where
  "new_entry cb cur s = \<lparr>ev_scheduler = t_scheduler s,
     ev_fiber = (case cb of None \<Rightarrow> Some cur | Some _ \<Rightarrow> None), ev_cb = cb\<rparr>"

lemma addEvent_table_frame [simp]:
  "t_scheduler (addEvent_table fd s) = t_scheduler s" "fs (addEvent_table fd s) = fs s"
  "interest (addEvent_table fd s) = interest s" "m_fibers (addEvent_table fd s) = m_fibers s"
  "m_pendingEventCount (addEvent_table fd s) = m_pendingEventCount s"
  by (simp_all add: addEvent_table_def addEvent_grow_def contextResize_def)

lemma entry_of_events [simp]: "entry_of event (c\<lparr>events := u\<rparr>) = entry_of event c"
  by (simp add: entry_of_def)

lemma events_entry:
  assumes "fdc_ok i c" and "event \<in> {READ, WRITE}" and "events c AND event = 0"
  shows "entry_of event c = EventContext"
  using assms by (auto simp: fdc_ok_def entry_ok_def entry_of_def)

lemma or_event_nonzero: "event \<in> {READ, WRITE} \<Longrightarrow> e OR event \<noteq> (0 :: u32)"
  by (auto simp: or_eq_0_iff)

lemma fs_contexts_commute:
  fixes u :: "('w, 'c) iom"
  shows "u\<lparr>fs := f, m_fdContexts := cs\<rparr> = u\<lparr>m_fdContexts := cs, fs := f\<rparr>"
  by (cases u) simp

text \<open>\<open>addEvent\<close> once the kernel agreed: the entry is free, so only its filling is left.\<close>

lemma addEvent_accepted:
  assumes inv: "io_inv s" and big: "32 \<le> length (m_fdContexts s)" and fd: "0 \<le> fd"
    and e: "event \<in> {READ, WRITE}" and free: "events_at s (nat fd) AND event = 0"
  shows "addEvent fmain 0 fd event cb s =
    (case cb of
       Some f \<Rightarrow> Inr (added (nat fd) event (new_entry cb 0 s) (addEvent_table fd s), 0)
     | None \<Rightarrow> rbind (Fibers.GetThis fmain 0 (fs s)) (\<lambda>(f1, cur).
         rbind (SYLAR_ASSERT (m_state (fiber_at f1 cur) = EXEC) ''event_ctx.fiber->getState() == Fiber::EXEC'')
           (\<lambda>_. Inr ((added (nat fd) event (new_entry None cur s) (addEvent_table fd s))\<lparr>fs := f1\<rparr>, 0))))"
proof -
  let ?i = "nat fd"
  note t = addEvent_table_outcome [OF inv fd big]
  define u where "u = addEvent_table fd s"
  have us: "fs s = fs u" "t_scheduler s = t_scheduler u" by (simp_all add: u_def)
  define c where "c = m_fdContexts u ! ?i"
  have g: "vec_get (m_fdContexts u) fd = Inr c"
    using t(2) fd unfolding c_def u_def by (metis nat_eq_iff vec_get_in)
  have ev: "events c = events_at s ?i" using t(2) t(3) [of ?i] by (simp add: c_def u_def events_at_def)
  have cok: "fdc_ok ?i c" using t(1,2) by (simp add: c_def u_def io_inv_def table_ok_def)
  have x: "entry_of event c = EventContext"
    using events_entry [OF cok e] free ev by simp
  have i: "int ?i = fd" using fd by simp
  note ne = or_event_nonzero [OF e, of "events_at s ?i"]
  show ?thesis
  proof (cases cb)
    case None
    then show ?thesis
      using free ne fd unfolding addEvent_def Let_def u_def [symmetric] added_def new_entry_def told_def
      by (simp add: g ev getContext_entry [OF e] x c_def [symmetric] put_ctx_def EventContext_def
          epoll_ctl_def us i fs_contexts_commute)
  next
    case (Some f)
    then show ?thesis
      using free ne fd unfolding addEvent_def Let_def u_def [symmetric] added_def new_entry_def told_def
      by (simp add: g ev getContext_entry [OF e] x c_def [symmetric] put_ctx_def EventContext_def
          epoll_ctl_def us i)
  qed
qed

lemma addEvent_keeps:
  assumes inv: "io_inv s" and big: "32 \<le> length (m_fdContexts s)" and nt: "fd \<noteq> fst (m_tickleFds s)"
    and e: "event \<in> {READ, WRITE}" and sch: "t_scheduler s \<noteq> None"
    and add: "addEvent fmain rt fd event cb s = Inr (s', r)"
  shows "io_inv s'" and "length (m_fdContexts s) \<le> length (m_fdContexts s')" and "m_tickleFds s' = m_tickleFds s"
proof -
  have fd: "0 \<le> fd"
    using add by (auto simp: addEvent_def addEvent_table_def Let_def rbind_Inr_iff vec_get_Inr_iff)
  let ?s = "addEvent_table fd s" and ?i = "nat fd"
  note t = addEvent_table_outcome [OF inv fd big]
  obtain c where g: "vec_get (m_fdContexts ?s) fd = Inr c" and fc: "events c AND event = 0"
    using add by (auto simp: addEvent_def Let_def rbind_Inr_iff SYLAR_ASSERT_Inr_iff)
  have free: "events_at s ?i AND event = 0"
    using fc g t(2) t(3) [of ?i] by (simp add: events_at_def vec_get_Inr_iff)
  have "s' = ?s \<or> (\<exists>x f. entry_ok True x \<and> s' = added ?i event x ?s\<lparr>fs := f\<rparr>)"
  proof (cases "rt = 0")
    case False
    then show ?thesis using add g by (auto simp: addEvent_def Let_def rbind_Inr_iff)
  next
    case True
    have n: "entry_ok True (new_entry cb cur s)" for cur
      using sch by (simp add: new_entry_def entry_ok_def split: option.splits)
    show ?thesis
    proof (cases cb)
      case None
      then obtain f cur where "s' = (added ?i event (new_entry None cur s) ?s)\<lparr>fs := f\<rparr>"
        using add unfolding True addEvent_accepted [OF inv big fd e free] None by (auto simp: rbind_Inr_iff)
      then show ?thesis using n None by blast
    next
      case (Some f)
      then have "s' = (added ?i event (new_entry cb 0 s) ?s)"
        using add addEvent_accepted [OF inv big fd e free, of fmain cb] True by simp
      then have "s' = (added ?i event (new_entry cb 0 s) ?s)\<lparr>fs := fs s'\<rparr>" by simp
      then show ?thesis using n by blast
    qed
  qed
  moreover have "io_inv (added ?i event x ?s)" if "entry_ok True x" for x
    by (rule added_inv [OF t(1,2) e _ _ that]) (use nt t(3,4) fd free in simp_all)
  moreover have "io_inv (u\<lparr>fs := f\<rparr>) = io_inv u" for u :: "('a, 'b) iom" and f
    by (simp add: io_inv_def table_ok_def interest_ok_def events_at_def)
  ultimately show "io_inv s'" and "length (m_fdContexts s) \<le> length (m_fdContexts s')"
    and "m_tickleFds s' = m_tickleFds s"
    using t(1,4,5) by (auto simp: added_def Let_def)
qed

section \<open>Events the kernel reports\<close>

lemma real_events_values: "real_events evs \<in> {0, 1, 4, 5}"
  by (simp add: real_events_def Let_def)

text \<open>A reported set of events that are all registered: exactly these are triggered, the rest
  stays registered.\<close>

lemma handle_event_outcome:
  assumes inv: "io_inv s" and i: "i < length (m_fdContexts s)"
    and nt: "int i \<noteq> fst (m_tickleFds s)" and low: "low32 i \<noteq> fst (m_tickleFds s)"
    and re: "events_at s i AND real_events evs = real_events evs" and ne: "real_events evs \<noteq> 0"
  shows "handle_event me 1 low32 0 (evs, DataPtr i) s
      = Inr (triggered_all me i (real_events evs) (told i (events_at s i AND NOT (real_events evs)) s))"
    and "io_inv (triggered_all me i (real_events evs) (told i (events_at s i AND NOT (real_events evs)) s))"
proof -
  let ?re = "real_events evs"
  let ?left = "events_at s i AND NOT ?re"
  have ev: "events (m_fdContexts s ! i) = events_at s i" using i by (simp add: events_at_def)
  have fd: "ctx_fd (m_fdContexts s ! i) = int i" using inv i by (simp add: io_inv_def table_ok_def fdc_ok_def)
  have t: "table_ok (told i ?left s)" using inv by (simp add: io_inv_def)
  note b = trigger_both [of "told i ?left s" i ?re me, OF t _ real_events_values, unfolded told_simps, OF i re]
  have "handle_event me 1 low32 0 (evs, DataPtr i) s
      = rbind (trigger_if me 1 (int i) READ ?re (told i ?left s)) (trigger_if me 1 (int i) WRITE ?re)"
    using i low ne re unfolding handle_event_def told_def Let_def by (simp add: data_fd_def ev fd)
  with b(1) show "handle_event me 1 low32 0 (evs, DataPtr i) s = Inr (triggered_all me i ?re (told i ?left s))"
    by simp
  have "interest_ok (triggered_all me i ?re (told i ?left s))"
    by (rule interest_ok_ctl [where s = s and i = i and e = ?left])
      (use inv nt b(3) in \<open>auto simp: io_inv_def\<close>)
  then show "io_inv (triggered_all me i ?re (told i ?left s))" using b(2) by (simp add: io_inv_def)
qed

lemma handle_event_ignored:
  assumes "i < length (m_fdContexts s)" and "low32 i \<noteq> fst (m_tickleFds s)"
    and "events_at s i AND real_events evs = 0 \<or> rt2 \<noteq> 0"
  shows "handle_event me wr low32 rt2 (evs, DataPtr i) s = Inr s"
  using assms by (auto simp: handle_event_def data_fd_def Let_def events_at_def)

text \<open>A report that includes an unregistered event aborts, once \<open>epoll_ctl\<close> succeeded.\<close>

lemma handle_event_unregistered:
  assumes inv: "io_inv s" and i: "i < length (m_fdContexts s)" and low: "low32 i \<noteq> fst (m_tickleFds s)"
    and some: "events_at s i AND real_events evs \<noteq> 0"
    and more: "events_at s i AND real_events evs \<noteq> real_events evs"
  shows "handle_event me 1 low32 0 (evs, DataPtr i) s = Inl (AssertFail ''events & event'')"
proof -
  let ?re = "real_events evs" and ?c = "m_fdContexts s ! i"
  let ?s = "told i (events_at s i AND NOT ?re) s"
  have ev: "events ?c = events_at s i" using i by (simp add: events_at_def)
  have cok: "fdc_ok i ?c" and t: "table_ok ?s" using inv i by (simp_all add: io_inv_def table_ok_def)
  have fd: "ctx_fd ?c = int i" using cok by (simp add: fdc_ok_def)
  have e: "handle_event me 1 low32 0 (evs, DataPtr i) s
      = rbind (trigger_if me 1 (int i) READ ?re ?s) (trigger_if me 1 (int i) WRITE ?re)"
    using i low some unfolding handle_event_def told_def Let_def by (simp add: data_fd_def ev fd)
  have "events_at s i \<in> {0, 1, 4, 5}" using cok ev by (auto simp: fdc_ok_def)
  then have re: "?re = 5" and ec: "events_at s i = 1 \<or> events_at s i = 4"
    using some more real_events_values [of evs] by (elim insertE emptyE; simp)+
  have i': "i < length (m_fdContexts ?s)" using i by simp
  from ec show ?thesis
  proof
    assume r: "events_at s i = 1"
    then have "events (m_fdContexts ?s ! i) AND READ \<noteq> 0" using ev by simp
    note tr = trigger_at_outcome [OF t i' _ this, of me]
    have "trigger_if me 1 (int i) WRITE ?re (after_trigger me i READ ?s) = Inl (AssertFail ''events & event'')"
      using r ev i re by (simp add: trigger_if_def trigger_at_def triggerEvent_def)
    then show ?thesis using e tr(1) re by (simp add: trigger_if_def)
  next
    assume r: "events_at s i = 4"
    then show ?thesis using e ev i re by (simp add: trigger_if_def trigger_at_def triggerEvent_def)
  qed
qed

lemma handle_event_keeps:
  assumes inv: "io_inv s" and i: "i < length (m_fdContexts s)" and nt: "int i \<noteq> fst (m_tickleFds s)"
    and h: "handle_event me 1 low32 rt2 (evs, DataPtr i) s = Inr s'"
  shows "io_inv s' \<and> length (m_fdContexts s') = length (m_fdContexts s) \<and> m_tickleFds s' = m_tickleFds s"
proof (cases "low32 i = fst (m_tickleFds s)")
  case True
  then show ?thesis using h inv
    by (auto simp: handle_event_def data_fd_def io_inv_def table_ok_def interest_ok_def events_at_def)
next
  case low: False
  show ?thesis
  proof (cases "events_at s i AND real_events evs = 0 \<or> rt2 \<noteq> 0")
    case True
    then show ?thesis using handle_event_ignored [of i s low32 evs rt2 me 1] i low h inv by simp
  next
    case False
    then have re: "events_at s i AND real_events evs = real_events evs"
      using handle_event_unregistered [of s i low32 evs me, OF inv i low] h by fastforce
    have ne: "real_events evs \<noteq> 0" using False re by auto
    show ?thesis using handle_event_outcome [of s i low32 evs me, OF inv i nt low re ne] h False by auto
  qed
qed

section \<open>The manager at work\<close>

text \<open>The steps of an IO manager at \<open>me\<close>: its operations on descriptors other than the wake-up
  pipe, called on threads that have a scheduler; a report of the kernel; and anything that
  leaves the table, the count and the kernel's list alone (scheduling, timers, fibers). \<open>write\<close>
  on the wake-up pipe writes its byte.\<close>

inductive io_step :: "nat \<Rightarrow> ('w, 'c) iom \<Rightarrow> ('w, 'c) iom \<Rightarrow> bool" for me where
  io_add: "fd \<noteq> fst (m_tickleFds s) \<Longrightarrow> event \<in> {READ, WRITE} \<Longrightarrow> t_scheduler s \<noteq> None
     \<Longrightarrow> addEvent fmain rt fd event cb s = Inr (s', r) \<Longrightarrow> io_step me s s'"
| io_del: "fd \<noteq> fst (m_tickleFds s) \<Longrightarrow> event \<in> {READ, WRITE}
     \<Longrightarrow> delEvent rt fd event s = Inr (s', b) \<Longrightarrow> io_step me s s'"
| io_cancel: "fd \<noteq> fst (m_tickleFds s) \<Longrightarrow> event \<in> {READ, WRITE}
     \<Longrightarrow> cancelEvent me 1 rt fd event s = Inr (s', b) \<Longrightarrow> io_step me s s'"
| io_cancel_all: "fd \<noteq> fst (m_tickleFds s)
     \<Longrightarrow> cancelAll me 1 rt fd s = Inr (s', b) \<Longrightarrow> io_step me s s'"
| io_report: "int i \<noteq> fst (m_tickleFds s) \<Longrightarrow> handle_event me 1 low32 rt2 (evs, DataPtr i) s = Inr s'
     \<Longrightarrow> io_step me s s'"
| io_other: "m_fdContexts s' = m_fdContexts s \<Longrightarrow> m_pendingEventCount s' = m_pendingEventCount s
     \<Longrightarrow> interest s' = interest s \<Longrightarrow> m_tickleFds s' = m_tickleFds s \<Longrightarrow> io_step me s s'"

inductive io_reach :: "nat \<Rightarrow> ('w, 'c) iom \<Rightarrow> bool" for me where
  io_start: "IOManager_new ep 0 tfds 0 0 now ids base = Inr s \<Longrightarrow> io_reach me s"
| io_next: "io_reach me s \<Longrightarrow> io_step me s s' \<Longrightarrow> io_reach me s'"

definition io_ok :: "('w, 'c) iom \<Rightarrow> bool" where
  "io_ok s \<longleftrightarrow> io_inv s \<and> 32 \<le> length (m_fdContexts s)"

lemma FdContext_new: "registered (FdContext (int i)) = 0" "events (FdContext (int i)) = 0"
  "fdc_ok i (FdContext (int i))"
  by (simp_all add: FdContext_def fdc_defs)

lemma fd_nat: "\<not> int n \<le> fd \<Longrightarrow> vec_get v fd = Inr c \<Longrightarrow> \<exists>i. fd = int i \<and> i < n"
  by (metis not_le of_nat_less_iff vec_get_Inr_iff zero_le_imp_eq_int)

lemma io_ok_step: "io_step me s s' \<Longrightarrow> io_ok s \<Longrightarrow> io_ok s'"
proof (induction rule: io_step.induct)
  case (io_add fd s event fmain rt cb s' r)
  then show ?case using addEvent_keeps [of s fd event fmain rt cb s' r] by (simp add: io_ok_def)
next
  case (io_del fd s event rt s' b)
  show ?case
  proof (cases "s' = s")
    case False
    then obtain i where i: "fd = int i" "i < length (m_fdContexts s)" "events_at s i AND event \<noteq> 0" "rt = 0"
      using io_del(3) by (auto simp: delEvent_def Let_def rbind_Inr_iff vec_get_Inr_iff events_at_def
          split: if_splits intro: that [of "nat fd"])
    then show ?thesis
      using delEvent_outcome [of s i event] io_del by (auto simp: io_ok_def deleted_def)
  qed (use io_del in simp)
next
  case (io_cancel fd s event rt s' b)
  show ?case
  proof (cases "s' = s")
    case False
    then obtain i where i: "fd = int i" "i < length (m_fdContexts s)" "events_at s i AND event \<noteq> 0" "rt = 0"
      using io_cancel(3) by (auto simp: cancelEvent_def Let_def rbind_Inr_iff vec_get_Inr_iff events_at_def
          split: if_splits intro: that [of "nat fd"])
    then show ?thesis
      using cancelEvent_outcome [of s i event me] io_cancel by (auto simp: io_ok_def cancelled_def)
  qed (use io_cancel in simp)
next
  case (io_cancel_all fd s rt s' b)
  show ?case
  proof (cases "s' = s")
    case False
    then obtain i where i: "fd = int i" "i < length (m_fdContexts s)" "events_at s i \<noteq> 0" "rt = 0"
      using io_cancel_all(2) by (auto simp: cancelAll_def Let_def rbind_Inr_iff vec_get_Inr_iff events_at_def
          split: if_splits intro: that [of "nat fd"])
    then show ?thesis
      using cancelAll_outcome [of s i me] io_cancel_all by (auto simp: io_ok_def cancelled_all_def)
  qed (use io_cancel_all in simp)
next
  case (io_report i s low32 rt2 evs s')
  show ?case
  proof (cases "low32 i = fst (m_tickleFds s)")
    case True
    then show ?thesis using io_report
      by (auto simp: handle_event_def data_fd_def io_ok_def io_inv_def table_ok_def interest_ok_def events_at_def)
  next
    case False
    then have "i < length (m_fdContexts s)"
      using io_report(2) by (auto simp: handle_event_def data_fd_def rbind_Inr_iff vec_get_Inr_iff)
    then show ?thesis
      using handle_event_keeps [of s i me low32 rt2 evs s'] io_report by (simp add: io_ok_def)
  qed
next
  case (io_other s' s)
  then show ?case by (simp add: io_ok_def io_inv_def table_ok_def interest_ok_def events_at_def)
qed

lemma io_reach_ok: "io_reach me s \<Longrightarrow> io_ok s"
proof (induction rule: io_reach.induct)
  case (io_start ep tfds now ids base s)
  then have s: "m_fdContexts s = map (\<lambda>i. FdContext (int i)) [0..<32]" "m_pendingEventCount s = 0"
    "m_tickleFds s = tfds" "interest s = (\<lambda>_. None)(fst tfds := Some (EPOLLIN OR EPOLLET))"
    by (auto simp: IOManager_new_def start_def Let_def rbind_Inr_iff SYLAR_ASSERT_Inr_iff contextResize_def
        epoll_ctl_def sched.defs split: if_splits)
  have "table_ok s" by (simp add: table_ok_def s FdContext_new o_def sum_list_0)
  moreover have "interest_ok s" by (simp add: interest_ok_def s events_at_def FdContext_new)
  ultimately show ?case by (simp add: io_ok_def io_inv_def s)
next
  case (io_next s s')
  then show ?case using io_ok_step by blast
qed

section \<open>What a scheduler was given\<close>

definition given_to :: "nat \<Rightarrow> nat \<Rightarrow> ('w, 'c) iom \<Rightarrow> ('w, 'c) tcb task list" where
  "given_to me x s = (if x = me then m_fibers s else map snd (filter (\<lambda>p. fst p = x) (posted s)))"

lemma given_to_after_trigger:
  "given_to me x (after_trigger me i event s) = given_to me x s
     @ (if x = the (ev_scheduler (entry_of event (m_fdContexts s ! i)))
        then [entry_task (entry_of event (m_fdContexts s ! i))] else [])"
  by (simp add: given_to_def after_trigger_def Let_def handed_def)

lemma given_to_told [simp]: "given_to me x (told i e s) = given_to me x s"
  by (simp add: given_to_def)

text \<open>The tasks for scheduler \<open>x\<close> among the registered events of a mask, reading first.\<close>

definition due_tasks :: "nat \<Rightarrow> u32 \<Rightarrow> 'c fd_context \<Rightarrow> 'c task list" where
  "due_tasks x evs c = map (\<lambda>e. entry_task (entry_of e c))
     (filter (\<lambda>e. evs AND e \<noteq> 0 \<and> the (ev_scheduler (entry_of e c)) = x) [READ, WRITE])"

lemma given_to_triggered_all:
  assumes "i < length (m_fdContexts s)"
  shows "given_to me x (triggered_all me i evs s) = given_to me x s @ due_tasks x evs (m_fdContexts s ! i)"
  using assms
  by (simp add: triggered_all_def Let_def given_to_after_trigger due_tasks_def triggered_other)

section \<open>A manager at work\<close>

text \<open>The manager of the witnesses, at 1, with wake-up pipe (7, 8): descriptor 9 is registered for
  reading, then for writing too.\<close>

definition demo_base :: "(nat, nat) tcb sched" where
  "demo_base = \<lparr>m_threads = [], m_fibers = [], m_name = ''io'', m_rootFiber = None, m_threadIds = [],
     m_threadCount = 1, m_activeThreadCount = 0, m_idleThreadCount = 0, m_stopping = True,
     m_autostop = False, m_rootThread = -1, t_scheduler = Some 1, fs = fiber_init,
     t_hook_on = False, t_named = None\<rparr>"

definition demo_io0 :: "(nat, nat) iom" where
  "demo_io0 = projr (IOManager_new 6 0 (7, 8) 0 0 1000 (\<lambda>i. int i + 20) demo_base)"

definition demo_io1 :: "(nat, nat) iom" where
  "demo_io1 = added 9 READ (new_entry (Some (Direct 3)) 0 demo_io0) demo_io0"

definition demo_io2 :: "(nat, nat) iom" where
  "demo_io2 = added 9 WRITE (new_entry (Some (Direct 4)) 0 demo_io1) demo_io1"

lemma demo_io0: "io_reach 1 demo_io0" "length (m_fdContexts demo_io0) = 32" "m_tickleFds demo_io0 = (7, 8)"
  "t_scheduler demo_io0 = Some 1" "m_fdContexts demo_io0 ! 9 = FdContext 9" "m_fibers demo_io0 = []"
proof -
  have "\<exists>s. IOManager_new 6 0 (7, 8) 0 0 1000 (\<lambda>i. int i + 20) demo_base = Inr s"
    by (simp add: IOManager_new_def start_def contextResize_def epoll_ctl_def demo_base_def sched.defs Let_def)
  then have r: "IOManager_new 6 0 (7, 8) 0 0 1000 (\<lambda>i. int i + 20) demo_base = Inr demo_io0"
    by (auto simp: demo_io0_def)
  show "io_reach 1 demo_io0" by (rule io_start [OF r])
qed (simp_all add: demo_io0_def IOManager_new_def start_def contextResize_def epoll_ctl_def demo_base_def sched.defs Let_def)

lemma demo_add:
  assumes "io_reach 1 s" and "length (m_fdContexts s) = 32" and "m_tickleFds s = (7, 8)"
    and "t_scheduler s = Some 1" and "event \<in> {READ, WRITE}" and "events_at s 9 AND event = 0"
  shows "addEvent 10 0 9 event (Some f) s = Inr (added 9 event (new_entry (Some f) 0 s) s, 0)"
    and "io_reach 1 (added 9 event (new_entry (Some f) 0 s) s)"
proof -
  have t: "addEvent_table 9 s = s" using assms(2) by (simp add: addEvent_table_def)
  have inv: "io_inv s" using io_reach_ok [OF assms(1)] by (simp add: io_ok_def)
  show a: "addEvent 10 0 9 event (Some f) s = Inr (added 9 event (new_entry (Some f) 0 s) s, 0)"
    using addEvent_accepted [OF inv, of 9 event 10 "Some f"] assms t by simp
  show "io_reach 1 (added 9 event (new_entry (Some f) 0 s) s)"
    by (rule io_next [OF assms(1) io_add [OF _ assms(5) _ a]]) (use assms in simp_all)
qed

lemma demo_io1: "io_reach 1 demo_io1" "length (m_fdContexts demo_io1) = 32" "m_tickleFds demo_io1 = (7, 8)"
  "t_scheduler demo_io1 = Some 1" "events_at demo_io1 9 = READ" "m_fibers demo_io1 = []"
  "addEvent 10 0 9 READ (Some (Direct 3)) demo_io0 = Inr (demo_io1, 0)"
  "m_fdContexts demo_io1 ! 9 = \<lparr>read_ctx = new_entry (Some (Direct 3)) 0 demo_io0, write_ctx = EventContext,
     ctx_fd = 9, events = READ\<rparr>"
  using demo_add [of demo_io0 READ "Direct 3"] demo_io0
  by (simp_all add: demo_io1_def events_at_def FdContext_def added_def Let_def putContext_def told_def epoll_ctl_def)

lemma demo_io2: "io_reach 1 demo_io2" "length (m_fdContexts demo_io2) = 32" "m_tickleFds demo_io2 = (7, 8)"
  "events_at demo_io2 9 = 5" "m_fibers demo_io2 = []"
  using demo_add [of demo_io1 WRITE "Direct 4"] demo_io1
  by (simp_all add: demo_io2_def events_at_def added_def Let_def putContext_def told_def epoll_ctl_def)

text \<open>With nothing pending every context is as it was made.\<close>

lemma none_pending_all_new:
  assumes tab: "table_ok s" and few: "length (m_fdContexts s) < 2 ^ 32" and none: "m_pendingEventCount s = 0"
  shows "m_fdContexts s = map (\<lambda>i. FdContext (int i)) [0..<length (m_fdContexts s)]"
proof (rule nth_equalityI)
  let ?cs = "m_fdContexts s"
  have "sum_list (map registered cs) \<le> 2 * length cs" for cs :: "('w, 'c) tcb fd_context list"
    by (induction cs) (auto simp: registered_def)
  then have "sum_list (map registered ?cs) \<le> 2 * length ?cs" .
  then have small: "sum_list (map registered ?cs) < 2 ^ 64" using few by simp
  have "(of_nat (sum_list (map registered ?cs)) :: u64) = 0" using tab none by (simp add: table_ok_def)
  then have "sum_list (map registered ?cs) = 0"
    using small by (simp add: word_of_nat_eq_0_iff del: sum_list_eq_0_iff) (metis dvd_imp_le not_le gr0I)
  then have zero: "\<And>c. c \<in> set ?cs \<Longrightarrow> registered c = 0" by simp
  fix i assume i: "i < length ?cs"
  then have ok: "fdc_ok i (?cs ! i)" and r: "registered (?cs ! i) = 0" using tab zero by (auto simp: table_ok_def)
  from ok have "?cs ! i = FdContext (int i)"
    by (cases rule: event_cases) (use ok r in \<open>auto simp: fdc_defs FdContext_def intro: fd_context.equality\<close>)
  then show "?cs ! i = map (\<lambda>i. FdContext (int i)) [0..<length ?cs] ! i" using i by simp
qed simp

section \<open>Properties\<close>

text \<open>C10: through every sequence of additions, deletions, cancellations and reports, whatever the
  system calls return, the number of pending events is the number of registered directions, the
  kernel's entry of every descriptor is exactly the registered events (edge-triggered, absent when
  there are none), and every registered direction has a scheduler and a callback or a fiber, but
  not both, while the others are empty.\<close>

theorem io_table_exact:
  assumes "io_reach me s"
  shows "m_pendingEventCount s = of_nat (sum_list (map registered (m_fdContexts s)))
    \<and> (\<forall>i. int i = fst (m_tickleFds s) \<or> interest s (int i) =
         (if events_at s i = NONE then None else Some (EPOLLET OR events_at s i)))
    \<and> list_all (\<lambda>c. entry_ok (events c AND READ \<noteq> 0) (read_ctx c)
         \<and> entry_ok (events c AND WRITE \<noteq> 0) (write_ctx c)) (m_fdContexts s)"
proof -
  have "table_ok s" "interest_ok s" using io_reach_ok [OF assms] by (auto simp: io_ok_def io_inv_def)
  then show ?thesis
    by (auto simp: table_ok_def interest_ok_def list_all_length fdc_ok_def)
qed

theorem io_table_exact_witness:
  "m_pendingEventCount demo_io2 = of_nat (sum_list (map registered (m_fdContexts demo_io2)))
    \<and> interest demo_io2 9 = Some (EPOLLET OR 5)"
proof -
  have "int 9 = fst (m_tickleFds demo_io2) \<or> interest demo_io2 (int 9) =
      (if events_at demo_io2 9 = NONE then None else Some (EPOLLET OR events_at demo_io2 9))"
    using io_table_exact [OF demo_io2(1)] by blast
  then show ?thesis using io_table_exact [OF demo_io2(1)] by (simp add: demo_io2)
qed

text \<open>Cancelling a registered event hands its callback or fiber to its scheduler exactly
  once: the event is no longer registered, everything else is, and cancelling it again returns
  false without effect.\<close>

theorem io_cancel_once:
  assumes reach: "io_reach me s" and i: "i < length (m_fdContexts s)" and e: "event \<in> {READ, WRITE}"
    and nt: "int i \<noteq> fst (m_tickleFds s)" and reg: "events_at s i AND event \<noteq> 0"
  shows "\<exists>s1. cancelEvent me 1 0 (int i) event s = Inr (s1, True)
    \<and> (\<forall>x. given_to me x s1 = given_to me x s @ due_tasks x event (m_fdContexts s ! i))
    \<and> (\<forall>j. events_at s1 j = (if j = i then events_at s i AND NOT event else events_at s j))
    \<and> m_pendingEventCount s1 = m_pendingEventCount s - 1
    \<and> cancelEvent me 1 rt (int i) event s1 = Inr (s1, False)"
proof -
  let ?s1 = "cancelled me i event s"
  have inv: "io_inv s" using io_reach_ok [OF reach] by (simp add: io_ok_def)
  note c = cancelEvent_outcome [of s i event me, OF inv i e nt reg]
  have g: "given_to me x ?s1 = given_to me x s @ due_tasks x event (m_fdContexts s ! i)" for x
    using e by (auto simp: cancelled_def given_to_after_trigger due_tasks_def)
  have ev: "events_at ?s1 j = (if j = i then events_at s i AND NOT event else events_at s j)" for j
    using i by (auto simp: cancelled_def events_at_def)
  have "events (m_fdContexts ?s1 ! i) AND event = 0"
    using ev [of i] i by (simp add: events_at_def cancelled_def and.assoc)
  then have "cancelEvent me 1 rt (int i) event ?s1 = Inr (?s1, False)"
    using i by (simp add: cancelEvent_def cancelled_def)
  moreover have "m_pendingEventCount ?s1 = m_pendingEventCount s - 1" by (simp add: cancelled_def)
  ultimately show ?thesis using c(1) g ev by blast
qed

theorem io_cancel_once_witness:
  "\<exists>s1. cancelEvent 1 1 0 9 WRITE demo_io2 = Inr (s1, True) \<and> events_at s1 9 = READ
    \<and> cancelEvent 1 1 0 9 WRITE s1 = Inr (s1, False)"
proof -
  obtain s1 where "cancelEvent 1 1 0 (int 9) WRITE demo_io2 = Inr (s1, True)"
    "\<forall>j. events_at s1 j = (if j = 9 then events_at demo_io2 9 AND NOT WRITE else events_at demo_io2 j)"
    "cancelEvent 1 1 0 (int 9) WRITE s1 = Inr (s1, False)"
    using io_cancel_once [OF demo_io2(1), of 9 WRITE 0] by (auto simp: demo_io2)
  then show ?thesis by (auto simp: demo_io2)
qed

text \<open>C11: a report of registered events triggers exactly those: reading before writing, each
  callback or fiber goes once to the scheduler of its registration, the reported events are
  no longer registered and the others stay, and the kernel is told the same.\<close>

theorem io_report_exact:
  assumes reach: "io_reach me s" and i: "i < length (m_fdContexts s)"
    and nt: "int i \<noteq> fst (m_tickleFds s)" and low: "low32 i \<noteq> fst (m_tickleFds s)"
    and re: "events_at s i AND real_events evs = real_events evs" and ne: "real_events evs \<noteq> 0"
  shows "\<exists>s1. handle_event me 1 low32 0 (evs, DataPtr i) s = Inr s1
    \<and> (\<forall>x. given_to me x s1 = given_to me x s @ due_tasks x (real_events evs) (m_fdContexts s ! i))
    \<and> (\<forall>j. events_at s1 j = (if j = i then events_at s i AND NOT (real_events evs) else events_at s j))
    \<and> interest s1 (int i) = (if events_at s1 i = 0 then None else Some (EPOLLET OR events_at s1 i))"
proof -
  let ?re = "real_events evs"
  let ?u = "told i (events_at s i AND NOT ?re) s"
  have inv: "io_inv s" using io_reach_ok [OF reach] by (simp add: io_ok_def)
  then have t: "table_ok ?u" by (simp add: io_inv_def)
  note h = handle_event_outcome [of s i low32 evs me, OF inv i nt low re ne]
  note b = trigger_both [of ?u i ?re me, OF t _ real_events_values, unfolded told_simps, OF i re]
  have "given_to me x (triggered_all me i ?re ?u) = given_to me x s @ due_tasks x ?re (m_fdContexts s ! i)" for x
    using given_to_triggered_all [of i ?u] i by simp
  then show ?thesis using h(1) b(3) by (intro exI [of _ "triggered_all me i ?re ?u"]) simp
qed

theorem io_report_exact_witness:
  "\<exists>s1. handle_event 1 1 (\<lambda>_. 64) 0 (EPOLLOUT, DataPtr 9) demo_io2 = Inr s1
    \<and> given_to 1 1 s1 = [cb_task (Some (Direct 4)) (-1)] \<and> events_at s1 9 = READ"
proof -
  have re: "real_events EPOLLOUT = WRITE" by (simp add: real_events_def)
  have "due_tasks 1 WRITE (m_fdContexts demo_io2 ! 9) = [cb_task (Some (Direct 4)) (-1)]"
    by (simp add: demo_io2_def added_def Let_def demo_io1 due_tasks_def entry_of_def putContext_def
        new_entry_def entry_task_def)
  note due = this
  obtain s1 where s1: "handle_event 1 1 (\<lambda>_. 64) 0 (EPOLLOUT, DataPtr 9) demo_io2 = Inr s1"
    "given_to 1 1 s1 = given_to 1 1 demo_io2 @ due_tasks 1 WRITE (m_fdContexts demo_io2 ! 9)"
    "events_at s1 9 = events_at demo_io2 9 AND NOT WRITE"
    using io_report_exact [OF demo_io2(1), of 9 "\<lambda>_. 64" EPOLLOUT] re by (auto simp: demo_io2)
  have "given_to 1 1 s1 = [cb_task (Some (Direct 4)) (-1)]"
    unfolding s1(2) due by (simp add: given_to_def demo_io2)
  then show ?thesis using s1 by (simp add: demo_io2)
qed

text \<open>C14: an error or hang-up report on a descriptor registered in one direction only aborts the
  program: both directions are triggered without regard to what is registered, and
  \<open>triggerEvent\<close> asserts on the one that is not.\<close>

theorem io_hangup_aborts:
  assumes reach: "io_reach me s" and i: "i < length (m_fdContexts s)" and low: "low32 i \<noteq> fst (m_tickleFds s)"
    and one: "events_at s i \<in> {READ, WRITE}" and hup: "evs AND (EPOLLERR OR EPOLLHUP) \<noteq> 0"
  shows "handle_event me 1 low32 0 (evs, DataPtr i) s = Inl (AssertFail ''events & event'')"
proof -
  have inv: "io_inv s" using io_reach_ok [OF reach] by (simp add: io_ok_def)
  have or: "(evs OR 5) AND 1 \<noteq> 0" "(evs OR 5) AND 4 \<noteq> 0"
    by (simp_all add: bit.conj_disj_distrib2 or_eq_0_iff)
  have re: "real_events evs = 5"
    using hup or by (simp add: real_events_def Let_def)
  show ?thesis
    by (rule handle_event_unregistered [of s i low32 evs me, OF inv i low])
      (use one re in auto)
qed

theorem io_hangup_aborts_witness:
  "handle_event 1 1 (\<lambda>_. 64) 0 (EPOLLHUP, DataPtr 9) demo_io1 = Inl (AssertFail ''events & event'')"
  by (rule io_hangup_aborts [OF demo_io1(1)]) (simp_all add: demo_io1)

text \<open>Deleting a registered event drops its callback or fiber: nothing is scheduled anywhere,
  the event is no longer registered, everything else is, and deleting it again returns false.\<close>

theorem io_delete_discards:
  assumes reach: "io_reach me s" and i: "i < length (m_fdContexts s)" and e: "event \<in> {READ, WRITE}"
    and nt: "int i \<noteq> fst (m_tickleFds s)" and reg: "events_at s i AND event \<noteq> 0"
  shows "\<exists>s1. delEvent 0 (int i) event s = Inr (s1, True)
    \<and> (\<forall>x. given_to me x s1 = given_to me x s)
    \<and> entry_of event (m_fdContexts s1 ! i) = EventContext
    \<and> (\<forall>j. events_at s1 j = (if j = i then events_at s i AND NOT event else events_at s j))
    \<and> delEvent rt (int i) event s1 = Inr (s1, False)"
proof -
  let ?s1 = "deleted i event s"
  have inv: "io_inv s" using io_reach_ok [OF reach] by (simp add: io_ok_def)
  note d = delEvent_outcome [of s i event, OF inv i e nt reg]
  have g: "given_to me x ?s1 = given_to me x s" for x by (simp add: given_to_def deleted_def)
  have ev: "events_at ?s1 j = (if j = i then events_at s i AND NOT event else events_at s j)" for j
    using i by (auto simp: deleted_def events_at_def)
  have "events (m_fdContexts ?s1 ! i) AND event = 0"
    using ev [of i] i by (simp add: events_at_def deleted_def and.assoc)
  then have "delEvent rt (int i) event ?s1 = Inr (?s1, False)"
    using i by (simp add: delEvent_def deleted_def)
  moreover have "entry_of event (m_fdContexts ?s1 ! i) = EventContext"
    using i e by (auto simp: deleted_def triggered_def entry_of_def putContext_def)
  ultimately show ?thesis using d(1) g ev by blast
qed

theorem io_delete_discards_witness:
  "\<exists>s1. delEvent 0 9 READ demo_io2 = Inr (s1, True) \<and> events_at s1 9 = WRITE
    \<and> given_to 1 1 s1 = given_to 1 1 demo_io2"
proof -
  obtain s1 where "delEvent 0 (int 9) READ demo_io2 = Inr (s1, True)"
    "\<forall>x. given_to 1 x s1 = given_to 1 x demo_io2"
    "\<forall>j. events_at s1 j = (if j = 9 then events_at demo_io2 9 AND NOT READ else events_at demo_io2 j)"
    using io_delete_discards [OF demo_io2(1), of 9 READ 0] by (auto simp: demo_io2)
  then show ?thesis by (auto simp: demo_io2)
qed

text \<open>C13: \<open>addEvent\<close> on a free direction registers it and reports 0: the table has grown far enough
  for any descriptor, only this direction of this descriptor changed, it holds the given callback
  or the calling fiber, and nothing is scheduled; when \<open>epoll_ctl\<close> fails it reports -1 and
  registers nothing.\<close>

theorem io_add_exact:
  assumes reach: "io_reach me s" and fd: "0 \<le> fd" and e: "event \<in> {READ, WRITE}"
    and free: "events_at s (nat fd) AND event = 0"
  shows "\<exists>s1 s2. addEvent fmain 0 fd event (Some f) s = Inr (s1, 0)
    \<and> (\<forall>j. events_at s1 j = (if j = nat fd then events_at s j OR event else events_at s j))
    \<and> nat fd < length (m_fdContexts s1) \<and> m_fibers s1 = m_fibers s
    \<and> entry_of event (m_fdContexts s1 ! nat fd) = \<lparr>ev_scheduler = t_scheduler s, ev_fiber = None, ev_cb = Some f\<rparr>
    \<and> addEvent fmain (-1) fd event (Some f) s = Inr (s2, -1)
    \<and> (\<forall>j. events_at s2 j = events_at s j) \<and> interest s2 = interest s"
proof -
  have inv: "io_inv s" and big: "32 \<le> length (m_fdContexts s)"
    using io_reach_ok [OF reach] by (auto simp: io_ok_def)
  let ?u = "addEvent_table fd s" and ?i = "nat fd"
  let ?s1 = "added ?i event (new_entry (Some f) 0 s) ?u"
  note t = addEvent_table_outcome [OF inv fd big]
  have i: "int ?i = fd" using fd by simp
  have g: "vec_get (m_fdContexts ?u) fd = Inr (m_fdContexts ?u ! ?i)"
    using vec_get_in [OF t(2)] i by simp
  have ev: "events (m_fdContexts ?u ! ?i) = events_at s ?i"
    using t(2) t(3) [of ?i] by (simp add: events_at_def)
  have a: "addEvent fmain 0 fd event (Some f) s = Inr (?s1, 0)"
    using addEvent_accepted [OF inv big fd e free] by simp
  have u: "events_at ?u j = events_at s j" for j by (rule t(3))
  have "events_at ?s1 j = (if j = ?i then events_at ?u j OR event else events_at ?u j)" for j
    using t(2) by (auto simp: added_def Let_def events_at_def putContext_def)
  then have e1: "events_at ?s1 j = (if j = ?i then events_at s j OR event else events_at s j)" for j
    by (simp add: u)
  have c: "entry_of event (m_fdContexts ?s1 ! ?i) = new_entry (Some f) 0 s"
    using t(2) e by (auto simp: added_def Let_def putContext_def entry_of_def)
  have a2: "addEvent fmain (-1) fd event (Some f) s = Inr (?u, -1)"
    using free by (simp add: addEvent_def Let_def g ev)
  show ?thesis
    using a a2 e1 c t(2) u
    by (intro exI [of _ ?s1] exI [of _ ?u]) (simp add: new_entry_def added_def Let_def)
qed

theorem io_add_exact_witness:
  "\<exists>s1. addEvent 10 0 100 WRITE (Some (Direct 6)) demo_io2 = Inr (s1, 0) \<and> events_at s1 100 = WRITE
    \<and> events_at s1 9 = 5"
proof -
  have e: "events_at demo_io2 100 = 0" by (simp add: events_at_def demo_io2)
  obtain s1 where "addEvent 10 0 100 WRITE (Some (Direct 6)) demo_io2 = Inr (s1, 0)"
    "\<forall>j. events_at s1 j = (if j = 100 then events_at demo_io2 j OR WRITE else events_at demo_io2 j)"
    using io_add_exact [OF demo_io2(1), of 100 WRITE 10 "Direct 6"] e by auto
  then show ?thesis using e by (auto simp: demo_io2)
qed

text \<open>The table is grown in two steps, the size test and the growing. A thread that tested before
  another one grew the table shrinks it again: it does not look at the size a second time.\<close>

text \<open>C15: two threads that add events on new descriptors \<open>a < b\<close> race: both see a table that is too
  small, \<open>b\<close>'s thread grows it and registers, then \<open>a\<close>'s thread resizes it to its own, smaller
  size. The kernel still watches \<open>b\<close>, but its registration is out of the table: it can no longer
  be cancelled.\<close>

theorem io_resize_race:
  assumes reach: "io_reach me s" and ab: "int (length (m_fdContexts s)) \<le> a" "3 * a div 2 \<le> b"
    and e: "event \<in> {READ, WRITE}" and nt: "b \<noteq> fst (m_tickleFds s)"
  shows "\<exists>s1. addEvent fmain 0 b event (Some f) s = Inr (s1, 0)
    \<and> interest (addEvent_grow a s1) b = Some (EPOLLET OR event)
    \<and> events_at (addEvent_grow a s1) (nat b) = NONE
    \<and> cancelEvent me wr rt b event (addEvent_grow a s1) = Inr (addEvent_grow a s1, False)"
proof -
  have inv: "io_inv s" and big: "32 \<le> length (m_fdContexts s)"
    using io_reach_ok [OF reach] by (auto simp: io_ok_def)
  have b: "0 \<le> b" "length (m_fdContexts s) \<le> nat b" using ab big by linarith+
  then have free: "events_at s (nat b) = 0" by (simp add: events_at_def)
  let ?s1 = "added (nat b) event (new_entry (Some f) 0 s) (addEvent_table b s)"
  have a: "addEvent fmain 0 b event (Some f) s = Inr (?s1, 0)"
    using addEvent_accepted [OF inv big b(1) e, of fmain "Some f"] free by simp
  note t = addEvent_table_outcome [OF inv b(1) big]
  have ev: "events (m_fdContexts (addEvent_table b s) ! nat b) = 0"
    using t(2) t(3) [of "nat b"] free by (simp add: events_at_def)
  have "interest ?s1 b = Some (EPOLLET OR event)"
    using ev e b(1) by (auto simp: added_def Let_def)
  then have k: "interest (addEvent_grow a ?s1) b = Some (EPOLLET OR event)"
    by (simp add: addEvent_grow_def contextResize_def)
  have len: "length (m_fdContexts (addEvent_grow a ?s1)) = nat (3 * a div 2)"
    by (simp add: addEvent_grow_def contextResize_def)
  then have "\<not> nat b < length (m_fdContexts (addEvent_grow a ?s1))"
    "int (length (m_fdContexts (addEvent_grow a ?s1))) \<le> b"
    using ab b by linarith+
  then show ?thesis using a k by (intro exI [of _ ?s1]) (simp add: events_at_def cancelEvent_def)
qed

theorem io_resize_race_witness:
  "\<exists>s1. addEvent 10 0 90 READ (Some (Direct 6)) demo_io2 = Inr (s1, 0)
    \<and> interest (addEvent_grow 40 s1) 90 = Some (EPOLLET OR READ)
    \<and> events_at (addEvent_grow 40 s1) 90 = NONE"
proof -
  obtain s1 where "addEvent 10 0 90 READ (Some (Direct 6)) demo_io2 = Inr (s1, 0)"
    "interest (addEvent_grow 40 s1) 90 = Some (EPOLLET OR READ)"
    "events_at (addEvent_grow 40 s1) (nat 90) = NONE"
    using io_resize_race [OF demo_io2(1), of 40 90 READ 10 "Direct 6" 0 0] by (auto simp: demo_io2)
  then show ?thesis by auto
qed

lemma sint_u32: "sint (w :: u32) = (if uint w < 2 ^ 31 then uint w else uint w - 2 ^ 32)"
proof -
  have s: "sint w = signed_take_bit 31 (uint w)" by (simp add: sint_uint)
  have u: "0 \<le> uint w" "uint w < 2 ^ 32" using uint_bounded [of w] by simp_all
  have "(uint w - 2 ^ 32) mod 2 ^ 32 = uint w mod 2 ^ 32" by (rule minus_mod_self2)
  then have "take_bit (Suc 31) (uint w) = take_bit (Suc 31) (uint w - 2 ^ 32)"
    by (simp add: take_bit_eq_mod)
  then have "sint w = signed_take_bit 31 (uint w - 2 ^ 32)"
    unfolding s by (simp only: signed_take_bit_eq_iff_take_bit_eq)
  moreover have "signed_take_bit 31 (uint w - 2 ^ 32) = uint w - 2 ^ 32" if "\<not> uint w < 2 ^ 31"
    using that u by (simp add: signed_take_bit_int_eq_self_iff)
  moreover have "- (2 ^ 31) \<le> uint w" using u(1) by (rule order_trans [rotated]) simp
  then have "signed_take_bit 31 (uint w) = uint w" if "uint w < 2 ^ 31"
    using that by (simp add: signed_take_bit_int_eq_self_iff)
  ultimately show ?thesis using s by simp
qed

lemma c_int_eq:
  "c_int x = (let r = uint x mod 2 ^ 32 in if r < 2 ^ 31 then r else r - 2 ^ 32)"
  by (simp add: c_int_def sint_u32 unsigned_ucast_eq Let_def take_bit_eq_mod)

text \<open>The timeout handed to \<open>epoll_wait\<close> is the distance to the next timer capped at 3000
  milliseconds, and 3000 when there is no timer, as long as the distance is below 2^31; from
  2^31 up to 2^32 milliseconds the conversion to \<open>int\<close> makes it negative, and \<open>epoll_wait\<close>
  blocks without limit.\<close>

theorem io_timeout_exact:
  "epoll_timeout (NOT 0) = 3000
   \<and> (if uint t < 2 ^ 31 then epoll_timeout t = min 3000 (uint t)
      else if uint t < 2 ^ 32 then epoll_timeout t < 0 else True)"
proof -
  have big: "t = NOT 0 \<Longrightarrow> uint t = 2 ^ 64 - 1"
    by (simp add: unsigned_minus_1_eq_mask mask_eq_exp_minus_1)
  have "uint t < 2 ^ 31 \<Longrightarrow> epoll_timeout t = min 3000 (uint t)"
    using big by (auto simp: epoll_timeout_def c_int_eq Let_def)
  moreover have "2 ^ 31 \<le> uint t \<Longrightarrow> uint t < 2 ^ 32 \<Longrightarrow> epoll_timeout t < 0"
    using big by (auto simp: epoll_timeout_def c_int_eq Let_def)
  moreover have "epoll_timeout (NOT 0) = 3000" by (simp add: epoll_timeout_def c_int_eq)
  ultimately show ?thesis by auto
qed

text \<open>\<open>stopping\<close> answers yes exactly when no timer is left, the scheduler itself can stop (told
  to, nothing queued, no thread in a task) and no event is pending; besides that it only clears
  the timer manager's notification flag. (The one other case is a timer due 2^64 - 1
  milliseconds from now, which reads as "no timer".)\<close>

theorem io_stopping_exact:
  "snd (snd (io_stopping now s))
     = ((m_timers (timers s) = [] \<or> (now = 0 \<and> m_next (timer_at (timers s) (hd (m_timers (timers s)))) = NOT 0))
        \<and> m_autostop s \<and> m_stopping s \<and> m_fibers s = [] \<and> m_activeThreadCount s = 0
        \<and> m_pendingEventCount s = 0)
   \<and> fst (io_stopping now s) = s\<lparr>timers := (timers s)\<lparr>m_tickled := False\<rparr>\<rparr>"
proof -
  have "(next_at - now = - 1) = (now = 0 \<and> next_at = - 1)" if "\<not> next_at \<le> now" for next_at :: u64
  proof
    assume "next_at - now = - 1"
    then have "next_at = now - 1" by (simp add: diff_eq_eq)
    with that have "now - 1 > now" by simp
    then have "now = 0"
      by (metis diff_le_self not_less unat_minus_one word_le_nat_alt)
    with \<open>next_at = now - 1\<close> show "now = 0 \<and> next_at = - 1" by simp
  qed simp
  then have "snd (getNextTimer now (timers s)) = - 1 \<longleftrightarrow>
      m_timers (timers s) = [] \<or> (now = 0 \<and> m_next (timer_at (timers s) (hd (m_timers (timers s)))) = - 1)"
    by (auto simp: getNextTimer_def Let_def split: list.splits)
  moreover have "fst (getNextTimer now (timers s)) = (timers s)\<lparr>m_tickled := False\<rparr>"
    by (simp add: getNextTimer_def Let_def split: list.splits)
  ultimately show ?thesis by (auto simp: io_stopping_def Let_def split_beta stopping_def)
qed

text \<open>A round of \<open>idle\<close> that only timers end.\<close>

lemma idle_round_fires:
  assumes inv0: "timer_inv (timers s)" and ns: "\<not> snd (snd (io_stopping now1 s))"
    and nowp: "nowp \<notin> set (m_timers (timers s))"
    and nr: "\<not> snd (detectClockRollover now2 (timers s))"
  defines "ds \<equiv> filter (\<lambda>p. m_next (timer_at (timers s) p) \<le> now2) (m_timers (timers s))"
  shows "\<exists>s1. idle_round me 1 low32 EINTR now1 now2 nowp (replicate n (WErr EINTR) @ [WEvents []]) rts s
      = Inr (Some (s1, epoll_timeout (snd (getNextTimer now1 (timers s)))))
    \<and> m_fibers s1 = m_fibers s
         @ filter is_task (map (\<lambda>p. cb_task (m_cb (timer_at (timers s) p)) (-1)) ds)
    \<and> tickle_pipe s1 = tickle_pipe s
         + (if m_fibers s = [] \<and> ds \<noteq> [] \<and> m_idleThreadCount s > 0 then 1 else 0)
    \<and> timers s1 = fst (listExpiredCb now2 nowp ((timers s)\<lparr>m_tickled := False\<rparr>))
    \<and> m_fdContexts s1 = m_fdContexts s \<and> m_pendingEventCount s1 = m_pendingEventCount s
    \<and> interest s1 = interest s \<and> m_tickleFds s1 = m_tickleFds s"
proof -
  let ?tm = "(timers s)\<lparr>m_tickled := False\<rparr>"
  let ?s = "s\<lparr>timers := ?tm\<rparr>"
  have st: "io_stopping now1 s = (?s, snd (getNextTimer now1 (timers s)), False)"
    using io_stopping_exact [of now1 s] ns by (auto simp: io_stopping_def Let_def split_beta)
  have w: "epoll_wait_loop EINTR (replicate n (WErr EINTR) @ [WEvents []]) = Some []"
    by (induction n) simp_all
  have inv: "timer_inv ?tm" using inv0 by (simp add: timer_inv_def)
  have nr': "\<not> snd (detectClockRollover now2 ?tm)" using nr by (simp add: detectClockRollover_def)
  define cs where "cs = map (\<lambda>p. m_cb (timer_at (timers s) p)) ds"
  have l: "snd (listExpiredCb now2 nowp ?tm) = cs"
    using expired_in_order [OF inv _ nr', of nowp] nowp by (simp add: cs_def ds_def)
  obtain tm2 where tm2: "listExpiredCb now2 nowp ?tm = (tm2, cs)" using l by (metis prod.collapse)
  let ?s1 = "?s\<lparr>timers := tm2\<rparr>"
  let ?ts = "map (\<lambda>f. cb_task f (-1)) cs"
  obtain s2 where s2: "schedule_range (\<lambda>f. cb_task f (-1)) cs False ?s1
      = (s2, cs \<noteq> [] \<and> m_fibers s = [], map (\<lambda>_. None) cs)"
    using schedule_range_put_all [of "\<lambda>f. cb_task f (-1)" cs False ?s1]
      sched_sink.put_all_flag [of ?ts ?s1] by simp
  have f: "s2 = ?s1\<lparr>m_fibers := m_fibers s @ filter is_task ?ts\<rparr>"
    using schedule_range_queue [of "\<lambda>f. cb_task f (-1)" cs False ?s1] s2 by simp
  have fin: "filter is_task ?ts = filter is_task (map (\<lambda>p. cb_task (m_cb (timer_at (timers s) p)) (-1)) ds)"
    by (simp add: cs_def o_def)
  have e: "(cs \<noteq> []) = (ds \<noteq> [])" by (simp add: cs_def)
  show ?thesis
    using st w tm2 s2 e unfolding fin [symmetric]
    by (auto simp: idle_round_def Let_def tickle_def hasIdleThreads_def f)
qed

lemma idle_round_timers:
  assumes inv0: "timer_inv (timers s)" and ns: "\<not> snd (snd (io_stopping now1 s))"
    and nowp: "nowp \<notin> set (m_timers (timers s))"
    and nr: "\<not> snd (detectClockRollover now2 (timers s))"
    and cbs: "filter (\<lambda>p. m_cb (timer_at (timers s) p) = None) (m_timers (timers s)) = []"
  shows "\<exists>s1 timeout. idle_round me 1 low32 EINTR now1 now2 nowp (replicate n (WErr EINTR) @ [WEvents []]) rts s
      = Inr (Some (s1, timeout))
    \<and> m_fibers s1 = m_fibers s @ map (\<lambda>p. cb_task (m_cb (timer_at (timers s) p)) (-1))
         (filter (\<lambda>p. m_next (timer_at (timers s) p) \<le> now2) (m_timers (timers s)))
    \<and> tickle_pipe s1 = tickle_pipe s
         + (if m_fibers s = [] \<and> m_fibers s1 \<noteq> [] \<and> m_idleThreadCount s > 0 then 1 else 0)
    \<and> timeout = epoll_timeout (snd (getNextTimer now1 (timers s)))"
proof -
  let ?ts = "map (\<lambda>p. cb_task (m_cb (timer_at (timers s) p)) (-1))
    (filter (\<lambda>p. m_next (timer_at (timers s) p) \<le> now2) (m_timers (timers s)))"
  have proper: "filter is_task ?ts = ?ts"
    using cbs by (auto simp: filter_empty_conv is_task_def cb_task_def intro!: filter_True)
  from idle_round_fires [OF inv0 ns nowp nr, of me low32 EINTR n rts] show ?thesis
    unfolding proper by fastforce
qed

text \<open>C12: one round of \<open>idle\<close> without kernel reports (interrupted waits are repeated): it
  schedules exactly the callbacks of the timers due at the second clock reading, in the order of
  their deadlines behind what is queued, writes the wake-up byte exactly when the queue was empty
  and a thread is idle, and sleeps no longer than to the next timer.\<close>

theorem io_idle_timers:
  assumes reach: "timer_reach (timers s)" and ns: "\<not> snd (snd (io_stopping now1 s))"
    and nowp: "nowp \<notin> set (m_timers (timers s))"
    and nr: "\<not> snd (detectClockRollover now2 (timers s))"
    and cbs: "filter (\<lambda>p. m_cb (timer_at (timers s) p) = None) (m_timers (timers s)) = []"
  shows "\<exists>s1 timeout. idle_round me 1 low32 EINTR now1 now2 nowp (replicate n (WErr EINTR) @ [WEvents []]) rts s
      = Inr (Some (s1, timeout))
    \<and> m_fibers s1 = m_fibers s @ map (\<lambda>p. cb_task (m_cb (timer_at (timers s) p)) (-1))
         (filter (\<lambda>p. m_next (timer_at (timers s) p) \<le> now2) (m_timers (timers s)))
    \<and> tickle_pipe s1 = tickle_pipe s
         + (if m_fibers s = [] \<and> m_fibers s1 \<noteq> [] \<and> m_idleThreadCount s > 0 then 1 else 0)
    \<and> timeout = epoll_timeout (snd (getNextTimer now1 (timers s)))"
  by (rule idle_round_timers [OF timer_reach_inv [OF reach] ns nowp nr cbs])

theorem io_idle_timers_witness:
  "\<exists>s1 timeout. idle_round 1 1 (\<lambda>_. 0) 4 1000 1020 9 [WErr 4, WEvents []] (\<lambda>_. 0) (demo_io2\<lparr>timers := demo_tm\<rparr>)
      = Inr (Some (s1, timeout)) \<and> m_fibers s1 = [cb_task (Some (Direct 8)) (-1)] \<and> timeout = 20"
proof -
  let ?s = "demo_io2\<lparr>timers := demo_tm\<rparr>"
  have ns: "\<not> snd (snd (io_stopping 1000 ?s))"
    by (simp add: io_stopping_def getNextTimer_def demo_tm_eq Timer_def Let_def)
  have nr: "\<not> snd (detectClockRollover 1020 (timers ?s))"
    by (simp add: detectClockRollover_def demo_tm_eq)
  have e: "epoll_timeout (snd (getNextTimer 1000 (timers ?s))) = 20"
    by (simp add: getNextTimer_def demo_tm_eq Timer_def Let_def epoll_timeout_def c_int_eq)
  obtain s1 timeout where "idle_round 1 1 (\<lambda>_. 0) 4 1000 1020 9 (replicate 1 (WErr 4) @ [WEvents []]) (\<lambda>_. 0) ?s
      = Inr (Some (s1, timeout))" "timeout = epoll_timeout (snd (getNextTimer 1000 (timers ?s)))"
    "m_fibers s1 = m_fibers ?s @ map (\<lambda>p. cb_task (m_cb (timer_at (timers ?s) p)) (-1))
         (filter (\<lambda>p. m_next (timer_at (timers ?s) p) \<le> 1020) (m_timers (timers ?s)))"
    using io_idle_timers [of ?s 1000 9 1020 1 "\<lambda>_. 0" 4 1 "\<lambda>_. 0"] ns nr demo_tm_reach
    by (auto simp: demo_tm_eq Timer_def)
  then show ?thesis using e by (auto simp: demo_io2 demo_tm_eq Timer_def)
qed

text \<open>C16: when \<open>stopping\<close> has answered yes, which \<open>stop\<close> and every thread that leaves \<open>run\<close> wait for,
  the destructor deletes contexts that are all as new: it drops no callback and no fiber. It passes
  the assertion of \<open>~Scheduler\<close>, closes the three descriptors, and leaves no interest, no task and no
  thread-local pointer to itself on the thread it runs on.\<close>

theorem io_delete_clean:
  assumes reach: "io_reach me s" and few: "length (m_fdContexts s) < 2 ^ 32"
    and stop: "snd (snd (io_stopping now s))"
  shows "\<exists>s'. IOManager_delete me s = Inr (s', [m_epfd s, fst (m_tickleFds s), snd (m_tickleFds s)],
      map (\<lambda>i. FdContext (int i)) [0..<length (m_fdContexts s)])
    \<and> m_fdContexts s' = [] \<and> interest s' = (\<lambda>_. None) \<and> m_fibers s' = [] \<and> t_scheduler s' \<noteq> Some me
    \<and> (now \<noteq> 0 \<longrightarrow> m_timers (timers s') = [])"
proof -
  have st: "m_stopping s" "m_fibers s = []" "m_pendingEventCount s = 0" "now \<noteq> 0 \<Longrightarrow> m_timers (timers s) = []"
    using io_stopping_exact [of now s] stop by auto
  have tab: "table_ok s" using io_reach_ok [OF reach] by (simp add: io_ok_def io_inv_def)
  have "m_fdContexts s = map (\<lambda>i. FdContext (int i)) [0..<length (m_fdContexts s)]"
    by (rule none_pending_all_new [OF tab few st(3)])
  then show ?thesis using st by (auto simp: IOManager_delete_def Scheduler_delete_def Let_def SYLAR_ASSERT_def ensure_def)
qed

theorem io_delete_clean_witness:
  "\<exists>s'. IOManager_delete 1 (demo_io0\<lparr>m_autostop := True\<rparr>) = Inr (s', [6, 7, 8], map (\<lambda>i. FdContext (int i)) [0..<32])"
proof -
  let ?s = "demo_io0\<lparr>m_autostop := True\<rparr>"
  have r: "io_reach 1 ?s" by (rule io_next [OF demo_io0(1) io_other]) simp_all
  have f: "length (m_fdContexts ?s) < 2 ^ 32" "m_tickleFds ?s = (7, 8)" by (simp_all add: demo_io0)
  have e: "snd (snd (io_stopping 1000 ?s))" "m_epfd ?s = 6" "length (m_fdContexts ?s) = 32"
    by (simp_all add: demo_io0 io_stopping_def getNextTimer_def stopping_def)
      (simp_all add: demo_io0_def IOManager_new_def start_def contextResize_def epoll_ctl_def demo_base_def
        sched.defs Let_def TimeManager_def)
  show ?thesis using io_delete_clean [OF r f(1) e(1)] unfolding e f by auto
qed

end
