(* ===== verification/FdManagers.thy ===== *)
theory FdManagers
  imports Prelude
begin

text \<open>
  sylar/fd_manager.h and sylar/fd_manager.cpp: what the program knows of a file descriptor
  and the table of these contexts. The kernel's side of a descriptor is two functions of the
  state: what \<open>fstat\<close> answers (\<open>None\<close>: it fails, \<open>Some b\<close>: whether it is a socket) and the
  status flags that \<open>fcntl\<close> reads and writes. \<open>std::shared_ptr\<close>s to contexts are only used
  while the table holds them, so the table owns the objects.
\<close>

unbundle bit_operations_syntax

section \<open>Data\<close>

abbreviation O_NONBLOCK :: u32 where "O_NONBLOCK \<equiv> 0x800"

record fd_ctx =
  m_isInit :: bool
  m_isSocket :: bool
  m_sysNonblock :: bool
  m_userNonblock :: bool
  m_isClosed :: bool
  m_fd :: int
  m_recvTimeout :: u64
  m_sendTimeout :: u64

record fd_state =
  k_stat :: "int \<Rightarrow> bool option"
  k_flags :: "int \<Rightarrow> u32"
  m_datas :: "fd_ctx option list"

text \<open>The original \<open>fcntl_f\<close> with \<open>F_GETFL\<close> and \<open>F_SETFL\<close>: Linux lets \<open>F_SETFL\<close> change
  \<open>O_APPEND\<close>, \<open>O_NONBLOCK\<close>, \<open>O_ASYNC\<close>, \<open>O_DIRECT\<close> and \<open>O_NOATIME\<close> only.\<close>

abbreviation SETFL_MASK :: u32 where "SETFL_MASK \<equiv> 0x46C00"

definition getfl :: "int \<Rightarrow> fd_state \<Rightarrow> u32" where
  "getfl fd s = k_flags s fd"

definition setfl :: "int \<Rightarrow> u32 \<Rightarrow> fd_state \<Rightarrow> fd_state" where
  "setfl fd v s = s\<lparr>k_flags := (k_flags s)(fd := (v AND SETFL_MASK) OR (k_flags s fd AND NOT SETFL_MASK))\<rparr>"

section \<open>Contexts\<close>

definition init :: "fd_ctx \<Rightarrow> fd_state \<Rightarrow> fd_ctx \<times> fd_state \<times> bool" where
  "init c0 s =
     (if m_isInit c0 then (c0, s, True)
      else let c1 = c0\<lparr>m_recvTimeout := -1, m_sendTimeout := -1\<rparr>;
               c2 = (case k_stat s (m_fd c1) of
                       None \<Rightarrow> c1\<lparr>m_isInit := False, m_isSocket := False\<rparr>
                     | Some sock \<Rightarrow> c1\<lparr>m_isInit := True, m_isSocket := sock\<rparr>);
               fl = getfl (m_fd c2) s;
               s1 = (if m_isSocket c2 \<and> fl AND O_NONBLOCK = 0
                     then setfl (m_fd c2) (fl OR O_NONBLOCK) s else s);
               c3 = c2\<lparr>m_sysNonblock := m_isSocket c2, m_userNonblock := False, m_isClosed := False\<rparr>
           in (c3, s1, m_isInit c3))"

definition FdCtx :: "int \<Rightarrow> fd_state \<Rightarrow> fd_ctx \<times> fd_state" where
  "FdCtx fd s =
     (let (c, s1, _) = init \<lparr>m_isInit = False, m_isSocket = False, m_sysNonblock = False,
            m_userNonblock = False, m_isClosed = False, m_fd = fd, m_recvTimeout = -1,
            m_sendTimeout = -1\<rparr> s
      in (c, s1))"

text \<open>\<open>SO_RCVTIMEO\<close> is 20 on Linux, \<open>SO_SNDTIMEO\<close> 21.\<close>

abbreviation SO_RCVTIMEO :: int where "SO_RCVTIMEO \<equiv> 20"
abbreviation SO_SNDTIMEO :: int where "SO_SNDTIMEO \<equiv> 21"

definition setTimeout :: "int \<Rightarrow> u64 \<Rightarrow> fd_ctx \<Rightarrow> fd_ctx" where
  "setTimeout type v c = (if type = SO_RCVTIMEO then c\<lparr>m_recvTimeout := v\<rparr> else c\<lparr>m_sendTimeout := v\<rparr>)"

definition getTimeout :: "int \<Rightarrow> fd_ctx \<Rightarrow> u64" where
  "getTimeout type c = (if type = SO_RCVTIMEO then m_recvTimeout c else m_sendTimeout c)"

definition setUserNonblock :: "bool \<Rightarrow> fd_ctx \<Rightarrow> fd_ctx" where
  "setUserNonblock v c = c\<lparr>m_userNonblock := v\<rparr>"

section \<open>The table\<close>

definition FdManager :: "(int \<Rightarrow> bool option) \<Rightarrow> (int \<Rightarrow> u32) \<Rightarrow> fd_state" where
  "FdManager st fl = \<lparr>k_stat = st, k_flags = fl, m_datas = vec_resize None 64 []\<rparr>"

definition get :: "int \<Rightarrow> bool \<Rightarrow> fd_state \<Rightarrow> (fd_state \<times> fd_ctx option) result" where
  "get fd auto_create s =
     (let create = (let (c, s1) = FdCtx fd s
                    in rbind (vec_set (m_datas s1) fd (Some c)) (\<lambda>v. Inr (s1\<lparr>m_datas := v\<rparr>, Some c)))
      in if int (length (m_datas s)) \<le> fd
         then if \<not> auto_create then Inr (s, None) else create
         else rbind (vec_get (m_datas s) fd)
           (\<lambda>d. if d \<noteq> None \<or> \<not> auto_create then Inr (s, d) else create))"

definition del :: "int \<Rightarrow> fd_state \<Rightarrow> fd_state result" where
  "del fd s =
     (if int (length (m_datas s)) \<le> fd then Inr s
      else rbind (vec_set (m_datas s) fd None) (\<lambda>v. Inr (s\<lparr>m_datas := v\<rparr>)))"

text \<open>Writing through a context's pointer.\<close>

definition put_fd_ctx :: "int \<Rightarrow> fd_ctx \<Rightarrow> fd_state \<Rightarrow> fd_state" where
  "put_fd_ctx fd c s = s\<lparr>m_datas := (m_datas s)[nat fd := Some c]\<rparr>"

section \<open>The contract of a descriptor table\<close>

text \<open>What the hooks rely on: a lookup, and which descriptors it can hold.\<close>

locale fd_table =
  fixes lookup :: "int \<Rightarrow> 's \<Rightarrow> 'a option" and make :: "int \<Rightarrow> 's \<Rightarrow> ('s \<times> 'a option) result"
    and drop_fd :: "int \<Rightarrow> 's \<Rightarrow> 's result" and room :: "'s \<Rightarrow> int \<Rightarrow> bool"
  assumes make_in: "room s fd \<Longrightarrow> \<exists>s' c. make fd s = Inr (s', Some c) \<and> lookup fd s' = Some c
      \<and> (\<forall>x. x \<noteq> fd \<longrightarrow> lookup x s' = lookup x s) \<and> room s' = room s
      \<and> (lookup fd s \<noteq> None \<longrightarrow> s' = s)"
    and drop_in: "room s fd \<Longrightarrow> \<exists>s'. drop_fd fd s = Inr s' \<and> lookup fd s' = None
      \<and> (\<forall>x. x \<noteq> fd \<longrightarrow> lookup x s' = lookup x s) \<and> room s' = room s"
begin

lemma make_idem:
  assumes "room s fd" and "make fd s = Inr (s', c)"
  shows "make fd s' = Inr (s', c)"
proof -
  obtain c1 where c: "c = Some c1" "lookup fd s' = Some c1" "room s' fd"
    using make_in [OF assms(1)] assms by auto
  then show ?thesis using make_in [of s' fd] by auto
qed

text \<open>A descriptor number that is closed and reused gets a fresh context.\<close>

lemma drop_make:
  assumes "room s fd" and "drop_fd fd s = Inr s1"
  shows "\<exists>s2 c. make fd s1 = Inr (s2, Some c) \<and> lookup fd s2 = Some c
    \<and> (\<forall>x. x \<noteq> fd \<longrightarrow> lookup x s2 = lookup x s)"
  using drop_in [OF assms(1)] make_in [of s1 fd] assms by auto

end

definition fd_lookup :: "int \<Rightarrow> fd_state \<Rightarrow> fd_ctx option" where
  "fd_lookup fd s = (if 0 \<le> fd \<and> fd < int (length (m_datas s)) then m_datas s ! nat fd else None)"

definition fd_room :: "fd_state \<Rightarrow> int \<Rightarrow> bool" where
  "fd_room s fd \<longleftrightarrow> 0 \<le> fd \<and> fd < int (length (m_datas s))"

lemma FdCtx_frame:
  "m_datas (snd (FdCtx fd s)) = m_datas s" "k_stat (snd (FdCtx fd s)) = k_stat s"
  "x \<noteq> fd \<Longrightarrow> k_flags (snd (FdCtx fd s)) x = k_flags s x"
  by (auto simp: FdCtx_def init_def setfl_def Let_def split: option.splits)

lemma get_create:
  assumes "fd_room s fd" and "fd_lookup fd s = None"
  shows "get fd True s = Inr (put_fd_ctx fd (fst (FdCtx fd s)) (snd (FdCtx fd s)), Some (fst (FdCtx fd s)))"
  using assms FdCtx_frame(1) [of fd s]
  by (auto simp: get_def fd_room_def fd_lookup_def vec_get_def vec_set_def put_fd_ctx_def Let_def split_beta)

lemma get_present:
  assumes "fd_room s fd" and "fd_lookup fd s = Some c"
  shows "get fd auto s = Inr (s, Some c)"
  using assms by (auto simp: get_def fd_room_def fd_lookup_def vec_get_def)

lemma get_lookup: "0 \<le> fd \<Longrightarrow> get fd False s = Inr (s, fd_lookup fd s)"
  by (auto simp: get_def fd_lookup_def vec_get_def)

interpretation fds: fd_table fd_lookup "\<lambda>fd. get fd True" del fd_room
proof
  fix s fd
  assume r: "fd_room s fd"
  show "\<exists>s' c. get fd True s = Inr (s', Some c) \<and> fd_lookup fd s' = Some c
      \<and> (\<forall>x. x \<noteq> fd \<longrightarrow> fd_lookup x s' = fd_lookup x s) \<and> fd_room s' = fd_room s
      \<and> (fd_lookup fd s \<noteq> None \<longrightarrow> s' = s)"
  proof (cases "fd_lookup fd s")
    case None
    then show ?thesis
      using get_create [OF r None] r FdCtx_frame(1) [of fd s]
      by (auto simp: put_fd_ctx_def fd_lookup_def fd_room_def fun_eq_iff nth_list_update nat_eq_iff)
  next
    case (Some c)
    then show ?thesis using get_present [OF r Some] by auto
  qed
  show "\<exists>s'. del fd s = Inr s' \<and> fd_lookup fd s' = None
      \<and> (\<forall>x. x \<noteq> fd \<longrightarrow> fd_lookup x s' = fd_lookup x s) \<and> fd_room s' = fd_room s"
    using r by (auto simp: del_def fd_room_def fd_lookup_def vec_set_def fun_eq_iff nth_list_update nat_eq_iff)
qed

end
