(* ===== verification/Hooks.thy ===== *)
theory Hooks
  imports IOManagers FdManagers "HOL-Library.Signed_Division"
begin

text \<open>
  sylar/hook.cpp: the system calls the program replaces. A call that would block is cut where
  its fiber is switched away: a first part runs up to \<open>YieldToHold\<close> and a \<open>resume\<close> part runs
  when the fiber is entered again; in between timers fire and the IO manager reports events.
  The original functions are arguments: the list of the results of their calls, in order,
  with the \<open>errno\<close> that goes with a \<open>-1\<close>.
\<close>

unbundle bit_operations_syntax

section \<open>State\<close>

text \<open>The callbacks the hooks create: \<open>std::bind(schedule, iom, fiber, -1)\<close> of the sleeping
  functions and the timeout lambda of \<open>do_io\<close> and \<open>connect_with_timeout\<close>.\<close>

datatype hook_cb = ScheduleFiber faddr int | CancelOnTimeout nat int u32 | UserCb nat

text \<open>\<open>name_f\<close> holds the pointers to the originals by their names. \<open>tinfo_at\<close> holds the \<open>cancelled\<close> member of the living \<open>timer_info\<close> objects, which only the
  frame of the waiting function owns.\<close>

record hook_state =
  iom_of :: "(nat, hook_cb) iom"
  fds_of :: fd_state
  tinfo_at :: "nat \<Rightarrow> int option"
  errno :: int
  t_hook_enable :: bool
  s_connect_timeout :: u64
  name_f :: "string \<Rightarrow> nat option"

text \<open>What the environment decides during one part of a call: the addresses of a new timer, a
  new \<open>timer_info\<close> and a new main fiber, the clock, the results of \<open>write\<close> to the wake-up pipe,
  of \<open>epoll_ctl\<close> (and the \<open>errno\<close> a failure leaves behind), \<open>getcontext\<close> and \<open>swapcontext\<close>.\<close>

record hook_env =
  e_timer :: taddr
  e_tinfo :: nat
  e_main :: faddr
  e_now :: u64
  e_write :: int
  e_ctl :: int
  e_ctl_errno :: int
  e_getctx :: int
  e_swap :: int

abbreviation EINTR :: int where "EINTR \<equiv> 4"
abbreviation EBADF :: int where "EBADF \<equiv> 9"
abbreviation EAGAIN :: int where "EAGAIN \<equiv> 11"
abbreviation ETIMEDOUT :: int where "ETIMEDOUT \<equiv> 110"
abbreviation EINPROGRESS :: int where "EINPROGRESS \<equiv> 115"

definition is_hook_enable :: "hook_state \<Rightarrow> bool" where
  "is_hook_enable s = t_hook_enable s"

definition set_hook_enable :: "bool \<Rightarrow> hook_state \<Rightarrow> hook_state" where
  "set_hook_enable flag s = s\<lparr>t_hook_enable := flag\<rparr>"

definition HOOK_FUN :: "string list" where
  "HOOK_FUN = [''sleep'', ''usleep'', ''nanosleep'', ''socket'', ''connect'', ''accept'', ''read'', ''readv'',
     ''recv'', ''recvfrom'', ''recvmsg'', ''write'', ''writev'', ''send'', ''sendto'', ''sendmsg'', ''close'',
     ''fcntl'', ''ioctl'', ''getsockopt'', ''setsockopt'']"

text \<open>\<open>hook_init\<close> with what \<open>dlsym\<close> answers. Its flag \<open>is_inited\<close> is never set, so the guard is
  always passed.\<close>

definition hook_init :: "(string \<Rightarrow> nat option) \<Rightarrow> hook_state \<Rightarrow> hook_state" where
  "hook_init dlsym s = (let is_inited = False
     in if is_inited then s else s\<lparr>name_f := fold (\<lambda>name f. f(name := dlsym name)) HOOK_FUN (name_f s)\<rparr>)"

text \<open>The static initialiser; it and its listener copy the \<open>int\<close> value of \<open>tcp.connect.timeout\<close>.\<close>

definition HookIniter :: "(string \<Rightarrow> nat option) \<Rightarrow> int \<Rightarrow> hook_state \<Rightarrow> hook_state" where
  "HookIniter dlsym tcp_connect_timeout s =
     (hook_init dlsym s)\<lparr>s_connect_timeout := word_of_int tcp_connect_timeout\<rparr>"

lemma hook_init_exact:
  "name_f (hook_init dlsym s) name = (if name \<in> set HOOK_FUN then dlsym name else name_f s name)"
proof -
  have "fold (\<lambda>name f. f(name := dlsym name)) ns f name = (if name \<in> set ns then dlsym name else f name)" for ns f
    by (induction ns arbitrary: f) auto
  then show ?thesis by (simp add: hook_init_def)
qed

definition on_connect_timeout :: "int \<Rightarrow> int \<Rightarrow> hook_state \<Rightarrow> hook_state" where
  "on_connect_timeout old_value new_value s = s\<lparr>s_connect_timeout := word_of_int new_value\<rparr>"

text \<open>\<open>IOManager::GetThis()\<close>, used through \<open>->\<close>; \<open>me\<close> is the address of the IO manager.\<close>

definition IOManager_GetThis :: "nat \<Rightarrow> hook_state \<Rightarrow> nat option" where
  "IOManager_GetThis me s = (if t_scheduler (iom_of s) = Some me then Some me else None)"

definition need_iom :: "nat \<Rightarrow> hook_state \<Rightarrow> unit result" where
  "need_iom me s = ensure (IOManager_GetThis me s \<noteq> None) (Undefined ''null IOManager'')"

section \<open>Timers and waiting\<close>

text \<open>\<open>addTimer\<close> of the manager with the notification it makes after releasing its lock.\<close>

definition iom_addTimer ::
    "hook_env \<Rightarrow> u64 \<Rightarrow> (nat, hook_cb) tcb \<Rightarrow> hook_state \<Rightarrow> hook_state result" where
  "iom_addTimer env ms cb s =
     (let (tm, at_front) = addTimer (e_timer env) (e_now env) ms (Some cb) False (timers (iom_of s));
          i1 = (iom_of s)\<lparr>timers := tm\<rparr>
      in rbind (if at_front then onTimerInsertedAtFront (e_write env) i1 else Inr i1)
           (\<lambda>i2. Inr (s\<lparr>iom_of := i2\<rparr>)))"

text \<open>\<open>if (timer) timer->cancel()\<close>.\<close>

definition cancel_timer :: "taddr option \<Rightarrow> hook_state \<Rightarrow> hook_state result" where
  "cancel_timer timer s =
     (case timer of None \<Rightarrow> Inr s
      | Some p \<Rightarrow> rbind (cancel p (timers (iom_of s)))
          (\<lambda>(tm, _). Inr (s\<lparr>iom_of := (iom_of s)\<lparr>timers := tm\<rparr>\<rparr>)))"

definition hold :: "hook_env \<Rightarrow> hook_state \<Rightarrow> hook_state result" where
  "hold env s = rbind (YieldToHold (e_main env) (e_getctx env) (e_swap env) (fs (iom_of s)))
     (\<lambda>f. Inr (s\<lparr>iom_of := (iom_of s)\<lparr>fs := f\<rparr>\<rparr>))"

text \<open>The end of the frame that owns the \<open>timer_info\<close>.\<close>

definition release :: "nat \<Rightarrow> hook_state \<Rightarrow> hook_state" where
  "release ti s = s\<lparr>tinfo_at := (tinfo_at s)(ti := None)\<rparr>"

text \<open>Arm the timeout unless it is \<open>-1\<close> and register for the event: the timer and what
  \<open>addEvent\<close> returned.\<close>

definition arm :: "nat \<Rightarrow> hook_env \<Rightarrow> int \<Rightarrow> u32 \<Rightarrow> u64 \<Rightarrow> nat \<Rightarrow> hook_state
    \<Rightarrow> (hook_state \<times> taddr option \<times> int) result" where
  "arm me env fd event to ti s =
     rbind (need_iom me s)
      (\<lambda>_. rbind (if to \<noteq> -1
             then rbind (iom_addTimer env to (OnTimer ti (CancelOnTimeout ti fd event)) s)
                    (\<lambda>s1. Inr (s1, Some (e_timer env)))
             else Inr (s, None))
      (\<lambda>(s1, timer). rbind (addEvent (e_main env) (e_ctl env) fd event None (iom_of s1))
      (\<lambda>(i2, rt). Inr (s1\<lparr>iom_of := i2, errno := (if rt = 0 then errno s1 else e_ctl_errno env)\<rparr>,
                       timer, rt))))"

text \<open>What a hooked call has come to: an original call has not returned yet, the call returns a
  value, or its fiber is held with this \<open>timer_info\<close> and timer.\<close>

datatype outcome = InCall | Ret int | Held nat "taddr option"

section \<open>Reading and writing\<close>

text \<open>The call of the original and its repetition while interrupted: the result and \<open>errno\<close>.\<close>

fun call_loop :: "int \<Rightarrow> (int \<times> int) list \<Rightarrow> (int \<times> int) option" where
  "call_loop err [] = None"
| "call_loop err ((n, e) # cs) =
     (let err1 = (if n = -1 then e else err)
      in if n = -1 \<and> err1 = EINTR then call_loop err1 cs else Some (n, err1))"

text \<open>A single call of the original, its value returned as it is.\<close>

definition call_once :: "(int \<times> int) list \<Rightarrow> hook_state \<Rightarrow> hook_state \<times> outcome" where
  "call_once calls s = (case calls of [] \<Rightarrow> (s, InCall)
     | (n, e) # _ \<Rightarrow> (s\<lparr>errno := (if n = -1 then e else errno s)\<rparr>, Ret n))"

text \<open>\<open>do_io\<close> from the label \<open>retry\<close> on.\<close>

definition do_io_retry :: "nat \<Rightarrow> hook_env \<Rightarrow> (int \<times> int) list \<Rightarrow> int \<Rightarrow> u32 \<Rightarrow> u64 \<Rightarrow> nat
    \<Rightarrow> hook_state \<Rightarrow> (hook_state \<times> outcome) result" where
  "do_io_retry me env calls fd event to ti s =
     (case call_loop (errno s) calls of
        None \<Rightarrow> Inr (s, InCall)
      | Some (n, err) \<Rightarrow>
          let s1 = s\<lparr>errno := err\<rparr>
          in if n = -1 \<and> err = EAGAIN
             then rbind (arm me env fd event to ti s1)
               (\<lambda>(s2, timer, rt).
                  if rt \<noteq> 0 then rbind (cancel_timer timer s2) (\<lambda>s3. Inr (release ti s3, Ret (-1)))
                  else rbind (hold env s2) (\<lambda>s3. Inr (s3, Held ti timer)))
             else Inr (release ti s1, Ret n))"

text \<open>From the return of \<open>YieldToHold\<close> on.\<close>

definition do_io_resume :: "nat \<Rightarrow> hook_env \<Rightarrow> (int \<times> int) list \<Rightarrow> int \<Rightarrow> u32 \<Rightarrow> u64 \<Rightarrow> nat
    \<Rightarrow> taddr option \<Rightarrow> hook_state \<Rightarrow> (hook_state \<times> outcome) result" where
  "do_io_resume me env calls fd event to ti timer s =
     rbind (cancel_timer timer s)
      (\<lambda>s1. case tinfo_at s1 ti of
         None \<Rightarrow> Inl (Undefined ''timer_info'')
       | Some why \<Rightarrow>
           if why \<noteq> 0 then Inr (release ti (s1\<lparr>errno := why\<rparr>), Ret (-1))
           else do_io_retry me env calls fd event to ti s1)"

definition new_tinfo :: "nat \<Rightarrow> hook_state \<Rightarrow> hook_state" where
  "new_tinfo ti s = s\<lparr>tinfo_at := (tinfo_at s)(ti := Some 0)\<rparr>"

definition do_io :: "nat \<Rightarrow> hook_env \<Rightarrow> (int \<times> int) list \<Rightarrow> int \<Rightarrow> u32 \<Rightarrow> int
    \<Rightarrow> hook_state \<Rightarrow> (hook_state \<times> outcome) result" where
  "do_io me env calls fd event timeout_so s =
     (if \<not> t_hook_enable s then Inr (call_once calls s)
      else rbind (get fd False (fds_of s))
       (\<lambda>(_, c). case c of
          None \<Rightarrow> Inr (call_once calls s)
        | Some ctx \<Rightarrow>
            if m_isClosed ctx then Inr (s\<lparr>errno := EBADF\<rparr>, Ret (-1))
            else if \<not> m_isSocket ctx \<or> m_userNonblock ctx then Inr (call_once calls s)
            else do_io_retry me env calls fd event (getTimeout timeout_so ctx) (e_tinfo env)
                   (new_tinfo (e_tinfo env) s)))"

text \<open>\<open>read\<close>, \<open>readv\<close>, \<open>recv\<close>, \<open>recvfrom\<close>, \<open>recvmsg\<close>, and \<open>write\<close>, \<open>writev\<close>, \<open>send\<close>, \<open>sendto\<close>,
  \<open>sendmsg\<close> differ in the original they are handed.\<close>

definition hook_read :: "nat \<Rightarrow> hook_env \<Rightarrow> (int \<times> int) list \<Rightarrow> int \<Rightarrow> hook_state \<Rightarrow> (hook_state \<times> outcome) result" where
  "hook_read me env calls fd s = do_io me env calls fd READ SO_RCVTIMEO s"

definition hook_write :: "nat \<Rightarrow> hook_env \<Rightarrow> (int \<times> int) list \<Rightarrow> int \<Rightarrow> hook_state \<Rightarrow> (hook_state \<times> outcome) result" where
  "hook_write me env calls fd s = do_io me env calls fd WRITE SO_SNDTIMEO s"

text \<open>\<open>accept\<close> after \<open>do_io\<close> has returned.\<close>

definition accept_finish :: "hook_state \<times> outcome \<Rightarrow> (hook_state \<times> outcome) result" where
  "accept_finish r =
     (case r of (s, Ret fd) \<Rightarrow>
        if 0 \<le> fd then rbind (get fd True (fds_of s)) (\<lambda>(d, _). Inr (s\<lparr>fds_of := d\<rparr>, Ret fd))
        else Inr (s, Ret fd)
      | _ \<Rightarrow> Inr r)"

definition hook_accept :: "nat \<Rightarrow> hook_env \<Rightarrow> (int \<times> int) list \<Rightarrow> int \<Rightarrow> hook_state \<Rightarrow> (hook_state \<times> outcome) result" where
  "hook_accept me env calls sock s =
     rbind (do_io me env calls sock READ SO_RCVTIMEO s) accept_finish"

definition hook_accept_resume :: "nat \<Rightarrow> hook_env \<Rightarrow> (int \<times> int) list \<Rightarrow> int \<Rightarrow> u64 \<Rightarrow> nat
    \<Rightarrow> taddr option \<Rightarrow> hook_state \<Rightarrow> (hook_state \<times> outcome) result" where
  "hook_accept_resume me env calls sock to ti timer s =
     rbind (do_io_resume me env calls sock READ to ti timer s) accept_finish"

section \<open>Connecting\<close>

text \<open>The end of \<open>connect_with_timeout\<close>: \<open>getsockopt(SO_ERROR)\<close> returned \<open>rc\<close> and \<open>error\<close>.\<close>

definition connect_result :: "int \<times> int \<Rightarrow> int \<Rightarrow> nat \<Rightarrow> hook_state \<Rightarrow> hook_state \<times> outcome" where
  "connect_result so gerr ti s =
     (case so of (rc, error) \<Rightarrow>
        if rc = -1 then (release ti (s\<lparr>errno := gerr\<rparr>), Ret (-1))
        else if error = 0 then (release ti s, Ret 0)
        else (release ti (s\<lparr>errno := error\<rparr>), Ret (-1)))"

definition connect_with_timeout :: "nat \<Rightarrow> hook_env \<Rightarrow> int \<times> int \<Rightarrow> int \<times> int \<Rightarrow> int \<Rightarrow> int \<Rightarrow> u64
    \<Rightarrow> hook_state \<Rightarrow> (hook_state \<times> outcome) result" where
  "connect_with_timeout me env call so gerr fd timeout_ms s =
     (if \<not> t_hook_enable s then Inr (call_once [call] s)
      else rbind (get fd False (fds_of s))
       (\<lambda>(_, c). case c of
          None \<Rightarrow> Inr (s\<lparr>errno := EBADF\<rparr>, Ret (-1))
        | Some ctx \<Rightarrow>
            if m_isClosed ctx then Inr (s\<lparr>errno := EBADF\<rparr>, Ret (-1))
            else if \<not> m_isSocket ctx then Inr (call_once [call] s)
            else if m_userNonblock ctx then Inr (call_once [call] s)
            else let (n, e) = call; err = (if n = -1 then e else errno s); s1 = s\<lparr>errno := err\<rparr>
                 in if n = 0 then Inr (s1, Ret 0)
                    else if n \<noteq> -1 \<or> err \<noteq> EINPROGRESS then Inr (s1, Ret n)
                    else let ti = e_tinfo env
                         in rbind (arm me env fd WRITE timeout_ms ti (new_tinfo ti s1))
                              (\<lambda>(s2, timer, rt).
                                 if rt = 0 then rbind (hold env s2) (\<lambda>s3. Inr (s3, Held ti timer))
                                 else rbind (cancel_timer timer s2)
                                        (\<lambda>s3. Inr (connect_result so gerr ti s3)))))"

definition connect_resume :: "int \<times> int \<Rightarrow> int \<Rightarrow> nat \<Rightarrow> taddr option
    \<Rightarrow> hook_state \<Rightarrow> (hook_state \<times> outcome) result" where
  "connect_resume so gerr ti timer s =
     rbind (cancel_timer timer s)
      (\<lambda>s1. case tinfo_at s1 ti of
         None \<Rightarrow> Inl (Undefined ''timer_info'')
       | Some why \<Rightarrow>
           if why \<noteq> 0 then Inr (release ti (s1\<lparr>errno := why\<rparr>), Ret (-1))
           else Inr (connect_result so gerr ti s1))"

definition hook_connect :: "nat \<Rightarrow> hook_env \<Rightarrow> int \<times> int \<Rightarrow> int \<times> int \<Rightarrow> int \<Rightarrow> int
    \<Rightarrow> hook_state \<Rightarrow> (hook_state \<times> outcome) result" where
  "hook_connect me env call so gerr sockfd s =
     connect_with_timeout me env call so gerr sockfd (s_connect_timeout s) s"

section \<open>The callbacks\<close>

text \<open>\<open>schedule(fiber, thread)\<close> on the manager, and the timeout lambda: the weak pointer is
  locked, the wait marked and its event cancelled. \<open>rt\<close> is the result of \<open>epoll_ctl\<close>.\<close>

definition run_hook_cb :: "nat \<Rightarrow> int \<Rightarrow> int \<Rightarrow> hook_cb \<Rightarrow> hook_state \<Rightarrow> hook_state result" where
  "run_hook_cb me wr rt cb s =
     (case cb of
        ScheduleFiber f thr \<Rightarrow>
          rbind (post me wr me (fiber_task (Some f) thr) (iom_of s)) (\<lambda>i. Inr (s\<lparr>iom_of := i\<rparr>))
      | CancelOnTimeout ti fd event \<Rightarrow>
          (case tinfo_at s ti of
             None \<Rightarrow> Inr s
           | Some why \<Rightarrow>
               if why \<noteq> 0 then Inr s
               else let s1 = s\<lparr>tinfo_at := (tinfo_at s)(ti := Some ETIMEDOUT)\<rparr>
                    in rbind (cancelEvent me wr rt fd event (iom_of s1)) (\<lambda>(i, _). Inr (s1\<lparr>iom_of := i\<rparr>)))
      | UserCb _ \<Rightarrow> Inr s)"

text \<open>The scheduler calling a timer's callback.\<close>

definition run_timer_cb :: "nat \<Rightarrow> int \<Rightarrow> int \<Rightarrow> (nat, hook_cb) tcb \<Rightarrow> hook_state \<Rightarrow> hook_state result" where
  "run_timer_cb me wr rt t s =
     (case OnTimer_call (\<lambda>ti. tinfo_at s ti \<noteq> None) t of
        None \<Rightarrow> Inr s
      | Some cb \<Rightarrow> run_hook_cb me wr rt cb s)"

section \<open>Sleeping\<close>

text \<open>What the sleeping functions do: call an original with this argument, or hold the fiber.\<close>

datatype sleep_outcome = Sleep_f u32 | Nanosleep_f | Slept

definition sleep_for :: "nat \<Rightarrow> hook_env \<Rightarrow> u64 \<Rightarrow> hook_state \<Rightarrow> (hook_state \<times> sleep_outcome) result" where
  "sleep_for me env ms s =
     rbind (Fibers.GetThis (e_main env) (e_getctx env) (fs (iom_of s)))
      (\<lambda>(f, fiber). let s1 = s\<lparr>iom_of := (iom_of s)\<lparr>fs := f\<rparr>\<rparr>
         in rbind (need_iom me s1)
          (\<lambda>_. rbind (iom_addTimer env ms (Direct (ScheduleFiber fiber (-1))) s1)
          (\<lambda>s2. rbind (hold env s2) (\<lambda>s3. Inr (s3, Slept)))))"

definition hook_sleep :: "nat \<Rightarrow> hook_env \<Rightarrow> u32 \<Rightarrow> hook_state \<Rightarrow> (hook_state \<times> sleep_outcome) result" where
  "hook_sleep me env seconds s =
     (if \<not> t_hook_enable s then Inr (s, Sleep_f seconds)
      else sleep_for me env (ucast (seconds * 1000)) s)"

definition hook_usleep :: "nat \<Rightarrow> hook_env \<Rightarrow> u32 \<Rightarrow> hook_state \<Rightarrow> (hook_state \<times> sleep_outcome) result" where
  "hook_usleep me env usec s =
     (if \<not> t_hook_enable s then Inr (s, Sleep_f usec)
      else sleep_for me env (ucast (usec div 1000)) s)"

text \<open>\<open>long\<close> arithmetic, its result narrowed to \<open>int\<close> and converted to \<open>uint64_t\<close>.\<close>

definition nano_ms :: "int \<Rightarrow> int \<Rightarrow> int" where
  "nano_ms tv_sec tv_nsec = tv_sec * 1000 + (tv_nsec sdiv 1000) sdiv 1000"

definition hook_nanosleep :: "nat \<Rightarrow> hook_env \<Rightarrow> int \<Rightarrow> int \<Rightarrow> hook_state \<Rightarrow> (hook_state \<times> sleep_outcome) result" where
  "hook_nanosleep me env tv_sec tv_nsec s =
     (if \<not> t_hook_enable s then Inr (s, Nanosleep_f)
      else rbind (ensure (- (2 ^ 63) \<le> tv_sec * 1000 \<and> tv_sec * 1000 < 2 ^ 63
                    \<and> - (2 ^ 63) \<le> nano_ms tv_sec tv_nsec \<and> nano_ms tv_sec tv_nsec < 2 ^ 63)
                    (Undefined ''signed overflow''))
        (\<lambda>_. sleep_for me env (word_of_int (c_int (word_of_int (nano_ms tv_sec tv_nsec)))) s))"

section \<open>Descriptors\<close>

text \<open>\<open>socket\<close>: the original returned \<open>fd\<close>; \<open>close\<close>: what \<open>close_f\<close> does is the kernel's.\<close>

definition hook_socket :: "int \<Rightarrow> hook_state \<Rightarrow> (hook_state \<times> int) result" where
  "hook_socket fd s =
     (if \<not> t_hook_enable s then Inr (s, fd)
      else if fd = -1 then Inr (s, fd)
      else rbind (get fd True (fds_of s)) (\<lambda>(d, _). Inr (s\<lparr>fds_of := d\<rparr>, fd)))"

definition close_f :: "int \<Rightarrow> hook_state \<Rightarrow> hook_state" where
  "close_f fd s = s\<lparr>fds_of := (fds_of s)\<lparr>k_stat := (k_stat (fds_of s))(fd := None)\<rparr>\<rparr>"

definition hook_close :: "nat \<Rightarrow> int \<Rightarrow> int \<Rightarrow> int \<Rightarrow> hook_state \<Rightarrow> hook_state result" where
  "hook_close me wr rt fd s =
     (if \<not> t_hook_enable s then Inr (close_f fd s)
      else rbind (get fd False (fds_of s))
       (\<lambda>(_, c). case c of
          None \<Rightarrow> Inr (close_f fd s)
        | Some _ \<Rightarrow>
            rbind (if IOManager_GetThis me s \<noteq> None
                   then rbind (cancelAll me wr rt fd (iom_of s)) (\<lambda>(i, _). Inr (s\<lparr>iom_of := i\<rparr>))
                   else Inr s)
             (\<lambda>s1. rbind (del fd (fds_of s1)) (\<lambda>d. Inr (close_f fd (s1\<lparr>fds_of := d\<rparr>))))))"

text \<open>The variadic argument of \<open>fcntl\<close> and \<open>ioctl\<close>: none, an integer (for \<open>ioctl\<close> the one its
  pointer points to), or a pointer.\<close>

datatype va_arg = NoArg | IntArg u32 | PtrArg nat

abbreviation F_GETFL :: int where "F_GETFL \<equiv> 3"
abbreviation F_SETFL :: int where "F_SETFL \<equiv> 4"
abbreviation FIONBIO :: u64 where "FIONBIO \<equiv> 0x5421"

text \<open>\<open>F_DUPFD\<close>, \<open>F_SETFD\<close>, \<open>F_SETOWN\<close>, \<open>F_SETSIG\<close>, \<open>F_SETLEASE\<close>, \<open>F_NOTIFY\<close>,
  \<open>F_DUPFD_CLOEXEC\<close>, \<open>F_SETPIPE_SZ\<close>; and \<open>F_GETLK\<close>, \<open>F_SETLK\<close>, \<open>F_SETLKW\<close>, \<open>F_SETOWN_EX\<close>,
  \<open>F_GETOWN_EX\<close>.\<close>

definition int_cmds :: "int list" where
  "int_cmds = [0, 2, 8, 10, 1024, 1026, 1030, 1031]"

definition ptr_cmds :: "int list" where
  "ptr_cmds = [5, 6, 7, 15, 16]"

text \<open>The original: \<open>F_SETFL\<close> and \<open>F_GETFL\<close> on the kernel's flags, \<open>other\<close> for the other
  commands. \<open>FIONBIO\<close> of the original \<open>ioctl\<close> sets or clears \<open>O_NONBLOCK\<close>.\<close>

definition fcntl_f :: "(int \<Rightarrow> int \<Rightarrow> va_arg \<Rightarrow> u32) \<Rightarrow> int \<Rightarrow> int \<Rightarrow> va_arg \<Rightarrow> fd_state \<Rightarrow> fd_state \<times> u32" where
  "fcntl_f other fd cmd arg s =
     (if cmd = F_SETFL then (case arg of IntArg v \<Rightarrow> (setfl fd v s, 0) | _ \<Rightarrow> (s, other fd cmd arg))
      else if cmd = F_GETFL then (s, getfl fd s)
      else (s, other fd cmd arg))"

definition ioctl_f :: "(int \<Rightarrow> u64 \<Rightarrow> va_arg \<Rightarrow> u32) \<Rightarrow> int \<Rightarrow> u64 \<Rightarrow> va_arg \<Rightarrow> fd_state \<Rightarrow> fd_state \<times> u32" where
  "ioctl_f other d request arg s =
     (if request = FIONBIO
      then (case arg of IntArg v \<Rightarrow> (s\<lparr>k_flags := (k_flags s)(d :=
                (if v \<noteq> 0 then k_flags s d OR O_NONBLOCK else k_flags s d AND NOT O_NONBLOCK))\<rparr>, 0)
            | _ \<Rightarrow> (s, other d request arg))
      else (s, other d request arg))"

text \<open>\<open>va_arg(va, int)\<close>; reading an argument the caller did not pass is undefined.\<close>

definition va_int :: "va_arg \<Rightarrow> u32 result" where
  "va_int a = (case a of IntArg v \<Rightarrow> Inr v | _ \<Rightarrow> Inl (Undefined ''va_arg''))"

definition unhooked :: "fd_ctx option \<Rightarrow> bool" where
  "unhooked c \<longleftrightarrow> (case c of None \<Rightarrow> True | Some ctx \<Rightarrow> m_isClosed ctx \<or> \<not> m_isSocket ctx)"

definition hook_fcntl :: "(int \<Rightarrow> int \<Rightarrow> va_arg \<Rightarrow> u32) \<Rightarrow> int \<Rightarrow> int \<Rightarrow> va_arg \<Rightarrow> fd_state \<Rightarrow> (fd_state \<times> u32) result" where
  "hook_fcntl other fd cmd va s =
     (if cmd = F_SETFL then
        rbind (va_int va)
         (\<lambda>arg. rbind (get fd False s)
         (\<lambda>(_, c). if unhooked c then Inr (fcntl_f other fd cmd (IntArg arg) s)
            else let ctx = setUserNonblock (arg AND O_NONBLOCK \<noteq> 0) (the c);
                     arg1 = (if m_sysNonblock ctx then arg OR O_NONBLOCK else arg AND NOT O_NONBLOCK)
                 in Inr (fcntl_f other fd cmd (IntArg arg1) (put_fd_ctx fd ctx s))))
      else if cmd = F_GETFL then
        (let (s1, arg) = fcntl_f other fd cmd NoArg s
         in rbind (get fd False s1)
             (\<lambda>(_, c). if unhooked c then Inr (s1, arg)
                else if m_userNonblock (the c) then Inr (s1, arg OR O_NONBLOCK)
                else Inr (s1, arg AND NOT O_NONBLOCK)))
      else if cmd \<in> set int_cmds then rbind (va_int va) (\<lambda>arg. Inr (fcntl_f other fd cmd (IntArg arg) s))
      else if cmd \<in> set ptr_cmds then
        (case va of PtrArg p \<Rightarrow> Inr (fcntl_f other fd cmd (PtrArg p) s) | _ \<Rightarrow> Inl (Undefined ''va_arg''))
      else Inr (fcntl_f other fd cmd NoArg s))"

definition hook_ioctl :: "(int \<Rightarrow> u64 \<Rightarrow> va_arg \<Rightarrow> u32) \<Rightarrow> int \<Rightarrow> u64 \<Rightarrow> va_arg \<Rightarrow> fd_state \<Rightarrow> (fd_state \<times> u32) result" where
  "hook_ioctl other d request va s =
     (if request = FIONBIO then
        rbind (va_int va)
         (\<lambda>v. rbind (get d False s)
         (\<lambda>(_, c). if unhooked c then Inr (ioctl_f other d request va s)
            else Inr (ioctl_f other d request va (put_fd_ctx d (setUserNonblock (v \<noteq> 0) (the c)) s))))
      else Inr (ioctl_f other d request va s))"

text \<open>\<open>getsockopt\<close> is passed on.\<close>

definition hook_getsockopt :: "(int \<times> int) list \<Rightarrow> hook_state \<Rightarrow> hook_state \<times> outcome" where
  "hook_getsockopt calls s = call_once calls s"

text \<open>\<open>v->tv_sec * 1000 + v->tv_usec / 1000\<close> in \<open>long\<close>: signed overflow is undefined.\<close>

definition timeval_ms :: "int \<Rightarrow> int \<Rightarrow> int result" where
  "timeval_ms tv_sec tv_usec =
     rbind (ensure (- (2 ^ 63) \<le> tv_sec * 1000 \<and> tv_sec * 1000 < 2 ^ 63) (Undefined ''signed overflow''))
      (\<lambda>_. let ms = tv_sec * 1000 + tv_usec sdiv 1000
           in rbind (ensure (- (2 ^ 63) \<le> ms \<and> ms < 2 ^ 63) (Undefined ''signed overflow'')) (\<lambda>_. Inr ms))"

text \<open>\<open>setsockopt\<close> up to the original call; \<open>tv\<close> is the \<open>timeval\<close> that \<open>optval\<close> points to.\<close>

abbreviation SOL_SOCKET :: int where "SOL_SOCKET \<equiv> 1"

definition hook_setsockopt :: "int \<Rightarrow> int \<Rightarrow> int \<Rightarrow> int \<times> int \<Rightarrow> hook_state \<Rightarrow> hook_state result" where
  "hook_setsockopt sockfd level optname tv s =
     (if \<not> t_hook_enable s then Inr s
      else if level = SOL_SOCKET \<and> (optname = SO_RCVTIMEO \<or> optname = SO_SNDTIMEO)
      then rbind (get sockfd False (fds_of s))
         (\<lambda>(_, c). case c of None \<Rightarrow> Inr s
            | Some ctx \<Rightarrow>
                rbind (timeval_ms (fst tv) (snd tv))
                 (\<lambda>ms. Inr (s\<lparr>fds_of := put_fd_ctx sockfd (setTimeout optname (word_of_int ms) ctx) (fds_of s)\<rparr>)))
      else Inr s)"

section \<open>A task's fiber that waits\<close>

text \<open>A task's fiber \<open>cur\<close> runs on a thread of the manager \<open>me\<close>; \<open>m\<close> is the thread's main fiber.\<close>

definition worker_ok :: "nat \<Rightarrow> faddr \<Rightarrow> faddr \<Rightarrow> hook_state \<Rightarrow> bool" where
  "worker_ok me m cur s \<longleftrightarrow> io_ok (iom_of s) \<and> timer_inv (timers (iom_of s))
     \<and> fiber_inv m (fs (iom_of s)) \<and> running (fs (iom_of s)) = FiberFlow cur
     \<and> t_scheduler_fiber (fs (iom_of s)) \<noteq> Some cur \<and> t_scheduler (iom_of s) = Some me"

text \<open>The system calls made while waiting begins succeed and the new timer is new.\<close>

definition env_ok :: "hook_env \<Rightarrow> hook_state \<Rightarrow> bool" where
  "env_ok env s \<longleftrightarrow> e_write env = 1 \<and> e_ctl env = 0 \<and> e_getctx env = 0 \<and> e_swap env = 0
     \<and> e_timer env \<notin> set (m_timers (timers (iom_of s)))"

text \<open>A fiber waits for an event of \<open>fd\<close>: registered as a fiber entry, with its timeout armed,
  or with none (any more).\<close>

definition waiting :: "nat \<Rightarrow> faddr \<Rightarrow> int \<Rightarrow> u32 \<Rightarrow> nat \<Rightarrow> taddr option \<Rightarrow> hook_state \<Rightarrow> bool" where
  "waiting me cur fd event ti timer s \<longleftrightarrow> io_ok (iom_of s) \<and> timer_inv (timers (iom_of s))
     \<and> 0 \<le> fd \<and> nat fd < length (m_fdContexts (iom_of s)) \<and> fd \<noteq> fst (m_tickleFds (iom_of s))
     \<and> event \<in> {READ, WRITE} \<and> events_at (iom_of s) (nat fd) AND event \<noteq> 0
     \<and> entry_of event (m_fdContexts (iom_of s) ! nat fd)
         = \<lparr>ev_scheduler = Some me, ev_fiber = Some cur, ev_cb = None\<rparr>
     \<and> tinfo_at s ti = Some 0
     \<and> (case timer of None \<Rightarrow> True | Some p \<Rightarrow>
          m_cb (timer_at (timers (iom_of s)) p) = Some (OnTimer ti (CancelOnTimeout ti fd event)))"

definition with_timer :: "hook_env \<Rightarrow> u64 \<Rightarrow> (nat, hook_cb) tcb \<Rightarrow> (nat, hook_cb) iom \<Rightarrow> (nat, hook_cb) iom" where
  "with_timer env ms cb i =
     (let (tm, front) = addTimer (e_timer env) (e_now env) ms (Some cb) False (timers i)
      in i\<lparr>timers := tm, tickle_pipe := tickle_pipe i + (if front \<and> hasIdleThreads i then 1 else 0)\<rparr>)"

lemma iom_addTimer_outcome:
  "e_write env = 1 \<Longrightarrow> iom_addTimer env ms cb s = Inr (s\<lparr>iom_of := with_timer env ms cb (iom_of s)\<rparr>)"
  by (auto simp: iom_addTimer_def with_timer_def Let_def split_beta onTimerInsertedAtFront_def tickle_def
      hasIdleThreads_def)

lemma with_timer_frame [simp]:
  "m_fdContexts (with_timer env ms cb i) = m_fdContexts i" "interest (with_timer env ms cb i) = interest i"
  "m_pendingEventCount (with_timer env ms cb i) = m_pendingEventCount i"
  "m_tickleFds (with_timer env ms cb i) = m_tickleFds i" "fs (with_timer env ms cb i) = fs i"
  "t_scheduler (with_timer env ms cb i) = t_scheduler i" "m_fibers (with_timer env ms cb i) = m_fibers i"
  "events_at (with_timer env ms cb i) j = events_at i j"
  "timers (with_timer env ms cb i) = fst (addTimer (e_timer env) (e_now env) ms (Some cb) False (timers i))"
  by (simp_all add: with_timer_def split_beta Let_def events_at_def)

lemma io_ok_frame:
  "m_fdContexts i' = m_fdContexts i \<Longrightarrow> m_pendingEventCount i' = m_pendingEventCount i
    \<Longrightarrow> interest i' = interest i \<Longrightarrow> m_tickleFds i' = m_tickleFds i \<Longrightarrow> io_ok i' = io_ok i"
  by (simp add: io_ok_def io_inv_def table_ok_def interest_ok_def events_at_def)

lemma with_timer_ok [simp]: "io_ok (with_timer env ms cb i) = io_ok i"
  by (rule io_ok_frame) simp_all

lemma io_ok_fs [simp]: "io_ok (i\<lparr>fs := f\<rparr>) = io_ok i"
  by (rule io_ok_frame) simp_all

lemma io_ok_timers [simp]: "io_ok (i\<lparr>timers := f\<rparr>) = io_ok i"
  by (rule io_ok_frame) simp_all

text \<open>\<open>addEvent\<close> from the running fiber.\<close>

lemma addEvent_from_fiber:
  assumes ok: "io_ok i" and f: "fiber_inv m (fs i)" "running (fs i) = FiberFlow cur"
    "t_scheduler_fiber (fs i) \<noteq> Some cur" "t_scheduler i = Some me"
    and fd: "0 \<le> fd" "fd \<noteq> fst (m_tickleFds i)" and e: "event \<in> {READ, WRITE}"
    and free: "events_at i (nat fd) AND event = 0"
  defines "i' \<equiv> added (nat fd) event (new_entry None cur i) (addEvent_table fd i)"
  shows "addEvent d 0 fd event None i = Inr (i', 0)" and "io_ok i'" and "fs i' = fs i"
    and "timers i' = timers i" and "m_tickleFds i' = m_tickleFds i" and "m_fibers i' = m_fibers i"
    and "nat fd < length (m_fdContexts i')"
    and "events_at i' j = (if j = nat fd then events_at i j OR event else events_at i j)"
    and "entry_of event (m_fdContexts i' ! nat fd)
      = \<lparr>ev_scheduler = Some me, ev_fiber = Some cur, ev_cb = None\<rparr>"
proof -
  have inv: "io_inv i" and big: "32 \<le> length (m_fdContexts i)" using ok by (simp_all add: io_ok_def)
  note t = addEvent_table_outcome [OF inv fd(1) big]
  have g: "Fibers.GetThis d 0 (fs i) = Inr (fs i, cur)"
    using running_resumer_ctx(6) [OF f(1,2,3)] by (simp add: GetThis_def)
  show fr: "fs i' = fs i" "timers i' = timers i" "m_fibers i' = m_fibers i"
    by (simp_all add: i'_def added_def Let_def told_def epoll_ctl_def addEvent_table_def addEvent_grow_def
        contextResize_def)
  have "i'\<lparr>fs := fs i\<rparr> = i'" using fr(1) by (metis sched.surjective sched.update_convs(13))
  then show a: "addEvent d 0 fd event None i = Inr (i', 0)"
    using addEvent_accepted [OF inv big fd(1) e free, of d None] g running_resumer_ctx(4) [OF f(1,2)]
    by (simp add: i'_def)
  have sch: "t_scheduler i \<noteq> None" using f(4) by simp
  note k = addEvent_keeps [OF inv big fd(2) e sch a]
  show "io_ok i'" using k big by (simp add: io_ok_def)
  show "m_tickleFds i' = m_tickleFds i" by (rule k(3))
  have l: "m_fdContexts i' = (m_fdContexts (addEvent_table fd i))[nat fd := putContext event (new_entry None cur i)
      ((m_fdContexts (addEvent_table fd i) ! nat fd)\<lparr>events := events_at i (nat fd) OR event\<rparr>)]"
    using t(2) t(3) [of "nat fd"] by (simp add: i'_def added_def Let_def events_at_def)
  show "nat fd < length (m_fdContexts i')" using t(2) by (simp add: l)
  show "events_at i' j = (if j = nat fd then events_at i j OR event else events_at i j)"
    using t(2) t(3) [of j] events_at_update [OF t(2) l, of j]
    by (simp add: putContext_def split: if_splits)
  show "entry_of event (m_fdContexts i' ! nat fd)
      = \<lparr>ev_scheduler = Some me, ev_fiber = Some cur, ev_cb = None\<rparr>"
    using t(2) e f(4) by (auto simp: l entry_of_def putContext_def new_entry_def)
qed

text \<open>Arming and holding together, from the running fiber.\<close>

definition armed_with :: "hook_env \<Rightarrow> u64 \<Rightarrow> nat \<Rightarrow> int \<Rightarrow> u32 \<Rightarrow> (nat, hook_cb) iom \<Rightarrow> (nat, hook_cb) iom" where
  "armed_with env to ti fd event i =
     (if to = -1 then i else with_timer env to (OnTimer ti (CancelOnTimeout ti fd event)) i)"

lemma armed_with_frame [simp]:
  "m_fdContexts (armed_with env to ti fd event i) = m_fdContexts i"
  "m_tickleFds (armed_with env to ti fd event i) = m_tickleFds i"
  "fs (armed_with env to ti fd event i) = fs i" "t_scheduler (armed_with env to ti fd event i) = t_scheduler i"
  "m_fibers (armed_with env to ti fd event i) = m_fibers i"
  "events_at (armed_with env to ti fd event i) j = events_at i j"
  "io_ok (armed_with env to ti fd event i) = io_ok i"
  by (simp_all add: armed_with_def)

definition timer_of :: "hook_env \<Rightarrow> u64 \<Rightarrow> taddr option" where
  "timer_of env to = (if to = -1 then None else Some (e_timer env))"

lemma arm_hold_outcome:
  assumes w: "worker_ok me m cur s" and env: "env_ok env s"
    and fd: "0 \<le> fd" "fd \<noteq> fst (m_tickleFds (iom_of s))" and e: "event \<in> {READ, WRITE}"
    and free: "events_at (iom_of s) (nat fd) AND event = 0" and t0: "tinfo_at s ti = Some 0"
  shows "\<exists>s1 s2. arm me env fd event to ti s = Inr (s1, timer_of env to, 0) \<and> hold env s1 = Inr s2
    \<and> waiting me cur fd event ti (timer_of env to) s2
    \<and> armed (timers (iom_of s2)) = (if to = -1 then armed (timers (iom_of s))
         else (armed (timers (iom_of s)))(e_timer env \<mapsto>
           Timer (e_now env) to (Some (OnTimer ti (CancelOnTimeout ti fd event))) False))
    \<and> (\<forall>j. events_at (iom_of s2) j = (if j = nat fd then events_at (iom_of s) j OR event
           else events_at (iom_of s) j))
    \<and> fs (iom_of s2) = left (AtSwap (FiberFlow cur)) m cur (fs (iom_of s))
    \<and> m_fibers (iom_of s2) = m_fibers (iom_of s) \<and> fds_of s2 = fds_of s
    \<and> m_tickleFds (iom_of s2) = m_tickleFds (iom_of s)
    \<and> m_previouseTime (timers (iom_of s2)) = m_previouseTime (timers (iom_of s))"
proof -
  let ?i = "armed_with env to ti fd event (iom_of s)"
  let ?j = "added (nat fd) event (new_entry None cur ?i) (addEvent_table fd ?i)"
  let ?s1 = "s\<lparr>iom_of := ?j\<rparr>"
  let ?s2 = "s\<lparr>iom_of := ?j\<lparr>fs := left (AtSwap (FiberFlow cur)) m cur (fs (iom_of s))\<rparr>\<rparr>"
  have io: "io_ok ?i" "fiber_inv m (fs ?i)" "running (fs ?i) = FiberFlow cur"
    "t_scheduler_fiber (fs ?i) \<noteq> Some cur" "t_scheduler ?i = Some me" and tm: "timer_inv (timers (iom_of s))"
    using w by (simp_all add: worker_ok_def)
  have ev: "e_write env = 1" "e_ctl env = 0" "e_getctx env = 0" "e_swap env = 0"
    and new: "e_timer env \<notin> set (m_timers (timers (iom_of s)))" using env by (simp_all add: env_ok_def)
  note a = addEvent_from_fiber [OF io fd(1) _ e, unfolded armed_with_frame, OF fd(2) free]
  have need: "need_iom me s = Inr ()" using w by (simp add: need_iom_def IOManager_GetThis_def worker_ok_def)
  have arm: "arm me env fd event to ti s = Inr (?s1, timer_of env to, 0)"
  proof (cases "to = -1")
    case True
    then show ?thesis using a(1) ev by (simp add: arm_def need timer_of_def armed_with_def)
  next
    case False
    then show ?thesis
      using a(1) ev iom_addTimer_outcome [OF ev(1), of to "OnTimer ti (CancelOnTimeout ti fd event)" s]
      by (simp add: arm_def need timer_of_def armed_with_def)
  qed
  have fsj: "fs ?j = fs (iom_of s)" using a(3) by simp
  have hold: "hold env ?s1 = Inr ?s2"
    using YieldToHold_outcome [OF io(2-4)] ev fsj by (simp add: hold_def)
  note eqs = addTimer_eqs [OF tm new, of "e_now env" to "Some (OnTimer ti (CancelOnTimeout ti fd event))" False]
  have ti: "timer_inv (timers ?i)" using tm eqs by (simp add: armed_with_def)
  have reg: "events_at ?j (nat fd) AND event \<noteq> 0"
    using a(8) [of "nat fd"] free e by (auto simp: bit.conj_disj_distrib2)
  have cb: "case timer_of env to of None \<Rightarrow> True | Some p \<Rightarrow>
      m_cb (timer_at (timers ?i) p) = Some (OnTimer ti (CancelOnTimeout ti fd event))"
    using eqs(3) by (simp add: timer_of_def armed_with_def Timer_def)
  have wt: "waiting me cur fd event ti (timer_of env to) ?s2"
    unfolding waiting_def using fd e t0 ti reg cb a(2,4,5,7,9)
    by (simp add: events_at_def cong: option.case_cong)
  have ar: "armed (timers (iom_of ?s2)) = (if to = -1 then armed (timers (iom_of s))
         else (armed (timers (iom_of s)))(e_timer env \<mapsto>
           Timer (e_now env) to (Some (OnTimer ti (CancelOnTimeout ti fd event))) False))"
    using a(4) refine_add [OF tm new] by (simp add: armed_with_def)
  have pv: "m_previouseTime (timers (iom_of ?s2)) = m_previouseTime (timers (iom_of s))"
    using a(4) by (simp add: armed_with_def addTimer_def addTimer_locked_def Let_def)
  have "events_at (iom_of ?s2) j = events_at ?j j" for j by (simp add: events_at_def)
  then show ?thesis
    using arm hold wt ar pv a(5,6,8) by (intro exI [of _ ?s1] exI [of _ ?s2]) simp
qed

section \<open>How a wait ends\<close>

lemma cancel_timer_outcome:
  assumes inv: "timer_inv (timers (iom_of s))"
  shows "\<exists>tm. cancel_timer timer s = Inr (s\<lparr>iom_of := (iom_of s)\<lparr>timers := tm\<rparr>\<rparr>) \<and> timer_inv tm
    \<and> (case timer of None \<Rightarrow> tm = timers (iom_of s) | Some p \<Rightarrow> m_cb (timer_at tm p) = None)"
proof (cases timer)
  case (Some p)
  show ?thesis
  proof (cases "m_cb (timer_at (timers (iom_of s)) p)")
    case None
    then show ?thesis
      using inv by (intro exI [of _ "timers (iom_of s)"]) (simp add: cancel_timer_def Some cancel_disarmed)
  next
    case (Some c)
    obtain tm where tm: "cancel p (timers (iom_of s)) = Inr (tm, True)" "m_cb (timer_at tm p) = None"
      using cancel_armed [OF inv Some] by simp
    then show ?thesis
      using cancel_inv [OF inv tm(1)] \<open>timer = Some p\<close>
      by (intro exI [of _ tm]) (simp add: cancel_timer_def)
  qed
qed (simp add: cancel_timer_def inv)

text \<open>The callback of a wait that is over does nothing, whoever still has it queued.\<close>

lemma late_callback:
  "tinfo_at s ti = None \<or> tinfo_at s ti = Some ETIMEDOUT
    \<Longrightarrow> run_timer_cb me wr rt (OnTimer ti (CancelOnTimeout ti fd event)) s = Inr s"
  by (auto simp: run_timer_cb_def OnTimer_call_def run_hook_cb_def)

lemma waiting_cancelled:
  assumes "waiting me cur fd event ti timer s"
  shows "cancelEvent me 1 0 fd event (iom_of s) = Inr (cancelled me (nat fd) event (iom_of s), True)"
    and "m_fibers (cancelled me (nat fd) event (iom_of s)) = m_fibers (iom_of s) @ [fiber_task (Some cur) (-1)]"
    and "events_at (cancelled me (nat fd) event (iom_of s)) j
      = (if j = nat fd then events_at (iom_of s) j AND NOT event else events_at (iom_of s) j)"
    and "timers (cancelled me (nat fd) event (iom_of s)) = timers (iom_of s)"
proof -
  let ?i = "iom_of s" and ?n = "nat fd"
  have f: "io_inv ?i" "?n < length (m_fdContexts ?i)" "event \<in> {READ, WRITE}"
    "int ?n \<noteq> fst (m_tickleFds ?i)" "events_at ?i ?n AND event \<noteq> 0" "int ?n = fd"
    using assms by (auto simp: waiting_def io_ok_def)
  show "cancelEvent me 1 0 fd event ?i = Inr (cancelled me ?n event ?i, True)"
    using cancelEvent_outcome(1) [OF f(1-5), of me] unfolding f(6) .
  show "m_fibers (cancelled me ?n event ?i) = m_fibers ?i @ [fiber_task (Some cur) (-1)]"
    using assms by (simp add: waiting_def cancelled_def after_trigger_def Let_def handed_def entry_task_def)
  show "events_at (cancelled me ?n event ?i) j
      = (if j = ?n then events_at ?i j AND NOT event else events_at ?i j)"
    using f(2) by (auto simp: cancelled_def events_at_def)
  show "timers (cancelled me ?n event ?i) = timers ?i"
    by (simp add: cancelled_def told_def epoll_ctl_def)
qed

lemma timeout_outcome:
  assumes w: "waiting me cur fd event ti timer s"
  defines "s1 \<equiv> s\<lparr>tinfo_at := (tinfo_at s)(ti := Some ETIMEDOUT), iom_of := cancelled me (nat fd) event (iom_of s)\<rparr>"
  shows "run_timer_cb me 1 0 (OnTimer ti (CancelOnTimeout ti fd event)) s = Inr s1"
  using waiting_cancelled(1) [OF w] w
  by (simp add: run_timer_cb_def OnTimer_call_def run_hook_cb_def waiting_def s1_def)

lemma events_at_queue [simp]: "events_at (i\<lparr>m_fibers := q, fs := f\<rparr>) j = events_at i j"
  by (simp add: events_at_def)

text \<open>The round of \<open>idle\<close> in which the timer of a wait is due, and the state it leaves to the callback.\<close>

lemma waiting_fired:
  assumes w: "waiting me cur fd event ti (Some p) s"
    and due: "m_next (timer_at (timers (iom_of s)) p) \<le> now2" and once: "\<not> m_recurring (timer_at (timers (iom_of s)) p)"
    and clock: "now1 \<noteq> 0" "nowp \<notin> set (m_timers (timers (iom_of s)))"
      "\<not> snd (detectClockRollover now2 (timers (iom_of s)))"
  shows "\<exists>i timeout xs ys.
    idle_round me 1 low32 EINTR now1 now2 nowp (replicate n (WErr EINTR) @ [WEvents []]) rts (iom_of s)
      = Inr (Some (i, timeout))
    \<and> m_fibers i = m_fibers (iom_of s) @ xs @ [cb_task (Some (OnTimer ti (CancelOnTimeout ti fd event))) (-1)] @ ys
    \<and> p \<notin> set (m_timers (timers i)) \<and> m_cb (timer_at (timers i) p) = None
    \<and> (\<forall>q f. waiting me cur fd event ti None (s\<lparr>iom_of := i\<lparr>m_fibers := q, fs := f\<rparr>\<rparr>))
    \<and> (\<forall>j. events_at i j = events_at (iom_of s) j)"
proof -
  let ?tm = "timers (iom_of s)" and ?cb = "OnTimer ti (CancelOnTimeout ti fd event)"
  let ?ds = "filter (\<lambda>p. m_next (timer_at ?tm p) \<le> now2) (m_timers ?tm)"
  let ?tm' = "?tm\<lparr>m_tickled := False\<rparr>"
  have inv: "timer_inv ?tm" and cb: "m_cb (timer_at ?tm p) = Some ?cb" using w by (simp_all add: waiting_def)
  have p: "p \<in> set (m_timers ?tm)" by (rule timer_inv_armed [OF inv cb])
  then have ns: "\<not> snd (snd (io_stopping now1 (iom_of s)))"
    using clock(1) io_stopping_exact [of now1 "iom_of s"] by auto
  obtain i timeout where i: "idle_round me 1 low32 EINTR now1 now2 nowp
        (replicate n (WErr EINTR) @ [WEvents []]) rts (iom_of s) = Inr (Some (i, timeout))"
      "m_fibers i = m_fibers (iom_of s) @ filter is_task (map (\<lambda>p. cb_task (m_cb (timer_at ?tm p)) (-1)) ?ds)"
      "timers i = fst (listExpiredCb now2 nowp ?tm')"
      "m_fdContexts i = m_fdContexts (iom_of s)" "m_pendingEventCount i = m_pendingEventCount (iom_of s)"
      "interest i = interest (iom_of s)" "m_tickleFds i = m_tickleFds (iom_of s)"
    using idle_round_fires [OF inv ns clock(2,3), of me low32 EINTR n rts] by auto
  have "p \<in> set ?ds" using p due by simp
  then have "cb_task (Some ?cb) (-1) \<in> set (filter is_task (map (\<lambda>p. cb_task (m_cb (timer_at ?tm p)) (-1)) ?ds))"
    using cb by (force simp: is_task_def cb_task_def)
  then obtain xs ys where q: "filter is_task (map (\<lambda>p. cb_task (m_cb (timer_at ?tm p)) (-1)) ?ds)
      = xs @ [cb_task (Some ?cb) (-1)] @ ys" by (auto dest: split_list)
  have "timer_inv ?tm'" "nowp \<notin> set (m_timers ?tm')" "\<not> snd (detectClockRollover now2 ?tm')"
    using inv clock(2,3) by (simp_all add: timer_inv_def detectClockRollover_def)
  from fired_timer [OF this, of p] have f: "p \<notin> set (m_timers (timers i))" "m_cb (timer_at (timers i) p) = None"
    "timer_inv (timers i)" using p due once i(3) by simp_all
  have ev: "events_at i j = events_at (iom_of s) j" for j using i(4) by (simp add: events_at_def)
  have ok: "io_ok (i\<lparr>m_fibers := q, fs := g\<rparr>) = io_ok (iom_of s)" for q g by (rule io_ok_frame) (use i in simp_all)
  have "waiting me cur fd event ti None (s\<lparr>iom_of := i\<lparr>m_fibers := q, fs := g\<rparr>\<rparr>)" for q g
    using w ok [of g q] f(3) i(4,7) ev by (simp add: waiting_def)
  then show ?thesis using i(1) i(2) [unfolded q] f(1,2) ev by blast
qed

text \<open>The resumed call of a wait that timed out, its timer fired: \<open>cancel\<close> finds no callback.\<close>

lemma timed_out_returns:
  assumes "tinfo_at s ti = Some ETIMEDOUT" and "m_cb (timer_at (timers (iom_of s)) p) = None"
  shows "let s1 = s\<lparr>iom_of := (iom_of s)\<lparr>m_fibers := q, fs := f\<rparr>\<rparr>; s2 = release ti (s1\<lparr>errno := ETIMEDOUT\<rparr>)
    in do_io_resume me env calls fd event to ti (Some p) s1 = Inr (s2, Ret (-1))
      \<and> connect_resume sockopt gerr ti (Some p) s1 = Inr (s2, Ret (-1))
      \<and> run_timer_cb me wr rt (OnTimer ti (CancelOnTimeout ti fd event)) s1 = Inr s1
      \<and> run_timer_cb me wr rt (OnTimer ti (CancelOnTimeout ti fd event)) s2 = Inr s2"
proof -
  let ?s1 = "s\<lparr>iom_of := (iom_of s)\<lparr>m_fibers := q, fs := f\<rparr>\<rparr>"
  have "cancel_timer (Some p) ?s1 = Inr ?s1" using assms(2) by (simp add: cancel_timer_def cancel_disarmed)
  then show ?thesis using assms(1)
    by (simp add: do_io_resume_def connect_resume_def late_callback release_def Let_def)
qed

text \<open>The report of exactly the awaited event.\<close>

lemma waiting_reported:
  assumes w: "waiting me cur fd event ti timer s" and re: "real_events evs = event"
    and low: "lowhalf (nat fd) \<noteq> fst (m_tickleFds (iom_of s))"
  shows "\<exists>i1. handle_event me 1 lowhalf 0 (evs, DataPtr (nat fd)) (iom_of s) = Inr i1
    \<and> m_fibers i1 = m_fibers (iom_of s) @ [fiber_task (Some cur) (-1)] \<and> timers i1 = timers (iom_of s)
    \<and> (\<forall>j. events_at i1 j = (if j = nat fd then events_at (iom_of s) j AND NOT event else events_at (iom_of s) j))"
proof -
  let ?i = "nat fd" and ?s = "iom_of s"
  have f: "io_inv ?s" "?i < length (m_fdContexts ?s)" "int ?i \<noteq> fst (m_tickleFds ?s)" "event \<in> {READ, WRITE}"
    "events_at ?s ?i AND event \<noteq> 0"
    using w by (auto simp: waiting_def io_ok_def)
  have "fdc_ok ?i (m_fdContexts ?s ! ?i)" using f by (simp add: io_inv_def table_ok_def)
  then have sub: "events_at ?s ?i AND event = event"
    using f(2,4,5) by (cases rule: event_cases) (auto simp: events_at_def)
  note h = handle_event_outcome [of ?s ?i lowhalf evs me, OF f(1-3) low, unfolded re, OF sub]
  let ?u = "told ?i (events_at ?s ?i AND NOT event) ?s"
  have t: "triggered_all me ?i event ?u = after_trigger me ?i event ?u"
    using f(4) by (auto simp: triggered_all_def)
  have "handle_event me 1 lowhalf 0 (evs, DataPtr ?i) ?s = Inr (after_trigger me ?i event ?u)"
    using h(1) f(4) unfolding t by fastforce
  moreover have "m_fibers (after_trigger me ?i event ?u) = m_fibers ?s @ [fiber_task (Some cur) (-1)]"
    using w by (simp add: waiting_def after_trigger_def Let_def handed_def entry_task_def)
  moreover have "events_at (after_trigger me ?i event ?u) j
      = (if j = ?i then events_at ?s j AND NOT event else events_at ?s j)" for j
    using f(2) by (simp add: events_at_def)
  ultimately show ?thesis by (simp add: told_def epoll_ctl_def)
qed

section \<open>The descriptors a program opens through the hooks\<close>

text \<open>The original \<open>socket\<close> or \<open>accept\<close> made the descriptor \<open>fd\<close>. An original \<open>fcntl\<close> or \<open>ioctl\<close> that
  fails leaves the kernel's flags as they were. (An original \<open>close\<close> that fails has released its
  descriptor all the same, or there was none.)\<close>

definition created :: "int \<Rightarrow> bool \<Rightarrow> u32 \<Rightarrow> hook_state \<Rightarrow> hook_state" where
  "created fd sock fl s = s\<lparr>fds_of := (fds_of s)\<lparr>k_stat := (k_stat (fds_of s))(fd := Some sock),
     k_flags := (k_flags (fds_of s))(fd := fl)\<rparr>\<rparr>"

inductive fd_step :: "hook_state \<Rightarrow> hook_state \<Rightarrow> bool" where
  fd_socket: "k_stat (fds_of s) fd = None \<Longrightarrow> hook_socket fd (created fd sock fl s) = Inr (s', r) \<Longrightarrow> fd \<noteq> -1
     \<Longrightarrow> fd_step s s'"
| fd_accept: "k_stat (fds_of s) fd = None \<Longrightarrow> accept_finish (created fd sock fl s, Ret fd) = Inr (s', r) \<Longrightarrow> 0 \<le> fd
     \<Longrightarrow> fd_step s s'"
| fd_close: "hook_close me wr rt fd s = Inr s' \<Longrightarrow> fd_step s s'"
| fd_fcntl: "hook_fcntl other fd cmd va (fds_of s) = Inr (d, r) \<Longrightarrow> fd_step s (s\<lparr>fds_of := d\<rparr>)"
| fd_fcntl_failed: "hook_fcntl other fd cmd va (fds_of s) = Inr (d, r)
     \<Longrightarrow> fd_step s (s\<lparr>fds_of := d\<lparr>k_flags := k_flags (fds_of s)\<rparr>\<rparr>)"
| fd_ioctl: "hook_ioctl other fd request va (fds_of s) = Inr (d, r) \<Longrightarrow> request \<noteq> FIONBIO \<or> va \<noteq> IntArg 0
     \<Longrightarrow> fd_step s (s\<lparr>fds_of := d\<rparr>)"
| fd_ioctl_failed: "hook_ioctl other fd request va (fds_of s) = Inr (d, r)
     \<Longrightarrow> fd_step s (s\<lparr>fds_of := d\<lparr>k_flags := k_flags (fds_of s)\<rparr>\<rparr>)"
| fd_setsockopt: "hook_setsockopt fd level opt tv s = Inr s' \<Longrightarrow> fd_step s s'"
| fd_other: "fds_of s' = fds_of s \<Longrightarrow> t_hook_enable s' = t_hook_enable s \<Longrightarrow> fd_step s s'"

inductive fd_reach :: "hook_state \<Rightarrow> bool" where
  fd_start: "t_hook_enable s \<Longrightarrow> fds_of s = FdManager (\<lambda>_. None) fl \<Longrightarrow> fd_reach s"
| fd_next: "fd_reach s \<Longrightarrow> fd_step s s' \<Longrightarrow> fd_reach s'"

definition ctx_inv :: "fd_state \<Rightarrow> int \<Rightarrow> fd_ctx \<Rightarrow> bool" where
  "ctx_inv d fd c \<longleftrightarrow> m_fd c = fd \<and> m_isInit c \<and> \<not> m_isClosed c \<and> m_sysNonblock c = m_isSocket c
     \<and> k_stat d fd = Some (m_isSocket c) \<and> (m_isSocket c \<longrightarrow> k_flags d fd AND O_NONBLOCK \<noteq> 0)"

definition fds_inv :: "hook_state \<Rightarrow> bool" where
  "fds_inv s \<longleftrightarrow> t_hook_enable s \<and> length (m_datas (fds_of s)) = 64
     \<and> (\<forall>fd c. fd_lookup fd (fds_of s) = Some c \<longrightarrow> ctx_inv (fds_of s) fd c)"

lemma lookup_put:
  "fd_lookup fd s \<noteq> None \<Longrightarrow> fd_lookup x (put_fd_ctx fd c s) = (if x = fd then Some c else fd_lookup x s)"
  by (auto simp: fd_lookup_def put_fd_ctx_def nth_list_update nat_eq_iff split: if_splits)

lemma lookup_new:
  "fd_room s fd \<Longrightarrow> fd_lookup x (put_fd_ctx fd c s) = (if x = fd then Some c else fd_lookup x s)"
  by (auto simp: fd_lookup_def fd_room_def put_fd_ctx_def nth_list_update nat_eq_iff split: if_splits)

lemma lookup_frame: "m_datas s' = m_datas s \<Longrightarrow> fd_lookup x s' = fd_lookup x s"
  by (simp add: fd_lookup_def)

lemma put_frame [simp]:
  "k_stat (put_fd_ctx fd c s) = k_stat s" "k_flags (put_fd_ctx fd c s) = k_flags s"
  "length (m_datas (put_fd_ctx fd c s)) = length (m_datas s)"
  by (simp_all add: put_fd_ctx_def)

lemma setfl_frame [simp]:
  "k_stat (setfl fd v s) = k_stat s" "m_datas (setfl fd v s) = m_datas s" "fd_lookup x (setfl fd v s) = fd_lookup x s"
  "k_flags (setfl fd v s) x = (if x = fd then (v AND SETFL_MASK) OR (k_flags s fd AND NOT SETFL_MASK) else k_flags s x)"
  by (simp_all add: setfl_def fd_lookup_def)

text \<open>The \<open>O_NONBLOCK\<close> bit of what \<open>F_SETFL\<close> stores is the one of its argument.\<close>

lemma nonblock_stored: "((v AND SETFL_MASK) OR (w AND NOT SETFL_MASK)) AND O_NONBLOCK = (v AND O_NONBLOCK :: u32)"
proof -
  have "SETFL_MASK AND O_NONBLOCK = (O_NONBLOCK :: u32)" "(NOT SETFL_MASK) AND O_NONBLOCK = (0 :: u32)" by simp_all
  then show ?thesis by (simp add: bit.conj_disj_distrib2 and.assoc)
qed

lemma nonblock_stored_simp [simp]: "((v AND 0x46C00) OR (w AND - 289793)) AND 0x800 = (v AND 0x800 :: u32)"
  using nonblock_stored [of v w] by simp


text \<open>The flags \<open>F_GETFL\<close> shows after \<open>F_SETFL\<close>, for a flag \<open>2 ^ n\<close> and a mask \<open>M\<close> of settable ones.\<close>

lemma flags_shown:
  fixes a :: u32
  defines "k \<equiv> \<lambda>a n M w. ((a OR 2 ^ n) AND M) OR (w AND NOT M)"
  shows "(if a AND 2 ^ n \<noteq> 0 then k a n M w OR 2 ^ n else k a n M w AND NOT (2 ^ n)) AND M = a AND M"
  unfolding k_def and_exp_eq_0_iff_not_bit by (rule bit_eqI) (auto simp: bit_simps)

lemma unsigned_of_unat: "ucast (x :: u32) = (of_nat (unat x) :: u64)"
  by (simp add: of_nat_unat)

lemma unat_numeral_u32: "unat (1000 :: u32) = 1000"
  by simp

lemma new_no_ctx: "fds_inv s \<Longrightarrow> k_stat (fds_of s) fd = None \<Longrightarrow> fd_lookup fd (fds_of s) = None"
  by (cases "fd_lookup fd (fds_of s)") (auto simp: fds_inv_def ctx_inv_def)

lemma uint_small: "0 \<le> n \<Longrightarrow> n < 2 ^ 64 \<Longrightarrow> uint (word_of_int n :: u64) = n"
  by (simp add: uint_word_of_int_eq take_bit_int_eq_self)

lemma nonblock_or [simp]: "(v OR O_NONBLOCK) AND O_NONBLOCK = (O_NONBLOCK :: u32)"
  by (simp add: bit.conj_disj_distrib2)

lemma nonblock_clear [simp]: "(v AND NOT O_NONBLOCK) AND O_NONBLOCK = (0 :: u32)"
  by (simp add: and.assoc)

lemma FdCtx_created:
  assumes "k_stat s fd = Some sock"
  shows "ctx_inv (snd (FdCtx fd s)) fd (fst (FdCtx fd s)) \<and> m_isSocket (fst (FdCtx fd s)) = sock
    \<and> \<not> m_userNonblock (fst (FdCtx fd s))"
  using assms
  by (auto simp: FdCtx_def init_def Let_def ctx_inv_def getfl_def nonblock_stored)

lemma ctx_inv_other:
  "ctx_inv s x c \<Longrightarrow> k_stat s' x = k_stat s x \<Longrightarrow> k_flags s' x = k_flags s x \<Longrightarrow> ctx_inv s' x c"
  by (simp add: ctx_inv_def)

text \<open>A new descriptor gets a fresh context; past the table there is no way to store one.\<close>

lemma created_get:
  assumes inv: "fds_inv s" and new: "k_stat (fds_of s) fd = None" and r: "0 \<le> fd" "fd < 64"
  shows "\<exists>d c. get fd True (fds_of (created fd sock fl s)) = Inr (d, Some c) \<and> fds_inv (s\<lparr>fds_of := d\<rparr>)
    \<and> fd_lookup fd d = Some c \<and> m_isSocket c = sock \<and> \<not> m_userNonblock c
    \<and> (\<forall>x. x \<noteq> fd \<longrightarrow> fd_lookup x d = fd_lookup x (fds_of s))"
proof -
  let ?d0 = "fds_of (created fd sock fl s)" and ?d1 = "snd (FdCtx fd (fds_of (created fd sock fl s)))"
  let ?c = "fst (FdCtx fd (fds_of (created fd sock fl s)))"
  have room: "fd_room ?d0 fd" "fd_room ?d1 fd" using inv r FdCtx_frame(1) [of fd ?d0]
    by (simp_all add: fd_room_def fds_inv_def created_def)
  have l0: "fd_lookup x ?d0 = fd_lookup x (fds_of s)" "fd_lookup x ?d1 = fd_lookup x (fds_of s)" for x
    using FdCtx_frame(1) [of fd ?d0] by (auto simp: created_def intro: lookup_frame)
  have none: "fd_lookup fd ?d0 = None" using new_no_ctx [OF inv new] l0(1) by simp
  have g: "get fd True ?d0 = Inr (put_fd_ctx fd ?c ?d1, Some ?c)" by (rule get_create [OF room(1) none])
  have c: "ctx_inv ?d1 fd ?c" "m_isSocket ?c = sock" "\<not> m_userNonblock ?c"
    using FdCtx_created [of ?d0 fd sock] by (simp_all add: created_def)
  have "ctx_inv (put_fd_ctx fd ?c ?d1) x y" if "fd_lookup x (put_fd_ctx fd ?c ?d1) = Some y" for x y
  proof (cases "x = fd")
    case True
    then show ?thesis using that c(1) lookup_new [OF room(2), of fd ?c] by (simp add: ctx_inv_def)
  next
    case False
    then have "ctx_inv (fds_of s) x y" using that inv lookup_new [OF room(2)] l0 by (simp add: fds_inv_def)
    then show ?thesis
      by (rule ctx_inv_other) (use False FdCtx_frame(1,2) [of fd ?d0] FdCtx_frame(3) [of x fd ?d0] in \<open>simp_all add: created_def\<close>)
  qed
  then have "fds_inv (s\<lparr>fds_of := put_fd_ctx fd ?c ?d1\<rparr>)"
    using inv FdCtx_frame(1) [of fd ?d0] by (simp add: fds_inv_def created_def)
  then show ?thesis using g c lookup_new [OF room(2), of _ ?c] l0 by (intro exI conjI) auto
qed

lemma get_outside: "64 \<le> fd \<or> fd < 0 \<Longrightarrow> length (m_datas s) = 64 \<Longrightarrow> \<exists>e. get fd True s = Inl (Undefined e)"
  using FdCtx_frame(1) [of fd s] by (auto simp: get_def vec_get_def vec_set_def Let_def split_beta)

lemma created_fds [simp]: "(created fd sock fl s)\<lparr>fds_of := d\<rparr> = s\<lparr>fds_of := d\<rparr>"
  "length (m_datas (fds_of (created fd sock fl s))) = length (m_datas (fds_of s))"
  "t_hook_enable (created fd sock fl s) = t_hook_enable s"
  by (simp_all add: created_def)

lemma opened_inv:
  assumes inv: "fds_inv s" and new: "k_stat (fds_of s) fd = None"
    and g: "get fd True (fds_of (created fd sock fl s)) = Inr (d, c)"
  shows "fds_inv (s\<lparr>fds_of := d\<rparr>)"
proof -
  have "0 \<le> fd \<and> fd < 64"
    using get_outside [of fd "fds_of (created fd sock fl s)"] inv g by (force simp: fds_inv_def)
  then show ?thesis using created_get [OF inv new, of sock fl] g by auto
qed

lemma get_False:
  assumes "get fd False s = Inr (d, c)"
  shows "d = s" and "fd_lookup fd s = c" and "c \<noteq> None \<Longrightarrow> 0 \<le> fd \<and> fd < int (length (m_datas s))"
  using assms by (auto simp: get_def Let_def rbind_Inr_iff vec_get_Inr_iff fd_lookup_def split: if_splits)

lemma fds_inv_closed:
  assumes inv: "fds_inv s" and d: "m_datas d = (m_datas (fds_of s))[nat fd := None]" "0 \<le> fd \<and> fd < 64"
    "k_stat d = (k_stat (fds_of s))(fd := None)" "k_flags d = k_flags (fds_of s)"
    and s': "fds_of s' = d" "t_hook_enable s'"
  shows "fds_inv s'"
proof -
  have "ctx_inv d x c" if "fd_lookup x d = Some c" for x c
  proof -
    have "x \<noteq> fd \<and> fd_lookup x (fds_of s) = Some c"
      using that d(1,2) inv by (auto simp: fd_lookup_def fds_inv_def nth_list_update nat_eq_iff split: if_splits)
    then show ?thesis using inv d by (auto simp: fds_inv_def ctx_inv_def)
  qed
  then show ?thesis using inv d s' by (simp add: fds_inv_def)
qed

text \<open>Writing a context back, with the kernel's \<open>O_NONBLOCK\<close> kept for sockets.\<close>

lemma fds_inv_put:
  assumes inv: "fds_inv s" and l: "fd_lookup fd (fds_of s) = Some c0" and c: "ctx_inv d fd c"
    and d: "m_datas d = m_datas (put_fd_ctx fd c (fds_of s))" "k_stat d = k_stat (fds_of s)"
      "\<forall>x. x \<noteq> fd \<longrightarrow> k_flags d x = k_flags (fds_of s) x"
  shows "fds_inv (s\<lparr>fds_of := d\<rparr>)"
proof -
  have "fd_lookup x d = (if x = fd then Some c else fd_lookup x (fds_of s))" for x
    using lookup_put [of fd "fds_of s" x c] l lookup_frame [OF d(1)] by simp
  then show ?thesis
    using inv c d put_frame(3) [of fd c "fds_of s"] by (auto simp: fds_inv_def ctx_inv_def)
qed

lemma fds_inv_same: "fds_inv s \<Longrightarrow> fds_of s' = fds_of s \<Longrightarrow> t_hook_enable s' = t_hook_enable s \<Longrightarrow> fds_inv s'"
  by (simp add: fds_inv_def)

text \<open>\<open>F_SETFL\<close> on a socket: the user's wish is recorded, the kernel's flag stays set.\<close>

lemma setfl_socket:
  assumes inv: "fds_inv s" and l: "fd_lookup fd (fds_of s) = Some c" and sock: "m_isSocket c"
  shows "hook_fcntl other fd F_SETFL (IntArg a) (fds_of s) = Inr (setfl fd (a OR O_NONBLOCK)
      (put_fd_ctx fd (setUserNonblock (a AND O_NONBLOCK \<noteq> 0) c) (fds_of s)), 0)"
    and "fds_inv (s\<lparr>fds_of := setfl fd (a OR O_NONBLOCK)
      (put_fd_ctx fd (setUserNonblock (a AND O_NONBLOCK \<noteq> 0) c) (fds_of s))\<rparr>)"
proof -
  have fd: "0 \<le> fd" using l by (simp add: fd_lookup_def split: if_splits)
  have ci: "ctx_inv (fds_of s) fd c" using inv l by (simp add: fds_inv_def)
  show "hook_fcntl other fd F_SETFL (IntArg a) (fds_of s) = Inr (setfl fd (a OR O_NONBLOCK)
      (put_fd_ctx fd (setUserNonblock (a AND O_NONBLOCK \<noteq> 0) c) (fds_of s)), 0)"
    using ci sock l get_lookup [OF fd, of "fds_of s"]
    by (simp add: hook_fcntl_def va_int_def unhooked_def fcntl_f_def setUserNonblock_def ctx_inv_def)
  show "fds_inv (s\<lparr>fds_of := setfl fd (a OR O_NONBLOCK)
      (put_fd_ctx fd (setUserNonblock (a AND O_NONBLOCK \<noteq> 0) c) (fds_of s))\<rparr>)"
    by (rule fds_inv_put [OF inv l, of _ "setUserNonblock (a AND O_NONBLOCK \<noteq> 0) c"])
      (use ci in \<open>simp_all add: ctx_inv_def setUserNonblock_def\<close>)
qed

lemma fcntl_inv:
  assumes inv: "fds_inv s" and f: "hook_fcntl other fd cmd va (fds_of s) = Inr (d, r)"
  shows "fds_inv (s\<lparr>fds_of := d\<rparr>)"
proof (cases "cmd = F_SETFL")
  case True
  then obtain a where va: "va = IntArg a" using f by (auto simp: hook_fcntl_def va_int_def split: va_arg.splits)
  obtain c where g: "get fd False (fds_of s) = Inr (fds_of s, c)"
    using f va True get_False(1) by (auto simp: hook_fcntl_def va_int_def rbind_Inr_iff)
  note fd = get_False(2) [OF g]
  show ?thesis
  proof (cases "unhooked c")
    case True
    then have d: "d = setfl fd a (fds_of s)" using f g va \<open>cmd = F_SETFL\<close>
      by (simp add: hook_fcntl_def va_int_def fcntl_f_def)
    have "ctx_inv d x y" if "fd_lookup x d = Some y" for x y
    proof -
      have l: "fd_lookup x (fds_of s) = Some y" using that d by simp
      then have ci: "ctx_inv (fds_of s) x y" using inv by (simp add: fds_inv_def)
      show ?thesis
      proof (cases "x = fd")
        case True
        then have "c = Some y" using l fd by simp
        then have "\<not> m_isSocket y" using \<open>unhooked c\<close> ci by (simp add: unhooked_def ctx_inv_def)
        then show ?thesis using ci d by (simp add: ctx_inv_def)
      qed (use ci d in \<open>simp add: ctx_inv_def\<close>)
    qed
    then show ?thesis using inv d by (simp add: fds_inv_def)
  next
    case False
    then obtain ctx where c: "c = Some ctx" "m_isSocket ctx" by (auto simp: unhooked_def split: option.splits)
    then show ?thesis using setfl_socket(1) [OF inv, of fd ctx other a] setfl_socket(2) [OF inv, of fd ctx a] fd f va True by simp
  qed
next
  case False
  then have "d = fds_of s"
    using f by (auto simp: hook_fcntl_def fcntl_f_def rbind_Inr_iff Let_def split: if_splits va_arg.splits)
  then show ?thesis using inv by (simp add: fds_inv_same)
qed

text \<open>What the hooked \<open>fcntl\<close> and \<open>ioctl\<close> do to the contexts: at most the program's own choice changes.\<close>

definition same_but_user :: "fd_state \<Rightarrow> fd_state \<Rightarrow> bool" where
  "same_but_user d d' \<longleftrightarrow> k_stat d' = k_stat d \<and> length (m_datas d') = length (m_datas d)
     \<and> (\<forall>x y'. fd_lookup x d' = Some y' \<longrightarrow> (\<exists>y b. fd_lookup x d = Some y \<and> y' = setUserNonblock b y))"

lemma same_refl: "same_but_user d d"
  by (auto simp: same_but_user_def setUserNonblock_def) (metis fd_ctx.surjective fd_ctx.update_convs(4))

lemma same_put: "fd_lookup fd d = Some c \<Longrightarrow> same_but_user d (put_fd_ctx fd (setUserNonblock b c) d)"
  using same_refl [of d] by (auto simp: same_but_user_def lookup_put)

lemma same_flags:
  assumes "same_but_user d d'" and "k_stat e = k_stat d'" and "m_datas e = m_datas d'"
  shows "same_but_user d e"
  using assms lookup_frame [of e d'] by (simp add: same_but_user_def)

lemma fcntl_same:
  assumes f: "hook_fcntl other fd cmd va (fds_of s) = Inr (d, r)"
  shows "same_but_user (fds_of s) d"
proof (cases "cmd = F_SETFL")
  case True
  then obtain a where va: "va = IntArg a" using f by (auto simp: hook_fcntl_def va_int_def split: va_arg.splits)
  obtain c where g: "get fd False (fds_of s) = Inr (fds_of s, c)"
    using f va True get_False(1) by (auto simp: hook_fcntl_def va_int_def rbind_Inr_iff)
  show ?thesis
  proof (cases "unhooked c")
    case True
    then have "d = setfl fd a (fds_of s)" using f g va \<open>cmd = F_SETFL\<close>
      by (simp add: hook_fcntl_def va_int_def fcntl_f_def)
    then show ?thesis by (intro same_flags [OF same_refl]) simp_all
  next
    case False
    then obtain ctx where c: "fd_lookup fd (fds_of s) = Some ctx" "c = Some ctx"
      using get_False(2) [OF g] by (auto simp: unhooked_def split: option.splits)
    then obtain v b where "d = setfl fd v (put_fd_ctx fd (setUserNonblock b ctx) (fds_of s))"
      using f g va False \<open>cmd = F_SETFL\<close> by (auto simp: hook_fcntl_def va_int_def fcntl_f_def Let_def)
    then show ?thesis by (intro same_flags [OF same_put [OF c(1)]]) simp_all
  qed
next
  case False
  then have "d = fds_of s"
    using f by (auto simp: hook_fcntl_def fcntl_f_def rbind_Inr_iff Let_def split: if_splits va_arg.splits)
  then show ?thesis by (simp add: same_refl)
qed

lemma ioctl_same:
  assumes f: "hook_ioctl other fd request va (fds_of s) = Inr (d, r)"
  shows "same_but_user (fds_of s) d"
    and "request \<noteq> FIONBIO \<or> va \<noteq> IntArg 0
      \<Longrightarrow> k_flags (fds_of s) x AND O_NONBLOCK \<noteq> 0 \<Longrightarrow> k_flags d x AND O_NONBLOCK \<noteq> 0"
proof -
  have *: "same_but_user (fds_of s) d \<and> (d = fds_of s \<or> request = FIONBIO \<and> (\<exists>v. va = IntArg v
      \<and> k_flags d = (k_flags (fds_of s))(fd := (if v \<noteq> 0 then k_flags (fds_of s) fd OR O_NONBLOCK
          else k_flags (fds_of s) fd AND NOT O_NONBLOCK))))"
  proof (cases "request = FIONBIO")
    case True
    then obtain v where va: "va = IntArg v" using f by (auto simp: hook_ioctl_def va_int_def split: va_arg.splits)
    obtain c where g: "get fd False (fds_of s) = Inr (fds_of s, c)"
      using f va True get_False(1) by (auto simp: hook_ioctl_def va_int_def rbind_Inr_iff)
    show ?thesis
    proof (cases "unhooked c")
      case unh: True
      then show ?thesis using f g va True same_flags [OF same_refl, of _ "fds_of s"]
        by (auto simp: hook_ioctl_def va_int_def ioctl_f_def)
    next
      case False
      then obtain ctx where c: "fd_lookup fd (fds_of s) = Some ctx" "c = Some ctx"
        using get_False(2) [OF g] by (auto simp: unhooked_def split: option.splits)
      then show ?thesis
        using f g va True False same_flags [OF same_put [OF c(1)], of _ "v \<noteq> 0"]
        by (auto simp: hook_ioctl_def va_int_def ioctl_f_def)
    qed
  qed (use f same_refl in \<open>auto simp: hook_ioctl_def ioctl_f_def\<close>)
  then show "same_but_user (fds_of s) d" by simp
  show "k_flags d x AND O_NONBLOCK \<noteq> 0"
    if "request \<noteq> FIONBIO \<or> va \<noteq> IntArg 0" "k_flags (fds_of s) x AND O_NONBLOCK \<noteq> 0"
    using * that by (auto split: if_splits)
qed

lemma fds_inv_same_but_user:
  assumes inv: "fds_inv s" and same: "same_but_user (fds_of s) d"
    and flags: "\<And>x. k_flags (fds_of s) x AND O_NONBLOCK \<noteq> 0 \<Longrightarrow> k_flags d x AND O_NONBLOCK \<noteq> 0"
  shows "fds_inv (s\<lparr>fds_of := d\<rparr>)"
proof -
  have "ctx_inv d x y'" if l: "fd_lookup x d = Some y'" for x y'
  proof -
    obtain y b where y: "fd_lookup x (fds_of s) = Some y" "y' = setUserNonblock b y"
      using same l unfolding same_but_user_def by blast
    then have "ctx_inv (fds_of s) x y" using inv by (simp add: fds_inv_def)
    then show ?thesis using same flags y(2) by (auto simp: ctx_inv_def setUserNonblock_def same_but_user_def)
  qed
  then show ?thesis using inv same by (simp add: fds_inv_def same_but_user_def)
qed

lemma fds_inv_step: "fd_step s s' \<Longrightarrow> fds_inv s \<Longrightarrow> fds_inv s'"
proof (induction rule: fd_step.induct)
  case (fd_socket s fd sock fl s' r)
  then show ?case using opened_inv [of s fd sock fl] by (auto simp: hook_socket_def rbind_Inr_iff fds_inv_def)
next
  case (fd_accept s fd sock fl s' r)
  then show ?case using opened_inv [of s fd sock fl] by (auto simp: accept_finish_def rbind_Inr_iff)
next
  case (fd_close me wr rt fd s s')
  then have hook: "t_hook_enable s" "length (m_datas (fds_of s)) = 64" by (simp_all add: fds_inv_def)
  obtain c where g: "get fd False (fds_of s) = Inr (fds_of s, c)"
    using fd_close(1) hook get_False(1) by (auto simp: hook_close_def rbind_Inr_iff)
  show ?case
  proof (cases c)
    case None
    then have s': "s' = close_f fd s" using fd_close(1) hook g by (simp add: hook_close_def)
    have "fd_lookup fd (fds_of s) = None" using get_False(2) [OF g] None by simp
    then have "ctx_inv (fds_of s') x y" if "fd_lookup x (fds_of s') = Some y" for x y
      using that fd_close(2) s' by (auto simp: fds_inv_def close_f_def ctx_inv_def fd_lookup_def split: if_splits)
    then show ?thesis using fd_close(2) s' by (simp add: fds_inv_def close_f_def)
  next
    case (Some ctx)
    have r: "0 \<le> fd \<and> fd < 64"
      using get_False(3) [OF g] Some hook by simp
    then have "del fd d = Inr (d\<lparr>m_datas := (m_datas d)[nat fd := None]\<rparr>)" if "length (m_datas d) = 64" for d
      using that by (simp add: del_def vec_set_def)
    then have "fds_of s' = (fds_of s)\<lparr>m_datas := (m_datas (fds_of s))[nat fd := None],
        k_stat := (k_stat (fds_of s))(fd := None)\<rparr>" "t_hook_enable s'"
      using fd_close(1) hook g Some by (auto simp: hook_close_def rbind_Inr_iff close_f_def split: if_splits)
    then show ?thesis by (intro fds_inv_closed [OF fd_close(2) _ r]) simp_all
  qed
next
  case (fd_fcntl other fd cmd va s d r)
  then show ?case by (rule fcntl_inv [rotated])
next
  case (fd_fcntl_failed other fd cmd va s d r)
  show ?case
    by (rule fds_inv_same_but_user [OF fd_fcntl_failed(2) same_flags [OF fcntl_same [OF fd_fcntl_failed(1)]]]) simp_all
next
  case (fd_ioctl other fd request va s d r)
  show ?case
    by (rule fds_inv_same_but_user [OF fd_ioctl(3) ioctl_same(1) [OF fd_ioctl(1)]
          ioctl_same(2) [OF fd_ioctl(1,2)]])
next
  case (fd_ioctl_failed other fd request va s d r)
  show ?case
    by (rule fds_inv_same_but_user [OF fd_ioctl_failed(2) same_flags [OF ioctl_same(1) [OF fd_ioctl_failed(1)]]])
      simp_all
next
  case (fd_setsockopt fd level opt tv s s')
  have "fds_of s' = fds_of s \<and> t_hook_enable s' = t_hook_enable s \<or> (\<exists>c v. fd_lookup fd (fds_of s) = Some c
      \<and> s' = s\<lparr>fds_of := put_fd_ctx fd (setTimeout opt v c) (fds_of s)\<rparr>)"
    using fd_setsockopt(1)
    by (auto simp: hook_setsockopt_def rbind_Inr_iff dest: get_False(2) split: if_splits option.splits)
  then show ?case
  proof
    assume "\<exists>c v. fd_lookup fd (fds_of s) = Some c \<and> s' = s\<lparr>fds_of := put_fd_ctx fd (setTimeout opt v c) (fds_of s)\<rparr>"
    then obtain c v where l: "fd_lookup fd (fds_of s) = Some c"
      and s': "s' = s\<lparr>fds_of := put_fd_ctx fd (setTimeout opt v c) (fds_of s)\<rparr>" by blast
    have "ctx_inv (fds_of s) fd c" using fd_setsockopt(2) l by (simp add: fds_inv_def)
    then show ?thesis unfolding s'
      by (intro fds_inv_put [OF fd_setsockopt(2) l]) (simp_all add: ctx_inv_def setTimeout_def)
  qed (use fd_setsockopt(2) in \<open>simp add: fds_inv_same\<close>)
next
  case (fd_other s' s)
  then show ?case using fds_inv_same by blast
qed

lemma fd_reach_inv: "fd_reach s \<Longrightarrow> fds_inv s"
proof (induction rule: fd_reach.induct)
  case (fd_start s fl)
  then show ?case by (auto simp: fds_inv_def FdManager_def fd_lookup_def vec_resize_def split: if_splits)
next
  case (fd_next s s')
  then show ?case using fds_inv_step by blast
qed

section \<open>A worker at work\<close>

text \<open>The state of the witnesses: fiber 11 of a thread with main fiber 10 runs on the manager 1,
  descriptor 9 is a socket the program knows, with a receive timeout of 250 ms.\<close>

definition hdemo_fs :: "(nat, hook_cb) tcb fstate" where
  "hdemo_fs = \<lparr>fiber_at = (\<lambda>_. no_fiber)(10 := no_fiber\<lparr>m_state := EXEC, m_ctx := AtSwap ThreadFlow\<rparr>,
     11 := no_fiber\<lparr>m_id := 1, m_state := EXEC, m_ctx := AtMainFunc, m_stack := 5000\<rparr>),
     s_fiber_id = 1, s_fiber_count = 2, t_fiber = Some 11, t_thread_fiber = Some 10, t_scheduler_fiber = None,
     running = FiberFlow 11\<rparr>"

definition hdemo_iom :: "(nat, hook_cb) iom" where
  "hdemo_iom = projr (IOManager_new 6 0 (7, 8) 0 0 1000 (\<lambda>i. int i + 20)
     \<lparr>m_threads = [], m_fibers = [], m_name = ''io'', m_rootFiber = None, m_threadIds = [],
     m_threadCount = 1, m_activeThreadCount = 0, m_idleThreadCount = 0, m_stopping = True,
     m_autostop = False, m_rootThread = -1, t_scheduler = Some 1, fs = hdemo_fs, t_hook_on = False, t_named = None\<rparr>)"

definition hdemo_ctx :: fd_ctx where
  "hdemo_ctx = \<lparr>m_isInit = True, m_isSocket = True, m_sysNonblock = True, m_userNonblock = False,
     m_isClosed = False, m_fd = 9, m_recvTimeout = 250, m_sendTimeout = -1\<rparr>"

definition hdemo :: hook_state where
  "hdemo = \<lparr>iom_of = hdemo_iom,
     fds_of = \<lparr>k_stat = (\<lambda>_. None)(9 := Some True), k_flags = (\<lambda>_. 0)(9 := 0x802),
       m_datas = (replicate 64 None)[9 := Some hdemo_ctx]\<rparr>,
     tinfo_at = (\<lambda>_. None), errno = 0, t_hook_enable = True, s_connect_timeout = 5000, name_f = (\<lambda>_. None)\<rparr>"

definition hdemo_env :: hook_env where
  "hdemo_env = \<lparr>e_timer = 70, e_tinfo = 80, e_main = 90, e_now = 2000, e_write = 1, e_ctl = 0,
     e_ctl_errno = 0, e_getctx = 0, e_swap = 0\<rparr>"

lemma hdemo_iom: "io_ok hdemo_iom" "m_tickleFds hdemo_iom = (7, 8)" "fs hdemo_iom = hdemo_fs"
  "t_scheduler hdemo_iom = Some 1" "timers hdemo_iom = TimeManager 1000" "m_fibers hdemo_iom = []"
  "events_at hdemo_iom 9 = 0"
proof -
  have "\<exists>s. IOManager_new 6 0 (7, 8) 0 0 1000 (\<lambda>i. int i + 20)
     \<lparr>m_threads = [], m_fibers = [], m_name = ''io'', m_rootFiber = None, m_threadIds = [],
     m_threadCount = 1, m_activeThreadCount = 0, m_idleThreadCount = 0, m_stopping = True,
     m_autostop = False, m_rootThread = -1, t_scheduler = Some 1, fs = hdemo_fs, t_hook_on = False, t_named = None\<rparr> = Inr s"
    by (simp add: IOManager_new_def start_def contextResize_def epoll_ctl_def sched.defs Let_def)
  then have "io_reach 1 hdemo_iom" unfolding hdemo_iom_def by (auto intro: io_start)
  then show "io_ok hdemo_iom" by (rule io_reach_ok)
qed (simp_all add: hdemo_iom_def IOManager_new_def start_def contextResize_def epoll_ctl_def sched.defs Let_def
    events_at_def FdContext_def)

lemma hdemo_fiber: "fiber_inv 10 hdemo_fs"
  by (auto simp: hdemo_fs_def fiber_inv_def fibers_ok_def main_ok_def chain_ok_def no_fiber_def resumer_def)

lemma hdemo_ok: "worker_ok 1 10 11 hdemo" "env_ok hdemo_env hdemo" "t_hook_enable hdemo"
  "fd_lookup 9 (fds_of hdemo) = Some hdemo_ctx"
  using hdemo_fiber hdemo_iom
  by (simp_all add: worker_ok_def env_ok_def hdemo_def hdemo_env_def TimeManager_def timer_inv_def
      fd_lookup_def) (simp_all add: hdemo_fs_def Timer_at_def)

text \<open>The fiber of the witnesses after it began to wait on descriptor 9.\<close>

lemma hook_wait_exact_helper:
  "\<exists>s. waiting 1 11 9 READ 80 (Some 70) s \<and> fst (m_tickleFds (iom_of s)) = 7
    \<and> m_next (timer_at (timers (iom_of s)) 70) = 2250 \<and> \<not> m_recurring (timer_at (timers (iom_of s)) 70)
    \<and> m_timers (timers (iom_of s)) = [70] \<and> m_previouseTime (timers (iom_of s)) = 1000"
proof -
  let ?s = "new_tinfo 80 hdemo"
  have pre: "worker_ok 1 10 11 ?s" "env_ok hdemo_env ?s" "(0 :: int) \<le> 9" "(9 :: int) \<noteq> fst (m_tickleFds (iom_of ?s))"
    "READ \<in> {READ, WRITE}" "events_at (iom_of ?s) (nat 9) AND READ = 0" "tinfo_at ?s 80 = Some 0"
    using hdemo_ok hdemo_iom by (simp_all add: worker_ok_def env_ok_def new_tinfo_def hdemo_def)
  have t: "timer_of hdemo_env 250 = Some 70" by (simp add: timer_of_def hdemo_env_def)
  from arm_hold_outcome [OF pre, of 250] obtain s2 where
    w: "waiting 1 11 9 READ 80 (Some 70) s2" "m_tickleFds (iom_of s2) = m_tickleFds (iom_of ?s)"
      "m_previouseTime (timers (iom_of s2)) = m_previouseTime (timers (iom_of ?s))"
    and a: "armed (timers (iom_of s2)) = (armed (timers (iom_of ?s)))(e_timer hdemo_env \<mapsto>
       Timer (e_now hdemo_env) 250 (Some (OnTimer 80 (CancelOnTimeout 80 9 READ))) False)"
    unfolding t by auto
  have d: "armed (timers (iom_of s2)) = [70 \<mapsto> Timer 2000 250 (Some (OnTimer 80 (CancelOnTimeout 80 9 READ))) False]"
    using a hdemo_iom by (simp add: new_tinfo_def hdemo_def hdemo_env_def TimeManager_def armed_def fun_eq_iff)
  from fun_cong [OF d, of 70] have x: "70 \<in> set (m_timers (timers (iom_of s2)))"
    "timer_at (timers (iom_of s2)) 70 = Timer 2000 250 (Some (OnTimer 80 (CancelOnTimeout 80 9 READ))) False"
    by (simp_all add: armed_def split: if_splits)
  have "y \<in> set (m_timers (timers (iom_of s2))) \<longleftrightarrow> y = 70" for y
    using fun_cong [OF d, of y] by (simp add: armed_def split: if_splits)
  then have "set (m_timers (timers (iom_of s2))) = {70}" by auto
  moreover have "distinct (m_timers (timers (iom_of s2)))"
    using w(1) by (intro timer_inv_distinct) (simp add: waiting_def)
  ultimately have "m_timers (timers (iom_of s2)) = [70]"
    by (metis distinct_card length_Suc_conv card.empty card.insert empty_iff finite.emptyI length_0_conv
        list.set_intros(1) list.size(3) singletonD empty_set One_nat_def)
  then show ?thesis using w x(2) hdemo_iom by (auto simp: new_tinfo_def hdemo_def TimeManager_def Timer_def)
qed

text \<open>A reachable descriptor table: socket 9 was opened with flags \<open>O_RDWR\<close>.\<close>

definition fdemo0 :: hook_state where
  "fdemo0 = hdemo\<lparr>fds_of := FdManager (\<lambda>_. None) (\<lambda>_. 0)\<rparr>"

definition fdemo :: hook_state where
  "fdemo = fst (projr (hook_socket 9 (created 9 True 2 fdemo0)))"

lemma fdemo0_reach: "fd_reach fdemo0"
  by (rule fd_start) (simp_all add: fdemo0_def hdemo_def)

lemma fdemo: "fd_reach fdemo" "fd_lookup 9 (fds_of fdemo) = Some (hdemo_ctx\<lparr>m_recvTimeout := -1\<rparr>)"
  "t_hook_enable fdemo"
proof -
  have k: "k_stat (fds_of fdemo0) 9 = None" "t_hook_enable fdemo0" by (simp_all add: fdemo0_def FdManager_def hdemo_def)
  obtain d c where "get 9 True (fds_of (created 9 True 2 fdemo0)) = Inr (d, Some c)"
    using created_get [OF fd_reach_inv [OF fdemo0_reach] k(1), of True 2] by auto
  then have "hook_socket 9 (created 9 True 2 fdemo0) = Inr (fdemo, 9)"
    using k(2) by (simp add: fdemo_def hook_socket_def)
  then show "fd_reach fdemo" by (intro fd_next [OF fdemo0_reach fd_socket [where fd = 9]]) (use k in simp_all)
  then show "t_hook_enable fdemo" using fd_reach_inv by (simp add: fds_inv_def)
  show "fd_lookup 9 (fds_of fdemo) = Some (hdemo_ctx\<lparr>m_recvTimeout := -1\<rparr>)"
    by (simp add: fdemo_def hook_socket_def created_def fdemo0_def hdemo_def get_def FdManager_def vec_get_def
        vec_set_def nth_vec_resize FdCtx_def init_def setfl_def getfl_def Let_def fd_lookup_def hdemo_ctx_def)
qed

text \<open>What a sleep arms.\<close>

lemma sleep_for_eq:
  assumes w: "worker_ok me m cur s" and env: "env_ok env s"
  shows "sleep_for me env ms s = Inr (s\<lparr>iom_of := (with_timer env ms (Direct (ScheduleFiber cur (-1))) (iom_of s))
      \<lparr>fs := left (AtSwap (FiberFlow cur)) m cur (fs (iom_of s))\<rparr>\<rparr>, Slept)"
proof -
  have f: "fiber_inv m (fs (iom_of s))" "running (fs (iom_of s)) = FiberFlow cur"
    "t_scheduler_fiber (fs (iom_of s)) \<noteq> Some cur" and sch: "t_scheduler (iom_of s) = Some me"
    using w by (simp_all add: worker_ok_def)
  have g: "Fibers.GetThis d 0 (fs (iom_of s)) = Inr (fs (iom_of s), cur)" for d
    using running_resumer_ctx(6) [OF f] by (simp add: GetThis_def)
  show ?thesis
    using g env sch YieldToHold_outcome [OF f]
    by (simp add: env_ok_def sleep_for_def need_iom_def IOManager_GetThis_def iom_addTimer_outcome hold_def)
qed

lemma sleep_for_outcome:
  assumes w: "worker_ok me m cur s" and env: "env_ok env s"
  shows "\<exists>s'. sleep_for me env ms s = Inr (s', Slept)
    \<and> armed (timers (iom_of s')) = (armed (timers (iom_of s)))(e_timer env \<mapsto>
         Timer (e_now env) ms (Some (Direct (ScheduleFiber cur (-1)))) False)
    \<and> running (fs (iom_of s')) = flow_of m (resumer m (fs (iom_of s)) cur)
    \<and> m_fibers (iom_of s') = m_fibers (iom_of s)"
  using sleep_for_eq [OF w env] refine_add [of "timers (iom_of s)" "e_timer env"] w env
  by (simp add: left_def worker_ok_def env_ok_def)

lemma woken: "run_timer_cb me 1 rt (Direct (ScheduleFiber f thr)) s
    = Inr (s\<lparr>iom_of := handed me me (fiber_task (Some f) thr) (iom_of s)\<rparr>)"
  by (simp add: run_timer_cb_def OnTimer_call_def run_hook_cb_def post_outcome is_task_def fiber_task_def)

section \<open>Properties\<close>

text \<open>C3: a hooked call on a socket that would block becomes a wait of its fiber alone: after the
  interrupted calls, on \<open>EAGAIN\<close>, the fiber is registered for exactly this event, the timeout of
  the socket is armed exactly when it is finite, the thread goes on in the code that entered the
  fiber, and nothing is scheduled.\<close>

theorem hook_wait_exact:
  assumes w: "worker_ok me m cur s" and env: "env_ok env s" and hook: "t_hook_enable s"
    and c: "fd_lookup fd (fds_of s) = Some ctx" "m_isSocket ctx" "\<not> m_isClosed ctx" "\<not> m_userNonblock ctx"
    and fd: "fd \<noteq> fst (m_tickleFds (iom_of s))" and e: "event \<in> {READ, WRITE}"
    and free: "events_at (iom_of s) (nat fd) AND event = 0"
    and call: "call_loop (errno s) calls = Some (-1, EAGAIN)"
  shows "\<exists>s'. do_io me env calls fd event so s
      = Inr (s', Held (e_tinfo env) (timer_of env (getTimeout so ctx)))
    \<and> waiting me cur fd event (e_tinfo env) (timer_of env (getTimeout so ctx)) s'
    \<and> armed (timers (iom_of s')) = (if getTimeout so ctx = -1 then armed (timers (iom_of s))
         else (armed (timers (iom_of s)))(e_timer env \<mapsto> Timer (e_now env) (getTimeout so ctx)
           (Some (OnTimer (e_tinfo env) (CancelOnTimeout (e_tinfo env) fd event))) False))
    \<and> (\<forall>j. events_at (iom_of s') j = (if j = nat fd then events_at (iom_of s) j OR event
           else events_at (iom_of s) j))
    \<and> running (fs (iom_of s')) = flow_of m (resumer m (fs (iom_of s)) cur)
    \<and> m_fibers (iom_of s') = m_fibers (iom_of s) \<and> fds_of s' = fds_of s"
proof -
  have fd0: "0 \<le> fd" using c(1) by (simp add: fd_lookup_def split: if_splits)
  let ?to = "getTimeout so ctx" and ?ti = "e_tinfo env"
  let ?s = "(new_tinfo ?ti s)\<lparr>errno := EAGAIN\<rparr>"
  have pre: "worker_ok me m cur ?s" "env_ok env ?s" "fd \<noteq> fst (m_tickleFds (iom_of ?s))"
    "events_at (iom_of ?s) (nat fd) AND event = 0" "tinfo_at ?s ?ti = Some 0"
    "iom_of ?s = iom_of s" "fds_of ?s = fds_of s"
    using w env fd free by (simp_all add: worker_ok_def env_ok_def new_tinfo_def)
  obtain s1 s2 where a: "arm me env fd event ?to ?ti ?s = Inr (s1, timer_of env ?to, 0)" "hold env s1 = Inr s2"
    and b: "waiting me cur fd event ?ti (timer_of env ?to) s2"
      "armed (timers (iom_of s2)) = (if ?to = -1 then armed (timers (iom_of ?s))
         else (armed (timers (iom_of ?s)))(e_timer env \<mapsto>
           Timer (e_now env) ?to (Some (OnTimer ?ti (CancelOnTimeout ?ti fd event))) False))"
      "\<forall>j. events_at (iom_of s2) j = (if j = nat fd then events_at (iom_of ?s) j OR event
           else events_at (iom_of ?s) j)"
      "fs (iom_of s2) = left (AtSwap (FiberFlow cur)) m cur (fs (iom_of ?s))"
      "m_fibers (iom_of s2) = m_fibers (iom_of ?s)" "fds_of s2 = fds_of ?s"
    using arm_hold_outcome [OF pre(1,2) fd0 pre(3) e pre(4,5)] by blast
  have "do_io me env calls fd event so s = Inr (s2, Held ?ti (timer_of env ?to))"
    using hook c call a get_lookup [OF fd0, of "fds_of s"]
    by (simp add: do_io_def do_io_retry_def new_tinfo_def)
  moreover have "running (fs (iom_of s2)) = flow_of m (resumer m (fs (iom_of s)) cur)"
    using b(4) pre(6) by (simp add: left_def)
  ultimately show ?thesis using b pre(6,7) by (intro exI [of _ s2]) simp
qed

theorem hook_wait_exact_witness:
  "\<exists>s'. do_io 1 hdemo_env [(-1, EINTR), (-1, EAGAIN)] 9 READ SO_RCVTIMEO hdemo = Inr (s', Held 80 (Some 70))
    \<and> waiting 1 11 9 READ 80 (Some 70) s'
    \<and> armed (timers (iom_of s')) 70 = Some (Timer 2000 250 (Some (OnTimer 80 (CancelOnTimeout 80 9 READ))) False)"
proof -
  have p: "m_isSocket hdemo_ctx" "\<not> m_isClosed hdemo_ctx" "\<not> m_userNonblock hdemo_ctx"
    "(9 :: int) \<noteq> fst (m_tickleFds (iom_of hdemo))" "READ \<in> {READ, WRITE}"
    "events_at (iom_of hdemo) (nat 9) AND READ = 0"
    "call_loop (errno hdemo) [(-1, EINTR), (-1, EAGAIN)] = Some (-1, EAGAIN)"
    "getTimeout SO_RCVTIMEO hdemo_ctx = 250" "e_tinfo hdemo_env = 80" "e_timer hdemo_env = 70" "e_now hdemo_env = 2000"
    using hdemo_iom by (simp_all add: hdemo_ctx_def hdemo_def hdemo_env_def getTimeout_def)
  have t: "timer_of hdemo_env 250 = Some 70" using p by (simp add: timer_of_def)
  from hook_wait_exact [OF hdemo_ok p(1-7), of SO_RCVTIMEO] show ?thesis
    unfolding p(8-11) t by auto
qed

text \<open>C2: a wait whose timer (a one-shot one, as the hooks arm it) is due: a round of \<open>idle\<close> without kernel
  reports or a clock rollover takes the timer out of the set, clears its callback and queues that
  callback. Whatever else is queued when the callback runs and whichever
  fiber runs it, it schedules the waiting fiber exactly once and takes back the registration; the
  waiting call (\<open>do_io\<close> or \<open>connect\<close>), whenever it is resumed, cancels a timer that has fired,
  which changes nothing, and returns \<open>-1\<close> with \<open>ETIMEDOUT\<close> without calling the original again. The
  callback is without effect from then on, before and after the call has returned.\<close>

theorem hook_timeout_exact:
  assumes w: "waiting me cur fd event ti (Some p) s"
    and due: "m_next (timer_at (timers (iom_of s)) p) \<le> now2" and once: "\<not> m_recurring (timer_at (timers (iom_of s)) p)"
    and clock: "now1 \<noteq> 0" "nowp \<notin> set (m_timers (timers (iom_of s)))"
      "\<not> snd (detectClockRollover now2 (timers (iom_of s)))"
  shows "\<exists>i timeout before after.
    idle_round me 1 low32 EINTR now1 now2 nowp (replicate n (WErr EINTR) @ [WEvents []]) rts (iom_of s)
      = Inr (Some (i, timeout))
    \<and> m_fibers i = m_fibers (iom_of s) @ before
        @ [cb_task (Some (OnTimer ti (CancelOnTimeout ti fd event))) (-1)] @ after
    \<and> p \<notin> set (m_timers (timers i)) \<and> m_cb (timer_at (timers i) p) = None
    \<and> (\<forall>q f. \<exists>s1. run_timer_cb me 1 0 (OnTimer ti (CancelOnTimeout ti fd event)) (s\<lparr>iom_of := i\<lparr>m_fibers := q, fs := f\<rparr>\<rparr>) = Inr s1
      \<and> m_fibers (iom_of s1) = q @ [fiber_task (Some cur) (-1)]
      \<and> (\<forall>j. events_at (iom_of s1) j = (if j = nat fd then events_at (iom_of s) j AND NOT event
             else events_at (iom_of s) j))
      \<and> (\<forall>q' f'. let s1' = s1\<lparr>iom_of := (iom_of s1)\<lparr>m_fibers := q', fs := f'\<rparr>\<rparr>; s2 = release ti (s1'\<lparr>errno := ETIMEDOUT\<rparr>)
           in do_io_resume me env calls fd event to ti (Some p) s1' = Inr (s2, Ret (-1))
             \<and> connect_resume sockopt gerr ti (Some p) s1' = Inr (s2, Ret (-1))
             \<and> run_timer_cb me 1 0 (OnTimer ti (CancelOnTimeout ti fd event)) s1' = Inr s1'
             \<and> run_timer_cb me 1 0 (OnTimer ti (CancelOnTimeout ti fd event)) s2 = Inr s2))"
proof -
  let ?cb = "OnTimer ti (CancelOnTimeout ti fd event)"
  obtain i timeout xs ys where r: "idle_round me 1 low32 EINTR now1 now2 nowp
        (replicate n (WErr EINTR) @ [WEvents []]) rts (iom_of s) = Inr (Some (i, timeout))"
    and q: "m_fibers i = m_fibers (iom_of s) @ xs @ [cb_task (Some ?cb) (-1)] @ ys"
    and gone: "p \<notin> set (m_timers (timers i))" "m_cb (timer_at (timers i) p) = None"
    and w': "\<And>q f. waiting me cur fd event ti None (s\<lparr>iom_of := i\<lparr>m_fibers := q, fs := f\<rparr>\<rparr>)"
    and ev: "\<And>j. events_at i j = events_at (iom_of s) j"
    using waiting_fired [OF w due once clock, of low32 n rts] by blast
  have "\<forall>q f. \<exists>s1. run_timer_cb me 1 0 ?cb (s\<lparr>iom_of := i\<lparr>m_fibers := q, fs := f\<rparr>\<rparr>) = Inr s1
      \<and> m_fibers (iom_of s1) = q @ [fiber_task (Some cur) (-1)]
      \<and> (\<forall>j. events_at (iom_of s1) j = (if j = nat fd then events_at (iom_of s) j AND NOT event
             else events_at (iom_of s) j))
      \<and> (\<forall>q' f'. let s1' = s1\<lparr>iom_of := (iom_of s1)\<lparr>m_fibers := q', fs := f'\<rparr>\<rparr>; s2 = release ti (s1'\<lparr>errno := ETIMEDOUT\<rparr>)
           in do_io_resume me env calls fd event to ti (Some p) s1' = Inr (s2, Ret (-1))
             \<and> connect_resume sockopt gerr ti (Some p) s1' = Inr (s2, Ret (-1))
             \<and> run_timer_cb me 1 0 ?cb s1' = Inr s1' \<and> run_timer_cb me 1 0 ?cb s2 = Inr s2)"
  proof (intro allI)
    fix q f
    let ?s = "s\<lparr>iom_of := i\<lparr>m_fibers := q, fs := f\<rparr>\<rparr>"
    let ?s1 = "?s\<lparr>tinfo_at := (tinfo_at ?s)(ti := Some ETIMEDOUT), iom_of := cancelled me (nat fd) event (iom_of ?s)\<rparr>"
    have "tinfo_at ?s1 ti = Some ETIMEDOUT" "m_cb (timer_at (timers (iom_of ?s1)) p) = None"
      using waiting_cancelled(4) [OF w' [of f q]] gone(2) by simp_all
    note returns = timed_out_returns [OF this]
    have "events_at (iom_of ?s) j = events_at (iom_of s) j" for j using ev by simp
    then have "m_fibers (iom_of ?s1) = q @ [fiber_task (Some cur) (-1)]"
      "events_at (iom_of ?s1) j = (if j = nat fd then events_at (iom_of s) j AND NOT event else events_at (iom_of s) j)" for j
      using waiting_cancelled(2,3) [OF w' [of f q]] by simp_all
    then show "\<exists>s1. run_timer_cb me 1 0 ?cb ?s = Inr s1 \<and> m_fibers (iom_of s1) = q @ [fiber_task (Some cur) (-1)]
      \<and> (\<forall>j. events_at (iom_of s1) j = (if j = nat fd then events_at (iom_of s) j AND NOT event
             else events_at (iom_of s) j))
      \<and> (\<forall>q' f'. let s1' = s1\<lparr>iom_of := (iom_of s1)\<lparr>m_fibers := q', fs := f'\<rparr>\<rparr>; s2 = release ti (s1'\<lparr>errno := ETIMEDOUT\<rparr>)
           in do_io_resume me env calls fd event to ti (Some p) s1' = Inr (s2, Ret (-1))
             \<and> connect_resume sockopt gerr ti (Some p) s1' = Inr (s2, Ret (-1))
             \<and> run_timer_cb me 1 0 ?cb s1' = Inr s1' \<and> run_timer_cb me 1 0 ?cb s2 = Inr s2)"
      by (intro exI [of _ ?s1] conjI allI timeout_outcome [OF w' [of f q]] returns)
  qed
  with r q gone show ?thesis by (metis (no_types))
qed

theorem hook_timeout_exact_witness:
  "\<exists>s i s1 s2. waiting 1 11 9 READ 80 (Some 70) s \<and> m_cb (timer_at (timers (iom_of s)) 70) \<noteq> None
    \<and> m_cb (timer_at (timers i) 70) = None
    \<and> run_timer_cb 1 1 0 (OnTimer 80 (CancelOnTimeout 80 9 READ)) (s\<lparr>iom_of := i\<lparr>m_fibers := [], fs := fs i\<rparr>\<rparr>) = Inr s1
    \<and> m_fibers (iom_of s1) = [fiber_task (Some 11) (-1)]
    \<and> do_io_resume 1 hdemo_env [(5, 0)] 9 READ 250 80 (Some 70) (s1\<lparr>iom_of := (iom_of s1)\<lparr>m_fibers := [], fs := fs i\<rparr>\<rparr>)
        = Inr (s2, Ret (-1)) \<and> errno s2 = ETIMEDOUT"
proof -
  obtain s where w: "waiting 1 11 9 READ 80 (Some 70) s" and t: "m_next (timer_at (timers (iom_of s)) 70) = 2250"
    "\<not> m_recurring (timer_at (timers (iom_of s)) 70)" "m_timers (timers (iom_of s)) = [70]"
    "m_previouseTime (timers (iom_of s)) = 1000"
    using hook_wait_exact_helper by blast
  have p: "m_next (timer_at (timers (iom_of s)) 70) \<le> 2260" "(2000 :: u64) \<noteq> 0" "71 \<notin> set (m_timers (timers (iom_of s)))"
    "\<not> snd (detectClockRollover 2260 (timers (iom_of s)))"
    using t by (simp_all add: detectClockRollover_def)
  have a: "m_cb (timer_at (timers (iom_of s)) 70) \<noteq> None" using w by (simp add: waiting_def)
  obtain i where i: "m_cb (timer_at (timers i) 70) = None"
      "\<forall>q f. \<exists>s1. run_timer_cb 1 1 0 (OnTimer 80 (CancelOnTimeout 80 9 READ)) (s\<lparr>iom_of := i\<lparr>m_fibers := q, fs := f\<rparr>\<rparr>) = Inr s1
        \<and> m_fibers (iom_of s1) = q @ [fiber_task (Some 11) (-1)]
        \<and> (\<forall>q' f'. do_io_resume 1 hdemo_env [(5, 0)] 9 READ 250 80 (Some 70) (s1\<lparr>iom_of := (iom_of s1)\<lparr>m_fibers := q', fs := f'\<rparr>\<rparr>)
          = Inr (release 80 (s1\<lparr>iom_of := (iom_of s1)\<lparr>m_fibers := q', fs := f'\<rparr>, errno := ETIMEDOUT\<rparr>), Ret (-1)))"
    using hook_timeout_exact [OF w p(1) t(2) p(2-4), of "\<lambda>_. 0" 1 "\<lambda>_. 0" hdemo_env "[(5, 0)]" 250 "(0, 0)" 0]
    unfolding Let_def by meson
  obtain s1 where "run_timer_cb 1 1 0 (OnTimer 80 (CancelOnTimeout 80 9 READ)) (s\<lparr>iom_of := i\<lparr>m_fibers := [], fs := fs i\<rparr>\<rparr>) = Inr s1"
      "m_fibers (iom_of s1) = [fiber_task (Some 11) (-1)]"
      "do_io_resume 1 hdemo_env [(5, 0)] 9 READ 250 80 (Some 70) (s1\<lparr>iom_of := (iom_of s1)\<lparr>m_fibers := [], fs := fs i\<rparr>\<rparr>)
          = Inr (release 80 (s1\<lparr>iom_of := (iom_of s1)\<lparr>m_fibers := [], fs := fs i\<rparr>, errno := ETIMEDOUT\<rparr>), Ret (-1))"
    using spec [OF spec [OF i(2), of "[]"], of "fs i"] by auto
  moreover have "errno (release 80 (s1\<lparr>iom_of := (iom_of s1)\<lparr>m_fibers := [], fs := fs i\<rparr>, errno := ETIMEDOUT\<rparr>)) = ETIMEDOUT"
    by (simp add: release_def)
  ultimately show ?thesis using w a i(1) by blast
qed

text \<open>C4: when the awaited event is reported first, its fiber is scheduled exactly once and the
  registration is gone; the resumed call disarms its timer and calls the original again, and what
  that returns is the result, whereupon the timer's callback has no effect even if it was already
  on its way.\<close>

theorem hook_event_exact:
  assumes w: "waiting me cur fd event ti timer s" and re: "real_events evs = event"
    and low: "lowhalf (nat fd) \<noteq> fst (m_tickleFds (iom_of s))"
    and call: "call_loop (errno s) calls = Some (n, err)" and n: "n \<noteq> -1 \<or> err \<noteq> EAGAIN"
  shows "\<exists>i1 s2. handle_event me 1 lowhalf 0 (evs, DataPtr (nat fd)) (iom_of s) = Inr i1
    \<and> m_fibers i1 = m_fibers (iom_of s) @ [fiber_task (Some cur) (-1)]
    \<and> (\<forall>j. events_at i1 j = (if j = nat fd then events_at (iom_of s) j AND NOT event
           else events_at (iom_of s) j))
    \<and> do_io_resume me env calls fd event to ti timer (s\<lparr>iom_of := i1\<rparr>) = Inr (s2, Ret n) \<and> errno s2 = err
    \<and> (case timer of None \<Rightarrow> timers (iom_of s2) = timers (iom_of s)
       | Some p \<Rightarrow> m_cb (timer_at (timers (iom_of s2)) p) = None)
    \<and> run_timer_cb me 1 0 (OnTimer ti (CancelOnTimeout ti fd event)) s2 = Inr s2"
proof -
  obtain i1 where i1: "handle_event me 1 lowhalf 0 (evs, DataPtr (nat fd)) (iom_of s) = Inr i1"
    "m_fibers i1 = m_fibers (iom_of s) @ [fiber_task (Some cur) (-1)]" "timers i1 = timers (iom_of s)"
    "\<forall>j. events_at i1 j = (if j = nat fd then events_at (iom_of s) j AND NOT event
       else events_at (iom_of s) j)"
    using waiting_reported [where lowhalf = lowhalf, OF w re low] by blast
  let ?s1 = "s\<lparr>iom_of := i1\<rparr>"
  have "timer_inv (timers (iom_of ?s1))" using w i1(3) by (simp add: waiting_def)
  from cancel_timer_outcome [OF this, of timer] obtain tm
    where tm: "cancel_timer timer ?s1 = Inr (?s1\<lparr>iom_of := (iom_of ?s1)\<lparr>timers := tm\<rparr>\<rparr>)"
      "case timer of None \<Rightarrow> tm = timers (iom_of ?s1) | Some p \<Rightarrow> m_cb (timer_at tm p) = None" by blast
  let ?s2 = "release ti (s\<lparr>iom_of := i1\<lparr>timers := tm\<rparr>, errno := err\<rparr>)"
  have t0: "tinfo_at s ti = Some 0" using w by (simp add: waiting_def)
  have r: "do_io_resume me env calls fd event to ti timer ?s1 = Inr (?s2, Ret n)"
    using n call by (auto simp: do_io_resume_def tm(1) t0 do_io_retry_def)
  show ?thesis
    by (intro exI [of _ i1] exI [of _ ?s2])
      (use r i1 tm(2) in \<open>simp add: late_callback release_def cong: option.case_cong\<close>)
qed

theorem hook_event_exact_witness:
  "\<exists>s i1 s2. waiting 1 11 9 READ 80 (Some 70) s
    \<and> handle_event 1 1 (\<lambda>_. 64) 0 (EPOLLIN, DataPtr 9) (iom_of s) = Inr i1
    \<and> do_io_resume 1 hdemo_env [(-1, EINTR), (5, 0)] 9 READ 250 80 (Some 70) (s\<lparr>iom_of := i1\<rparr>) = Inr (s2, Ret 5)
    \<and> m_cb (timer_at (timers (iom_of s2)) 70) = None"
proof -
  obtain s where w: "waiting 1 11 9 READ 80 (Some 70) s" "fst (m_tickleFds (iom_of s)) = 7"
    using hook_wait_exact_helper by blast
  have re: "real_events EPOLLIN = READ" by (simp add: real_events_def)
  have l: "(\<lambda>_. 64) (nat 9) \<noteq> fst (m_tickleFds (iom_of s))" using w(2) by simp
  have c: "call_loop (errno s) [(-1, EINTR), (5, 0)] = Some (5, EINTR)" "(5 :: int) \<noteq> -1 \<or> EINTR \<noteq> EAGAIN"
    by simp_all
  from hook_event_exact [where lowhalf = "\<lambda>_. 64" and env = hdemo_env and to = 250, OF w(1) re l c] w(1) show ?thesis by auto
qed



text \<open>C6: \<open>fcntl\<close> shows the program its own \<open>O_NONBLOCK\<close> and keeps the kernel's: after
  \<open>F_SETFL\<close> with any flags on a socket, \<open>F_GETFL\<close> returns the settable flags of that call,
  \<open>O_NONBLOCK\<close> included, the hooks know the program's choice, and the kernel's descriptor is
  non-blocking all the same; no other descriptor is touched.\<close>

theorem hook_fcntl_exact:
  assumes reach: "fd_reach s" and l: "fd_lookup fd (fds_of s) = Some c" and sock: "m_isSocket c"
  shows "\<exists>d v. hook_fcntl other fd F_SETFL (IntArg a) (fds_of s) = Inr (d, 0)
    \<and> hook_fcntl other fd F_GETFL NoArg d = Inr (d, v)
    \<and> v AND SETFL_MASK = a AND SETFL_MASK
    \<and> k_flags d fd AND O_NONBLOCK = O_NONBLOCK
    \<and> map_option m_userNonblock (fd_lookup fd d) = Some (a AND O_NONBLOCK \<noteq> 0)
    \<and> (\<forall>x. x = fd \<or> fd_lookup x d = fd_lookup x (fds_of s) \<and> k_flags d x = k_flags (fds_of s) x)"
proof -
  have inv: "fds_inv s" by (rule fd_reach_inv [OF reach])
  have fd: "0 \<le> fd" using l by (simp add: fd_lookup_def split: if_splits)
  let ?c = "setUserNonblock (a AND O_NONBLOCK \<noteq> 0) c"
  let ?d = "setfl fd (a OR O_NONBLOCK) (put_fd_ctx fd ?c (fds_of s))"
  let ?k = "((a OR O_NONBLOCK) AND SETFL_MASK) OR (k_flags (fds_of s) fd AND NOT SETFL_MASK)"
  let ?v = "if a AND O_NONBLOCK \<noteq> 0 then ?k OR O_NONBLOCK else ?k AND NOT O_NONBLOCK"
  have lk: "fd_lookup x ?d = (if x = fd then Some ?c else fd_lookup x (fds_of s))" for x
    using lookup_put [of fd "fds_of s" x ?c] l by simp
  have g: "hook_fcntl other fd F_GETFL NoArg ?d = Inr (?d, ?v)"
    using inv l sock lk get_lookup [OF fd, of ?d]
    by (simp add: hook_fcntl_def fcntl_f_def unhooked_def fds_inv_def ctx_inv_def setUserNonblock_def getfl_def)
  have p: "2 ^ 11 = O_NONBLOCK" by simp
  have v: "?v AND SETFL_MASK = a AND SETFL_MASK"
    using flags_shown [of a 11 SETFL_MASK "k_flags (fds_of s) fd"] unfolding p .
  show ?thesis
    by (intro exI [of _ ?d] exI [of _ ?v] conjI g v setfl_socket(1) [OF inv l sock])
      (use lk in \<open>simp_all add: setUserNonblock_def\<close>)
qed

theorem hook_fcntl_exact_witness:
  "\<exists>d v. hook_fcntl (\<lambda>_ _ _. 0) 9 F_SETFL (IntArg 0x402) (fds_of fdemo) = Inr (d, 0)
    \<and> hook_fcntl (\<lambda>_ _ _. 0) 9 F_GETFL NoArg d = Inr (d, v) \<and> v AND O_NONBLOCK = 0
    \<and> k_flags d 9 AND O_NONBLOCK = O_NONBLOCK"
proof -
  have sock: "m_isSocket (hdemo_ctx\<lparr>m_recvTimeout := -1\<rparr>)" by (simp add: hdemo_ctx_def)
  obtain d v where d: "hook_fcntl (\<lambda>_ _ _. 0) 9 F_SETFL (IntArg 0x402) (fds_of fdemo) = Inr (d, 0)"
    "hook_fcntl (\<lambda>_ _ _. 0) 9 F_GETFL NoArg d = Inr (d, v)" "v AND SETFL_MASK = 0x402 AND SETFL_MASK"
    "k_flags d 9 AND O_NONBLOCK = O_NONBLOCK"
    using hook_fcntl_exact [OF fdemo(1,2) sock, of "\<lambda>_ _ _. 0" "0x402"] by blast
  have "v AND O_NONBLOCK = (v AND SETFL_MASK) AND O_NONBLOCK" by (simp add: and.assoc)
  then have "v AND O_NONBLOCK = 0" using d(3) by simp
  with d show ?thesis by blast
qed

text \<open>\<open>ioctl(FIONBIO)\<close> is not virtualised: with a zero argument on a socket it clears the
  kernel's \<open>O_NONBLOCK\<close> although the hooks still rely on it; the context is still one that
  \<open>do_io\<close> handles as non-blocking, so the next original call that would block stops the whole
  thread. \<open>fcntl\<close> with the same wish keeps the flag.\<close>

theorem hook_ioctl_blocks:
  assumes reach: "fd_reach s" and l: "fd_lookup fd (fds_of s) = Some c" and sock: "m_isSocket c"
  shows "\<exists>d c' d'. hook_ioctl other fd FIONBIO (IntArg 0) (fds_of s) = Inr (d, 0)
    \<and> k_flags d fd AND O_NONBLOCK = 0 \<and> fd_lookup fd d = Some c'
    \<and> m_isSocket c' \<and> m_sysNonblock c' \<and> \<not> m_userNonblock c' \<and> \<not> m_isClosed c'
    \<and> hook_fcntl other' fd F_SETFL (IntArg 0) (fds_of s) = Inr (d', 0) \<and> k_flags d' fd AND O_NONBLOCK = O_NONBLOCK"
proof -
  have inv: "fds_inv s" by (rule fd_reach_inv [OF reach])
  have fd: "0 \<le> fd" using l by (simp add: fd_lookup_def split: if_splits)
  have ci: "ctx_inv (fds_of s) fd c" using inv l by (simp add: fds_inv_def)
  let ?c = "setUserNonblock False c"
  let ?p = "put_fd_ctx fd ?c (fds_of s)"
  let ?d = "?p\<lparr>k_flags := (k_flags ?p)(fd := k_flags ?p fd AND NOT O_NONBLOCK)\<rparr>"
  have "hook_ioctl other fd FIONBIO (IntArg 0) (fds_of s) = Inr (?d, 0)"
    using ci sock l get_lookup [OF fd, of "fds_of s"]
    by (simp add: hook_ioctl_def va_int_def unhooked_def ioctl_f_def ctx_inv_def)
  moreover have "fd_lookup fd ?d = Some ?c"
    using lookup_put [of fd "fds_of s" fd ?c] l lookup_frame [of ?d ?p fd] by simp
  moreover have "k_flags ?d fd AND O_NONBLOCK = 0" by (simp add: and.assoc)
  moreover have "m_isSocket ?c \<and> m_sysNonblock ?c \<and> \<not> m_userNonblock ?c \<and> \<not> m_isClosed ?c"
    using ci sock by (simp add: ctx_inv_def setUserNonblock_def)
  moreover have "k_flags (setfl fd (0 OR O_NONBLOCK) (put_fd_ctx fd (setUserNonblock (0 AND O_NONBLOCK \<noteq> (0 :: u32)) c)
      (fds_of s))) fd AND O_NONBLOCK = O_NONBLOCK" by simp
  ultimately show ?thesis using setfl_socket(1) [OF inv l sock, of other' 0] by blast
qed

theorem hook_ioctl_blocks_witness:
  "\<exists>d c'. hook_ioctl (\<lambda>_ _ _. 0) 9 FIONBIO (IntArg 0) (fds_of fdemo) = Inr (d, 0)
    \<and> k_flags d 9 AND O_NONBLOCK = 0 \<and> fd_lookup 9 d = Some c' \<and> m_sysNonblock c'"
proof -
  have sock: "m_isSocket (hdemo_ctx\<lparr>m_recvTimeout := -1\<rparr>)" by (simp add: hdemo_ctx_def)
  show ?thesis using hook_ioctl_blocks [OF fdemo(1,2) sock, of "\<lambda>_ _ _. 0" "\<lambda>_ _ _. 0"] by blast
qed

text \<open>C7: \<open>setsockopt\<close> stores a timeout of whole milliseconds for its direction and nothing else as
  long as they fit into a \<open>long\<close>; from 2^63 milliseconds on the sum overflows, which is undefined.
  A zero \<open>timeval\<close>, with which a program asks for no timeout, is stored as 0 and not as the
  \<open>-1\<close> that \<open>do_io\<close> takes for none: the next call that has to wait is given a timer that is due
  at once.\<close>

theorem hook_sockopt_exact:
  assumes reach: "fd_reach s" and l: "fd_lookup fd (fds_of s) = Some c"
    and opt: "opt \<in> {SO_RCVTIMEO, SO_SNDTIMEO}" and tv: "0 \<le> sec" "0 \<le> usec"
  shows "(if sec * 1000 + usec div 1000 < 2 ^ 63
      then \<exists>s' c'. hook_setsockopt fd SOL_SOCKET opt (sec, usec) s = Inr s'
        \<and> fd_lookup fd (fds_of s') = Some c' \<and> uint (getTimeout opt c') = sec * 1000 + usec div 1000
        \<and> getTimeout (SO_RCVTIMEO + SO_SNDTIMEO - opt) c' = getTimeout (SO_RCVTIMEO + SO_SNDTIMEO - opt) c
        \<and> (\<forall>x. x = fd \<or> fd_lookup x (fds_of s') = fd_lookup x (fds_of s))
      else hook_setsockopt fd SOL_SOCKET opt (sec, usec) s = Inl (Undefined ''signed overflow''))
    \<and> hook_setsockopt fd SOL_SOCKET opt (0, 0) s
        = Inr (s\<lparr>fds_of := put_fd_ctx fd (setTimeout opt 0 c) (fds_of s)\<rparr>)
    \<and> timer_of env (getTimeout opt (setTimeout opt 0 c)) = Some (e_timer env)"
proof -
  have fd: "0 \<le> fd" using l by (simp add: fd_lookup_def split: if_splits)
  have on: "t_hook_enable s" using fd_reach_inv [OF reach] by (simp add: fds_inv_def)
  let ?ms = "sec * 1000 + usec div 1000"
  let ?v = "word_of_int ?ms :: u64"
  let ?s = "s\<lparr>fds_of := put_fd_ctx fd (setTimeout opt ?v c) (fds_of s)\<rparr>"
  have ms: "timeval_ms sec usec = (if ?ms < 2 ^ 63 then Inr ?ms else Inl (Undefined ''signed overflow''))"
    using tv by (auto simp: timeval_ms_def ensure_def Let_def signed_divide_int_def sgn_if)
  have set: "hook_setsockopt fd SOL_SOCKET opt (a, b) s
      = rbind (timeval_ms a b) (\<lambda>ms. Inr (s\<lparr>fds_of := put_fd_ctx fd (setTimeout opt (word_of_int ms) c) (fds_of s)\<rparr>))" for a b
    using on opt l get_lookup [OF fd, of "fds_of s"] by (auto simp: hook_setsockopt_def)
  have zero: "timeval_ms 0 0 = Inr 0" by (simp add: timeval_ms_def ensure_def)
  have u: "uint ?v = ?ms" if "?ms < 2 ^ 63" by (rule uint_small) (use tv that in simp_all)
  have k: "getTimeout opt (setTimeout opt v c) = v"
    "getTimeout (SO_RCVTIMEO + SO_SNDTIMEO - opt) (setTimeout opt v c)
      = getTimeout (SO_RCVTIMEO + SO_SNDTIMEO - opt) c" for v
    using opt by (auto simp: getTimeout_def setTimeout_def)
  show ?thesis
  proof (cases "?ms < 2 ^ 63")
    case True
    have "\<exists>s' c'. hook_setsockopt fd SOL_SOCKET opt (sec, usec) s = Inr s'
        \<and> fd_lookup fd (fds_of s') = Some c' \<and> uint (getTimeout opt c') = ?ms
        \<and> getTimeout (SO_RCVTIMEO + SO_SNDTIMEO - opt) c' = getTimeout (SO_RCVTIMEO + SO_SNDTIMEO - opt) c
        \<and> (\<forall>x. x = fd \<or> fd_lookup x (fds_of s') = fd_lookup x (fds_of s))"
      by (intro exI [of _ ?s] exI [of _ "setTimeout opt ?v c"])
        (use set ms True u k lookup_put [of fd "fds_of s" _ "setTimeout opt ?v c"] l in simp)
    then show ?thesis using True set zero k by (simp add: timer_of_def)
  qed (use set ms zero k in \<open>simp add: timer_of_def\<close>)
qed

theorem hook_sockopt_exact_witness:
  "(\<exists>s' c'. hook_setsockopt 9 SOL_SOCKET SO_RCVTIMEO (2, 500000) fdemo = Inr s'
    \<and> fd_lookup 9 (fds_of s') = Some c' \<and> uint (getTimeout SO_RCVTIMEO c') = 2500)
   \<and> hook_setsockopt 9 SOL_SOCKET SO_RCVTIMEO (2 ^ 62, 0) fdemo = Inl (Undefined ''signed overflow'')"
proof -
  have o: "SO_RCVTIMEO \<in> {SO_RCVTIMEO, SO_SNDTIMEO}" and n: "(2 :: int) * 1000 + 500000 div 1000 = 2500"
    "\<not> (2 ^ 62 :: int) * 1000 + 0 div 1000 < 2 ^ 63" by simp_all
  show ?thesis
    using hook_sockopt_exact [OF fdemo(1,2) o, of 2 500000 hdemo_env]
      hook_sockopt_exact [OF fdemo(1,2) o, of "2 ^ 62" 0 hdemo_env] n by auto
qed

text \<open>C8: a hooked sleep holds the fiber and arms a timer whose callback schedules exactly this
  fiber; the time is taken modulo 2^32 milliseconds by \<open>sleep\<close>, so a fiber that sleeps for
  4294968 seconds is back after 704 ms. \<open>usleep\<close> rounds down to milliseconds, and without hooks
  calls the original \<open>sleep\<close> with the microseconds as seconds.\<close>

theorem hook_sleep_exact:
  assumes w: "worker_ok me m cur s" and env: "env_ok env s" and hook: "t_hook_enable s"
  shows "\<exists>s1 s2. hook_sleep me env seconds s = Inr (s1, Slept) \<and> hook_usleep me env usec s = Inr (s2, Slept)
    \<and> armed (timers (iom_of s1)) = (armed (timers (iom_of s)))(e_timer env \<mapsto>
         Timer (e_now env) (of_nat (unat seconds * 1000 mod 2 ^ 32)) (Some (Direct (ScheduleFiber cur (-1)))) False)
    \<and> armed (timers (iom_of s2)) = (armed (timers (iom_of s)))(e_timer env \<mapsto>
         Timer (e_now env) (of_nat (unat usec div 1000)) (Some (Direct (ScheduleFiber cur (-1)))) False)
    \<and> list_all (\<lambda>x. running (fs (iom_of x)) = flow_of m (resumer m (fs (iom_of s)) cur)
         \<and> m_fibers (iom_of x) = m_fibers (iom_of s)) [s1, s2]
    \<and> map_sum id (\<lambda>x. m_fibers (iom_of x)) (run_timer_cb me 1 rt (Direct (ScheduleFiber cur (-1))) s1)
        = Inr (m_fibers (iom_of s1) @ [fiber_task (Some cur) (-1)])
    \<and> hook_usleep me env usec (set_hook_enable False s) = Inr (set_hook_enable False s, Sleep_f usec)"
proof -
  have u: "ucast (seconds * 1000) = (of_nat (unat seconds * 1000 mod 2 ^ 32) :: u64)"
    "ucast (usec div 1000) = (of_nat (unat usec div 1000) :: u64)"
    unfolding unsigned_of_unat by (simp add: unat_word_ariths) (simp only: unat_div_distrib unat_numeral_u32)
  obtain s1 s2 where "sleep_for me env (ucast (seconds * 1000)) s = Inr (s1, Slept)"
    "armed (timers (iom_of s1)) = (armed (timers (iom_of s)))(e_timer env \<mapsto>
         Timer (e_now env) (ucast (seconds * 1000)) (Some (Direct (ScheduleFiber cur (-1)))) False)"
    "running (fs (iom_of s1)) = flow_of m (resumer m (fs (iom_of s)) cur)"
    "m_fibers (iom_of s1) = m_fibers (iom_of s)"
    "sleep_for me env (ucast (usec div 1000)) s = Inr (s2, Slept)"
    "armed (timers (iom_of s2)) = (armed (timers (iom_of s)))(e_timer env \<mapsto>
         Timer (e_now env) (ucast (usec div 1000)) (Some (Direct (ScheduleFiber cur (-1)))) False)"
    "running (fs (iom_of s2)) = flow_of m (resumer m (fs (iom_of s)) cur)"
    "m_fibers (iom_of s2) = m_fibers (iom_of s)"
    using sleep_for_outcome [OF w env] by metis
  then show ?thesis using hook unfolding u
    by (intro exI [of _ s1] exI [of _ s2])
      (simp add: hook_sleep_def hook_usleep_def u set_hook_enable_def woken handed_def)
qed

theorem hook_sleep_exact_witness:
  "\<exists>s1. hook_sleep 1 hdemo_env 4294968 hdemo = Inr (s1, Slept)
    \<and> armed (timers (iom_of s1)) 70 = Some (Timer 2000 704 (Some (Direct (ScheduleFiber 11 (-1)))) False)"
proof -
  have e: "e_timer hdemo_env = 70" "e_now hdemo_env = 2000" by (simp_all add: hdemo_env_def)
  have n: "unat (4294968 :: u32) * 1000 mod 2 ^ 32 = 704" by simp
  obtain s1 where "hook_sleep 1 hdemo_env 4294968 hdemo = Inr (s1, Slept)"
    "armed (timers (iom_of s1)) = (armed (timers (iom_of hdemo)))(e_timer hdemo_env \<mapsto>
       Timer (e_now hdemo_env) (of_nat (unat (4294968 :: u32) * 1000 mod 2 ^ 32))
         (Some (Direct (ScheduleFiber 11 (-1)))) False)"
    using hook_sleep_exact [OF hdemo_ok(1-3), of 4294968 0 0] by blast
  then show ?thesis unfolding n e by simp
qed

text \<open>C9: the descriptor table never grows: the first 64 descriptors get a context when they are
  opened, which is fresh even if the number was used before, and opening one past them with hooks
  enabled writes behind the table.\<close>

theorem hook_socket_limit:
  assumes reach: "fd_reach s" and new: "k_stat (fds_of s) fd = None" and fd: "0 \<le> fd"
  shows "case hook_socket fd (created fd True fl s) of
      Inl e \<Rightarrow> 64 \<le> fd \<and> e = Undefined ''vector index out of range''
    | Inr (s', r) \<Rightarrow> fd < 64 \<and> r = fd \<and> fd_reach s'
        \<and> fd_lookup fd (fds_of s') = Some \<lparr>m_isInit = True, m_isSocket = True, m_sysNonblock = True,
            m_userNonblock = False, m_isClosed = False, m_fd = fd, m_recvTimeout = -1, m_sendTimeout = -1\<rparr>
        \<and> (\<forall>x. x = fd \<or> fd_lookup x (fds_of s') = fd_lookup x (fds_of s))"
proof -
  have inv: "fds_inv s" by (rule fd_reach_inv [OF reach])
  then have on: "t_hook_enable s" "length (m_datas (fds_of s)) = 64" by (simp_all add: fds_inv_def)
  let ?d = "fds_of (created fd True fl s)"
  show ?thesis
  proof (cases "fd < 64")
    case True
    obtain d c where g: "get fd True ?d = Inr (d, Some c)" "fd_lookup fd d = Some c"
      "\<forall>x. x \<noteq> fd \<longrightarrow> fd_lookup x d = fd_lookup x (fds_of s)"
      using created_get [OF inv new fd True, of True fl] by blast
    have l: "fd_lookup fd ?d = None"
      using new_no_ctx [OF inv new] lookup_frame [of ?d "fds_of s" fd] by (simp add: created_def)
    have r: "fd_room ?d fd" using on fd True by (simp add: fd_room_def)
    have h: "hook_socket fd (created fd True fl s) = Inr (s\<lparr>fds_of := d\<rparr>, fd)"
      using g(1) on fd by (simp add: hook_socket_def)
    moreover have "fd_reach (s\<lparr>fds_of := d\<rparr>)"
      by (rule fd_next [OF reach fd_socket [OF new h]]) (use fd in simp)
    moreover have "c = fst (FdCtx fd ?d)" using get_create [OF r l] g(1) by simp
    then have "c = \<lparr>m_isInit = True, m_isSocket = True, m_sysNonblock = True,
            m_userNonblock = False, m_isClosed = False, m_fd = fd, m_recvTimeout = -1, m_sendTimeout = -1\<rparr>"
      by (simp add: FdCtx_def init_def Let_def created_def)
    ultimately show ?thesis using g(2,3) True by auto
  next
    case False
    then have "get fd True ?d = Inl (Undefined ''vector index out of range'')"
      using on FdCtx_frame(1) [of fd ?d] by (simp add: get_def vec_set_def Let_def split_beta)
    then show ?thesis using False on fd by (simp add: hook_socket_def)
  qed
qed

theorem hook_socket_limit_witness:
  "\<exists>e. hook_socket 64 (created 64 True 2 fdemo) = Inl e"
proof -
  have "k_stat (fds_of fdemo) 64 = None"
    by (simp add: fdemo_def hook_socket_def created_def fdemo0_def hdemo_def get_def FdManager_def vec_get_def
        vec_set_def nth_vec_resize FdCtx_def init_def setfl_def getfl_def Let_def)
  from hook_socket_limit [OF fdemo(1) this, of 2] show ?thesis by (auto split: sum.splits)
qed

end
