(* ===== verification/Sleeps.thy ===== *)
theory Sleeps
  imports Hooks
begin

text \<open>
  A sleep of a fiber from end to end, through hook.cpp, timer.cpp, iomanager.cpp and scheduler.cpp: the
  hook arms a timer and leaves the fiber, a round of \<open>idle\<close> schedules the timer's callback, a thread
  picks the callback and runs it, which schedules the fiber, and a thread scans the queue for it.
\<close>

text \<open>The state the hook leaves behind when there was no timer before.\<close>

lemma lone_sleep:
  assumes w: "worker_ok me m cur s" and env: "env_ok env s" and alone: "m_timers (timers (iom_of s)) = []"
    and s1: "sleep_for me env ms s = Inr (s1, Slept)"
  shows "timer_inv (timers (iom_of s1))" "m_timers (timers (iom_of s1)) = [e_timer env]"
    "timer_at (timers (iom_of s1)) (e_timer env) = Timer (e_now env) ms (Some (Direct (ScheduleFiber cur (-1)))) False"
    "m_previouseTime (timers (iom_of s1)) = m_previouseTime (timers (iom_of s))"
    "m_fibers (iom_of s1) = m_fibers (iom_of s)" "m_state (fiber_at (fs (iom_of s1)) cur) = EXEC"
proof -
  have f: "fiber_inv m (fs (iom_of s))" "running (fs (iom_of s)) = FiberFlow cur" and tm: "timer_inv (timers (iom_of s))"
    using w by (simp_all add: worker_ok_def)
  have s1': "s1 = s\<lparr>iom_of := (with_timer env ms (Direct (ScheduleFiber cur (-1))) (iom_of s))
      \<lparr>fs := left (AtSwap (FiberFlow cur)) m cur (fs (iom_of s))\<rparr>\<rparr>"
    using sleep_for_eq [OF w env, of ms] s1 by simp
  have t: "timers (iom_of s1) = fst (addTimer (e_timer env) (e_now env) ms (Some (Direct (ScheduleFiber cur (-1)))) False
      (timers (iom_of s)))"
    by (simp add: s1' with_timer_def split_beta Let_def)
  note a = addTimer_eqs [OF tm, of "e_timer env" "e_now env" ms "Some (Direct (ScheduleFiber cur (-1)))" False]
  show "timer_inv (timers (iom_of s1))"
    "timer_at (timers (iom_of s1)) (e_timer env) = Timer (e_now env) ms (Some (Direct (ScheduleFiber cur (-1)))) False"
    using a alone t by simp_all
  show "m_timers (timers (iom_of s1)) = [e_timer env]"
    "m_previouseTime (timers (iom_of s1)) = m_previouseTime (timers (iom_of s))"
    using alone by (simp_all add: t addTimer_def addTimer_locked_def Let_def)
  show "m_fibers (iom_of s1) = m_fibers (iom_of s)" by (simp add: s1')
  show "m_state (fiber_at (fs (iom_of s1)) cur) = EXEC"
    using running_resumer_ctx(4) [OF f] by (simp add: s1' left_def)
qed

text \<open>C1: a fiber sleeps with nothing else to do. The round of \<open>idle\<close> after its time, and no round
  before, queues one callback; whichever thread picks it, running it queues exactly the fiber. But
  \<open>YieldToHold\<close> left the fiber in state \<open>EXEC\<close>: the next scan finds it only when the state was
  stored to be something else since, which \<open>run\<close> does for a function on the callback fiber, but not for
  a fiber task. Such a sleep never returns: the task is passed over and stays in the queue.\<close>

theorem sleep_end_to_end:
  assumes w: "worker_ok me m cur s" and env: "env_ok env s" and hook: "t_hook_enable s"
    and alone: "m_timers (timers (iom_of s)) = []" "m_fibers (iom_of s) = []"
    and clock: "0 < now1" "m_previouseTime (timers (iom_of s)) \<le> now2" and nowp: "nowp \<noteq> e_timer env"
  shows "\<exists>s1 i2 timeout. hook_sleep me env seconds s = Inr (s1, Slept)
    \<and> m_state (fiber_at (fs (iom_of s1)) cur) = EXEC
    \<and> idle_round me 1 low32 EINTR now1 now2 nowp (replicate n (WErr EINTR) @ [WEvents []]) rts (iom_of s1)
        = Inr (Some (i2, timeout))
    \<and> (if now2 < e_now env + of_nat (unat seconds * 1000 mod 2 ^ 32) then m_fibers i2 = []
       else pick_task tid st (m_fibers i2) = Inr (False, Some (cb_task (Some (Direct (ScheduleFiber cur (-1)))) (-1)), [])
         \<and> (\<forall>f. \<exists>s3. run_timer_cb me 1 rt (Direct (ScheduleFiber cur (-1))) (s1\<lparr>iom_of := i2\<lparr>m_fibers := [], fs := f\<rparr>\<rparr>) = Inr s3
              \<and> m_fibers (iom_of s3) = [fiber_task (Some cur) (-1)]
              \<and> pick_task tid' (\<lambda>p. m_state (fiber_at (fs (iom_of s3)) p)) (m_fibers (iom_of s3))
                  = Inr (if m_state (fiber_at f cur) = EXEC then (False, None, [fiber_task (Some cur) (-1)])
                      else (False, Some (fiber_task (Some cur) (-1)), []))))"
proof -
  let ?ms = "of_nat (unat seconds * 1000 mod 2 ^ 32) :: u64" and ?cb = "Direct (ScheduleFiber cur (-1)) :: (nat, hook_cb) tcb"
  have u: "ucast (seconds * 1000) = ?ms" unfolding unsigned_of_unat by (simp add: unat_word_ariths)
  obtain s1 where s1: "sleep_for me env ?ms s = Inr (s1, Slept)" using sleep_for_eq [OF w env] by blast
  note l = lone_sleep [OF w env alone(1) s1]
  have h: "hook_sleep me env seconds s = Inr (s1, Slept)" using hook s1 by (simp add: hook_sleep_def u)
  let ?i = "iom_of s1"
  have nr: "\<not> snd (detectClockRollover now2 (timers ?i))" using clock l(4) by (auto simp: detectClockRollover_def)
  have ns: "\<not> snd (snd (io_stopping now1 ?i))" using clock(1) l(2) by (auto simp: io_stopping_exact)
  have np: "nowp \<notin> set (m_timers (timers ?i))" using nowp l(2) by simp
  have cbs: "filter (\<lambda>p. m_cb (timer_at (timers ?i) p) = None) (m_timers (timers ?i)) = []"
    using l(2,3) by (simp add: Timer_def)
  have due: "map (\<lambda>p. cb_task (m_cb (timer_at (timers ?i) p)) (-1))
        (filter (\<lambda>p. m_next (timer_at (timers ?i) p) \<le> now2) (m_timers (timers ?i)))
      = (if now2 < e_now env + ?ms then [] else [cb_task (Some ?cb) (-1)])"
    using l(2,3) by (auto simp: Timer_def not_le not_less)
  obtain i2 timeout where r: "idle_round me 1 low32 EINTR now1 now2 nowp (replicate n (WErr EINTR) @ [WEvents []]) rts ?i
      = Inr (Some (i2, timeout))"
    "m_fibers i2 = (if now2 < e_now env + ?ms then [] else [cb_task (Some ?cb) (-1)])"
    using idle_round_timers [OF l(1) ns np nr cbs, of me low32 EINTR n rts] l(5) alone(2) unfolding due by auto
  show ?thesis
    by (intro exI [of _ s1] exI [of _ i2] exI [of _ timeout])
      (auto simp: h r l(6) woken handed_def cb_task_def fiber_task_def is_task_def)
qed

theorem sleep_end_to_end_witness:
  "\<exists>s1 i2 timeout. hook_sleep 1 hdemo_env 3 hdemo = Inr (s1, Slept)
    \<and> idle_round 1 1 (\<lambda>_. 0) EINTR 2000 5000 71 [WErr EINTR, WEvents []] (\<lambda>_. 0) (iom_of s1) = Inr (Some (i2, timeout))
    \<and> pick_task 5 (\<lambda>_. EXEC) (m_fibers i2) = Inr (False, Some (cb_task (Some (Direct (ScheduleFiber 11 (-1)))) (-1)), [])"
proof -
  have h: "m_timers (timers (iom_of hdemo)) = []" "m_fibers (iom_of hdemo) = []"
    "m_previouseTime (timers (iom_of hdemo)) \<le> 5000" "71 \<noteq> e_timer hdemo_env" "e_now hdemo_env = 2000"
    using hdemo_iom by (simp_all add: hdemo_def hdemo_env_def TimeManager_def)
  have n: "unat (3 :: u32) * 1000 mod 2 ^ 32 = 3000" by simp
  show ?thesis
    using sleep_end_to_end [OF hdemo_ok(1-3) h(1,2) _ h(3,4), of 2000 3 "\<lambda>_. 0" 1 "\<lambda>_. 0" 5 "\<lambda>_. EXEC" 0 5]
    unfolding n h(5) by auto
qed

end
