(* ===== verification/LogFormats.thy ===== *)
theory LogFormats
  imports Prelude
begin

text \<open>
  sylar/log.h and sylar/log.cc, the part about text: log levels and their names, log events,
  the format items, and the parser of format patterns in \<open>LogFormatter::init\<close>, with its two
  nested loops over indices of the pattern. What \<open>localtime_r\<close> and \<open>strftime\<close> make of a format
  and a time is an argument.
\<close>

section \<open>Levels\<close>

datatype level = UNKNOW | DEBUG | INFO | WARN | ERROR | FATAL

primrec level_num :: "level \<Rightarrow> nat" where
  "level_num UNKNOW = 0"
| "level_num DEBUG = 1"
| "level_num INFO = 2"
| "level_num WARN = 3"
| "level_num ERROR = 4"
| "level_num FATAL = 5"

lemma level_num_inject [simp]: "level_num a = level_num b \<longleftrightarrow> a = b"
  by (cases a; cases b) simp_all

instantiation level :: linorder
begin

definition less_eq_level :: "level \<Rightarrow> level \<Rightarrow> bool" where
  "less_eq_level a b \<longleftrightarrow> level_num a \<le> level_num b"

definition less_level :: "level \<Rightarrow> level \<Rightarrow> bool" where
  "less_level a b \<longleftrightarrow> level_num a < level_num b"

instance
  by standard (auto simp: less_eq_level_def less_level_def)

end

definition ToString :: "level \<Rightarrow> string" where
  "ToString level =
     (case level of
        DEBUG \<Rightarrow> ''DEBUG'' | INFO \<Rightarrow> ''INFO'' | WARN \<Rightarrow> ''WARN'' | ERROR \<Rightarrow> ''ERROR'' | FATAL \<Rightarrow> ''FATAL''
      | _ \<Rightarrow> ''UNKNOW'')"

definition FromString :: "string \<Rightarrow> level" where
  "FromString str =
     (if str = ''debug'' then DEBUG else if str = ''info'' then INFO else if str = ''warn'' then WARN
      else if str = ''error'' then ERROR else if str = ''fatal'' then FATAL
      else if str = ''DEBUG'' then DEBUG else if str = ''INFO'' then INFO else if str = ''WARN'' then WARN
      else if str = ''ERROR'' then ERROR else if str = ''FATAL'' then FATAL
      else UNKNOW)"

section \<open>Events and format items\<close>

text \<open>\<open>m_content\<close> is what was streamed into the event.\<close>

record event =
  m_file :: string
  m_line :: int
  m_elapse :: u32
  m_threadId :: u32
  m_fiberId :: u32
  m_time :: u64
  m_threadName :: string
  m_content :: string
  m_logger :: nat
  m_elevel :: level

definition LogEvent ::
    "nat \<Rightarrow> level \<Rightarrow> string \<Rightarrow> int \<Rightarrow> u32 \<Rightarrow> u32 \<Rightarrow> u32 \<Rightarrow> u64 \<Rightarrow> string \<Rightarrow> event" where
  "LogEvent logger level file line elapse thread_id fiber_id time thread_name =
     \<lparr>m_file = file, m_line = line, m_elapse = elapse, m_threadId = thread_id, m_fiberId = fiber_id,
      m_time = time, m_threadName = thread_name, m_content = [], m_logger = logger, m_elevel = level\<rparr>"

text \<open>Streaming and \<open>format\<close>: \<open>vasprintf\<close> printed a text, or failed.\<close>

definition stream_in :: "string \<Rightarrow> event \<Rightarrow> event" where
  "stream_in txt e = e\<lparr>m_content := m_content e @ txt\<rparr>"

definition event_format :: "string option \<Rightarrow> event \<Rightarrow> event" where
  "event_format printed e = (case printed of Some txt \<Rightarrow> stream_in txt e | None \<Rightarrow> e)"

datatype format_item =
    MessageFormatItem | LevelFormatItem | ElapseFormatItem | NameFormatItem | ThreadIdFormatItem
  | ThreadNameFormatItem | FiberIdFormatItem | DateTimeFormatItem string | FilenameFormatItem
  | LineFormatItem | NewLineFormatItem | StringFormatItem string | TabFormatItem

definition DateTime_new :: "string \<Rightarrow> format_item" where
  "DateTime_new format =
     DateTimeFormatItem (if format = [] then ''%Y-%m-%d %H:%M:%S'' else format)"

text \<open>Streaming an integer prints it in decimal.\<close>

fun decimal :: "nat \<Rightarrow> string" where
  "decimal n = (if n < 10 then [char_of (48 + n)] else decimal (n div 10) @ [char_of (48 + n mod 10)])"

declare decimal.simps [simp del]

definition decimal_int :: "int \<Rightarrow> string" where
  "decimal_int i = (if i < 0 then ''-'' @ decimal (nat (- i)) else decimal (nat i))"

text \<open>\<open>FormatItem::format\<close>: \<open>strf fmt t\<close> is the expansion of \<open>fmt\<close> at time \<open>t\<close>; \<open>strftime\<close>
  leaves the 64 byte buffer unspecified when it does not fit. \<open>names\<close> gives the loggers' names.\<close>

definition format_item ::
    "(string \<Rightarrow> u64 \<Rightarrow> string) \<Rightarrow> (nat \<Rightarrow> string) \<Rightarrow> level \<Rightarrow> event \<Rightarrow> format_item \<Rightarrow> string result" where
  "format_item strf names level e item =
     (case item of
        MessageFormatItem \<Rightarrow> Inr (m_content e)
      | LevelFormatItem \<Rightarrow> Inr (ToString level)
      | ElapseFormatItem \<Rightarrow> Inr (decimal (unat (m_elapse e)))
      | NameFormatItem \<Rightarrow> Inr (names (m_logger e))
      | ThreadIdFormatItem \<Rightarrow> Inr (decimal (unat (m_threadId e)))
      | ThreadNameFormatItem \<Rightarrow> Inr (m_threadName e)
      | FiberIdFormatItem \<Rightarrow> Inr (decimal (unat (m_fiberId e)))
      | DateTimeFormatItem fmt \<Rightarrow>
          rbind (ensure (length (strf fmt (m_time e)) < 64) (Undefined ''strftime buffer''))
            (\<lambda>_. Inr (strf fmt (m_time e)))
      | FilenameFormatItem \<Rightarrow> Inr (m_file e)
      | LineFormatItem \<Rightarrow> Inr (decimal_int (m_line e))
      | NewLineFormatItem \<Rightarrow> Inr [CHR 0x0A]
      | StringFormatItem str \<Rightarrow> Inr str
      | TabFormatItem \<Rightarrow> Inr [CHR 0x09])"

section \<open>The pattern parser\<close>

text \<open>A formatter: its pattern, items and whether the pattern was in error.\<close>

record formatter =
  m_pattern :: string
  m_items :: "format_item list"
  m_error :: bool

text \<open>\<open>isalpha\<close> in the C locale, and \<open>s.substr(pos, len)\<close> for a \<open>pos\<close> within the string.\<close>

definition isalpha :: "char \<Rightarrow> bool" where
  "isalpha c = (let n = (of_char c :: nat) in (65 \<le> n \<and> n \<le> 90) \<or> (97 \<le> n \<and> n \<le> 122))"

definition substr :: "string \<Rightarrow> nat \<Rightarrow> nat \<Rightarrow> string" where
  "substr s pos len = take len (drop pos s)"

text \<open>The inner loop, after a \<open>%\<close> at index \<open>i\<close>: \<open>n\<close>, \<open>fmt_status\<close> (1 is \<open>True\<close>), \<open>fmt_begin\<close>,
  \<open>str\<close> and \<open>fmt\<close>.\<close>

function scan :: "string \<Rightarrow> nat \<Rightarrow> nat \<Rightarrow> bool \<Rightarrow> nat \<Rightarrow> string \<Rightarrow> string \<Rightarrow> nat \<times> bool \<times> string \<times> string" where
  "scan p i n fmt_status fmt_begin str fmt =
     (if n < length p then
        if \<not> fmt_status \<and> \<not> isalpha (p ! n) \<and> p ! n \<noteq> CHR ''{'' \<and> p ! n \<noteq> CHR ''}''
        then (n, fmt_status, substr p (i + 1) (n - i - 1), fmt)
        else if \<not> fmt_status \<and> p ! n = CHR ''{''
        then scan p i (n + 1) True n (substr p (i + 1) (n - i - 1)) fmt
        else if fmt_status \<and> p ! n = CHR ''}''
        then (n + 1, False, str, substr p (fmt_begin + 1) (n - fmt_begin - 1))
        else scan p i (n + 1) fmt_status fmt_begin
               (if n + 1 = length p \<and> str = [] then drop (i + 1) p else str) fmt
      else (n, fmt_status, str, fmt))"
  by pat_completeness auto
termination
  by (relation "measure (\<lambda>(p, i, n, _). length p - n)") auto

declare scan.simps [simp del]

lemma scan_forward: "n \<le> fst (scan p i n st fb str fmt)"
proof (induction p i n st fb str fmt rule: scan.induct)
  case (1 p i n st fb str fmt)
  then show ?case by (subst scan.simps) (force split: if_splits)
qed

lemma scan_past: "(n, r) = scan p i (Suc i) st fb str fmt \<Longrightarrow> i < n"
  using scan_forward [of "Suc i" p i st fb str fmt] by (metis Suc_le_eq fst_conv)

text \<open>The outer loop: index, collected literal, and the vector of (text, format, type) triples.\<close>

type_synonym piece = "string \<times> string \<times> bool"

function parse_loop :: "string \<Rightarrow> nat \<Rightarrow> string \<Rightarrow> piece list \<Rightarrow> bool \<Rightarrow> string \<times> piece list \<times> bool" where
  "parse_loop p i nstr vec err =
     (if i < length p then
        if p ! i \<noteq> CHR ''%'' then parse_loop p (i + 1) (nstr @ [p ! i]) vec err
        else if i + 1 < length p \<and> p ! (i + 1) = CHR ''%''
        then parse_loop p (i + 1) (nstr @ [CHR ''%'']) vec err
        else case scan p i (i + 1) False 0 [] [] of
          (n, fmt_status, str, fmt) \<Rightarrow>
            if \<not> fmt_status
            then parse_loop p n [] ((if nstr \<noteq> [] then vec @ [(nstr, [], False)] else vec) @ [(str, fmt, True)]) err
            else parse_loop p (i + 1) nstr (vec @ [(''<<pattern_error>>'', fmt, False)]) True
      else (nstr, vec, err))"
  by pat_completeness auto
termination
  by (relation "measure (\<lambda>(p, i, _). length p - i)") (auto dest!: scan_past)

declare parse_loop.simps [simp del]

text \<open>\<open>s_format_items\<close>.\<close>

definition s_format_items :: "string \<Rightarrow> (string \<Rightarrow> format_item) option" where
  "s_format_items = map_of
     [(''m'', \<lambda>_. MessageFormatItem), (''p'', \<lambda>_. LevelFormatItem), (''r'', \<lambda>_. ElapseFormatItem),
      (''c'', \<lambda>_. NameFormatItem), (''t'', \<lambda>_. ThreadIdFormatItem), (''n'', \<lambda>_. NewLineFormatItem),
      (''d'', DateTime_new), (''f'', \<lambda>_. FilenameFormatItem), (''l'', \<lambda>_. LineFormatItem),
      (''T'', \<lambda>_. TabFormatItem), (''F'', \<lambda>_. FiberIdFormatItem), (''N'', \<lambda>_. ThreadNameFormatItem)]"

text \<open>The item of one triple, and whether it is in error.\<close>

definition item_of :: "piece \<Rightarrow> format_item \<times> bool" where
  "item_of i =
     (case i of (str, fmt, directive) \<Rightarrow>
        if \<not> directive then (StringFormatItem str, False)
        else case s_format_items str of
          None \<Rightarrow> (StringFormatItem (''<<error_format %'' @ str @ ''>>''), True)
        | Some mk \<Rightarrow> (mk fmt, False))"

definition LogFormatter :: "string \<Rightarrow> formatter" where
  "LogFormatter pattern =
     (case parse_loop pattern 0 [] [] False of
        (nstr, vec, err) \<Rightarrow>
          let vec1 = (if nstr \<noteq> [] then vec @ [(nstr, [], False)] else vec)
          in \<lparr>m_pattern = pattern, m_items = map (fst \<circ> item_of) vec1,
              m_error = (err \<or> (\<exists>i \<in> set vec1. snd (item_of i)))\<rparr>)"

text \<open>\<open>LogFormatter::format\<close>.\<close>

fun format_items ::
    "(string \<Rightarrow> u64 \<Rightarrow> string) \<Rightarrow> (nat \<Rightarrow> string) \<Rightarrow> level \<Rightarrow> event \<Rightarrow> format_item list \<Rightarrow> string result" where
  "format_items strf names level e [] = Inr []"
| "format_items strf names level e (i # is) =
     rbind (format_item strf names level e i)
       (\<lambda>t. rbind (format_items strf names level e is) (\<lambda>ts. Inr (t @ ts)))"

definition format ::
    "(string \<Rightarrow> u64 \<Rightarrow> string) \<Rightarrow> (nat \<Rightarrow> string) \<Rightarrow> level \<Rightarrow> event \<Rightarrow> formatter \<Rightarrow> string result" where
  "format strf names level e f = format_items strf names level e (m_items f)"

section \<open>What a pattern means\<close>

text \<open>A pattern as its writer sees it: literal text, \<open>%c\<close>, and \<open>%c{fmt}\<close>.\<close>

datatype tok = Lit string | Dir char | DirFmt char string

fun render :: "tok list \<Rightarrow> string" where
  "render [] = []"
| "render (Lit s # ts) = s @ render ts"
| "render (Dir c # ts) = CHR ''%'' # c # render ts"
| "render (DirFmt c f # ts) = CHR ''%'' # c # CHR ''{'' # f @ CHR ''}'' # render ts"

definition name_char :: "char \<Rightarrow> bool" where
  "name_char c \<longleftrightarrow> isalpha c \<or> c = CHR ''{'' \<or> c = CHR ''}''"

text \<open>The patterns that can be written unambiguously: no \<open>%\<close> in literals, a letter as directive, no
  closing brace in a format, and nothing after a plain directive that would continue its name.\<close>

fun wf_toks :: "tok list \<Rightarrow> bool" where
  "wf_toks [] = True"
| "wf_toks (Lit s # ts) = (CHR ''%'' \<notin> set s \<and> wf_toks ts)"
| "wf_toks (Dir c # ts) = (isalpha c \<and> wf_toks ts
     \<and> (case render ts of [] \<Rightarrow> True | h # _ \<Rightarrow> \<not> name_char h))"
| "wf_toks (DirFmt c f # ts) = (isalpha c \<and> CHR ''}'' \<notin> set f \<and> wf_toks ts)"

text \<open>The triples of a token list, \<open>nstr\<close> being the literal text before it.\<close>

definition flush :: "string \<Rightarrow> piece list" where
  "flush nstr = (if nstr = [] then [] else [(nstr, [], False)])"

fun pieces :: "string \<Rightarrow> tok list \<Rightarrow> piece list" where
  "pieces nstr [] = flush nstr"
| "pieces nstr (Lit s # ts) = pieces (nstr @ s) ts"
| "pieces nstr (Dir c # ts) = flush nstr @ ([c], [], True) # pieces [] ts"
| "pieces nstr (DirFmt c f # ts) = flush nstr @ ([c], f, True) # pieces [] ts"

lemma isalpha_facts: "isalpha c \<Longrightarrow> c \<noteq> CHR ''%'' \<and> c \<noteq> CHR ''{'' \<and> c \<noteq> CHR ''}''"
  by (auto simp: isalpha_def)

lemma percent_not_name: "\<not> name_char (CHR ''%'')"
  by (simp add: name_char_def isalpha_def)

lemma drop_Cons: "drop i p = x # xs \<Longrightarrow> i < length p \<and> p ! i = x \<and> drop (Suc i) p = xs"
  by (metis Cons_nth_drop_Suc drop_all linorder_not_less list.distinct(1) list.inject)

text \<open>The inner loop, one step.\<close>

lemma scan_steps:
  "length p \<le> n \<Longrightarrow> scan p i n st fb str fmt = (n, st, str, fmt)"
  "n < length p \<Longrightarrow> \<not> name_char (p ! n) \<Longrightarrow>
    scan p i n False fb str fmt = (n, False, substr p (Suc i) (n - i - 1), fmt)"
  "n < length p \<Longrightarrow> p ! n = CHR ''{'' \<Longrightarrow>
    scan p i n False fb str fmt = scan p i (Suc n) True n (substr p (Suc i) (n - i - 1)) fmt"
  "n < length p \<Longrightarrow> isalpha (p ! n) \<Longrightarrow> scan p i n False fb str fmt
    = scan p i (Suc n) False fb (if Suc n = length p \<and> str = [] then drop (Suc i) p else str) fmt"
  "n < length p \<Longrightarrow> p ! n = CHR ''}'' \<Longrightarrow>
    scan p i n True fb str fmt = (Suc n, False, str, substr p (Suc fb) (n - fb - 1))"
  "n < length p \<Longrightarrow> p ! n \<noteq> CHR ''}'' \<Longrightarrow> str \<noteq> [] \<Longrightarrow>
    scan p i n True fb str fmt = scan p i (Suc n) True fb str fmt"
  by (subst scan.simps, auto simp: name_char_def dest: isalpha_facts)+

text \<open>A directive of one letter.\<close>

lemma scan_plain:
  assumes p: "drop (Suc i) p = c # r" and c: "isalpha c"
    and stop: "case r of [] \<Rightarrow> True | h # _ \<Rightarrow> \<not> name_char h"
  shows "scan p i (Suc i) False 0 [] [] = (Suc (Suc i), False, [c], [])"
proof -
  have f: "Suc i < length p" "p ! Suc i = c" "drop (Suc (Suc i)) p = r" using drop_Cons [OF p] by auto
  note one = scan_steps(4) [OF f(1), unfolded f(2), OF c, of i 0 "[]" "[]"]
  show ?thesis
  proof (cases r)
    case Nil
    then have "length p = Suc (Suc i)" using f by (simp add: le_antisym)
    then show ?thesis unfolding one using p Nil by (simp add: scan_steps(1))
  next
    case (Cons h r')
    then have g: "Suc (Suc i) < length p" "p ! Suc (Suc i) = h" using drop_Cons [of "Suc (Suc i)" p h r'] f(3) by auto
    have "\<not> name_char (p ! Suc (Suc i))" using stop Cons g(2) by simp
    from scan_steps(2) [OF g(1) this, of i 0 "[]" "[]"] show ?thesis
      unfolding one using g p by (simp add: substr_def)
  qed
qed

text \<open>Inside the braces nothing but the closing one stops.\<close>

lemma scan_braces:
  assumes "drop n p = f @ CHR ''}'' # r" and "CHR ''}'' \<notin> set f" and "str \<noteq> []"
  shows "scan p i n True fb str [] = (n + length f + 1, False, str, substr p (fb + 1) (n + length f - fb - 1))"
  using assms
proof (induction f arbitrary: n)
  case Nil
  then have "n < length p" "p ! n = CHR ''}''" using drop_Cons [of n p] by auto
  from scan_steps(5) [OF this] show ?case by simp
next
  case (Cons a f)
  then have f: "n < length p" "p ! n = a" "drop (Suc n) p = f @ CHR ''}'' # r" "p ! n \<noteq> CHR ''}''"
    using drop_Cons [of n p] by auto
  from scan_steps(6) [OF f(1,4) Cons.prems(3)] show ?case using Cons.IH [OF f(3)] Cons.prems by simp
qed

lemma scan_format:
  assumes p: "drop (Suc i) p = c # CHR ''{'' # f @ CHR ''}'' # r" and c: "isalpha c" and f: "CHR ''}'' \<notin> set f"
  shows "scan p i (Suc i) False 0 [] [] = (i + length f + 4, False, [c], f)"
proof -
  have p2: "drop (Suc (Suc i)) p = CHR ''{'' # f @ CHR ''}'' # r" using drop_Cons [OF p] by simp
  have g: "Suc (Suc i) < length p" "p ! Suc (Suc i) = CHR ''{''" "drop (Suc (Suc (Suc i))) p = f @ CHR ''}'' # r"
    using drop_Cons [OF p2] by auto
  have s: "substr p (Suc i) 1 = [c]" using p by (simp add: substr_def)
  have h: "Suc i < length p" "p ! Suc i = c" using drop_Cons [OF p] by auto
  have "scan p i (Suc i) False 0 [] [] = scan p i (Suc (Suc i)) False 0 [] []"
    using scan_steps(4) [OF h(1), unfolded h(2), OF c, of i 0 "[]" "[]"] g(1) by simp
  also have "\<dots> = scan p i (Suc (Suc (Suc i))) True (Suc (Suc i)) [c] []"
    using scan_steps(3) [OF g(1,2), of i 0 "[]" "[]"] s by simp
  also have "\<dots> = (i + length f + 4, False, [c], f)"
    using scan_braces [OF g(3) f, of "[c]" i "Suc (Suc i)"] g(3) by (simp add: substr_def)
  finally show ?thesis .
qed

text \<open>The outer loop over literal text.\<close>

lemma parse_literal:
  assumes "drop i p = s @ r" and "CHR ''%'' \<notin> set s"
  shows "parse_loop p i nstr vec err = parse_loop p (i + length s) (nstr @ s) vec err"
  using assms
proof (induction s arbitrary: i nstr)
  case (Cons a s)
  then have f: "i < length p" "p ! i = a" "drop (Suc i) p = s @ r" "a \<noteq> CHR ''%''"
    using drop_Cons [of i p] by auto
  then have "parse_loop p i nstr vec err = parse_loop p (Suc i) (nstr @ [a]) vec err"
    by (subst parse_loop.simps) simp
  then show ?case using Cons.IH [OF f(3)] Cons.prems by simp
qed simp

text \<open>The outer loop over a directive that is not a doubled percent sign.\<close>

lemma parse_directive:
  assumes p: "drop i p = CHR ''%'' # r" and np: "case r of [] \<Rightarrow> True | h # _ \<Rightarrow> h \<noteq> CHR ''%''"
    and sc: "scan p i (Suc i) False 0 [] [] = (n, False, str, fmt)"
  shows "parse_loop p i nstr vec err = parse_loop p n [] (vec @ flush nstr @ [(str, fmt, True)]) err"
proof -
  have f: "i < length p" "p ! i = CHR ''%''" "drop (Suc i) p = r" using drop_Cons [OF p] by auto
  have "\<not> (Suc i < length p \<and> p ! Suc i = CHR ''%'')"
  proof
    assume a: "Suc i < length p \<and> p ! Suc i = CHR ''%''"
    then have "r = p ! Suc i # drop (Suc (Suc i)) p" using f(3) Cons_nth_drop_Suc by metis
    then show False using np a by simp
  qed
  then show ?thesis using f sc by (subst parse_loop.simps) (auto simp: flush_def)
qed

lemma parse_toks:
  assumes "drop i p = render ts" and "wf_toks ts"
  shows "\<exists>nstr' vec'. parse_loop p i nstr vec err = (nstr', vec', err) \<and> vec' @ flush nstr' = vec @ pieces nstr ts"
  using assms
proof (induction ts arbitrary: i nstr vec rule: render.induct)
  case 1
  then show ?case by (subst parse_loop.simps) simp
next
  case (2 s ts)
  then have d: "drop (i + length s) p = render ts" by (metis add.commute append_eq_conv_conj drop_drop render.simps(2))
  show ?case
    using 2(1) [OF d, of "nstr @ s" vec] 2(2,3) parse_literal [of i p s "render ts" nstr vec err] by simp
next
  case (3 c ts)
  then have d: "drop i p = CHR ''%'' # c # render ts" by simp
  from drop_Cons [OF d] have d1: "drop (Suc i) p = c # render ts" by simp
  from drop_Cons [OF d1] have d2: "drop (Suc (Suc i)) p = render ts" by simp
  have w: "isalpha c" "case render ts of [] \<Rightarrow> True | h # _ \<Rightarrow> \<not> name_char h" using 3(3) by auto
  note sc = scan_plain [OF d1 w]
  show ?case
    using 3(1) [OF d2, of "[]" "vec @ flush nstr @ [([c], [], True)]"] 3(3)
      parse_directive [OF d _ sc, of nstr vec err] isalpha_facts [OF w(1)] by simp
next
  case (4 c f ts)
  then have d: "drop i p = CHR ''%'' # c # CHR ''{'' # f @ CHR ''}'' # render ts" by simp
  from drop_Cons [OF d] have d1: "drop (Suc i) p = c # CHR ''{'' # f @ CHR ''}'' # render ts" by simp
  have w: "isalpha c" "CHR ''}'' \<notin> set f" using 4(3) by auto
  note sc = scan_format [OF d1 w]
  have "drop (i + length f + 4) p = drop (length f + 3) (drop (Suc i) p)" by (simp add: add.commute)
  also have "drop (Suc i) p = (c # CHR ''{'' # f @ ''}'') @ render ts" using d1 by simp
  also have "drop (length f + 3) ((c # CHR ''{'' # f @ ''}'') @ render ts) = render ts"
    unfolding drop_append by simp
  finally have d2: "drop (i + length f + 4) p = render ts" .
  show ?case
    using 4(1) [OF d2, of "[]" "vec @ flush nstr @ [([c], f, True)]"] 4(3)
      parse_directive [OF d _ sc, of nstr vec err] isalpha_facts [OF w(1)] by simp
qed

text \<open>The letters of the directives of a pattern.\<close>

fun letters :: "tok list \<Rightarrow> char list" where
  "letters [] = []"
| "letters (Lit s # ts) = letters ts"
| "letters (Dir c # ts) = c # letters ts"
| "letters (DirFmt c f # ts) = c # letters ts"

definition known :: "char \<Rightarrow> bool" where
  "known c \<longleftrightarrow> c \<in> set ''mprctndflTFN''"

lemma item_letter: "snd (item_of ([c], f, True)) \<longleftrightarrow> \<not> known c"
  by (auto simp: item_of_def s_format_items_def known_def)

lemma flush_ok: "(\<exists>i \<in> set (flush nstr). snd (item_of i)) \<longleftrightarrow> False"
  by (simp add: flush_def item_of_def)

lemma pieces_error: "(\<exists>i \<in> set (pieces nstr ts). snd (item_of i)) \<longleftrightarrow> \<not> list_all known (letters ts)"
  by (induction nstr ts rule: pieces.induct) (simp_all add: flush_ok item_letter bex_Un)

text \<open>A doubled percent sign in the outer loop.\<close>

lemma parse_doubled:
  assumes "drop i p = CHR ''%'' # CHR ''%'' # r"
  shows "parse_loop p i nstr vec err = parse_loop p (Suc i) (nstr @ ''%'') vec err"
proof -
  have f: "i < length p" "p ! i = CHR ''%''" "drop (Suc i) p = CHR ''%'' # r" using drop_Cons [OF assms] by auto
  then have "Suc i < length p" "p ! Suc i = CHR ''%''" using drop_Cons [OF f(3)] by auto
  then show ?thesis using f by (subst parse_loop.simps) simp
qed

lemma LogFormatter_render:
  assumes "wf_toks ts"
  shows "LogFormatter (render ts) = \<lparr>m_pattern = render ts, m_items = map (fst \<circ> item_of) (pieces [] ts),
    m_error = (\<not> list_all known (letters ts))\<rparr>"
proof -
  obtain n v where p: "parse_loop (render ts) 0 [] [] False = (n, v, False)" "v @ flush n = pieces [] ts"
    using parse_toks [of 0 "render ts" ts "[]" "[]" False] assms by auto
  have v: "(if n \<noteq> [] then v @ [(n, [], False)] else v) = pieces [] ts"
    using p(2) by (auto simp: flush_def split: if_splits)
  show ?thesis
    unfolding LogFormatter_def p(1) prod.case Let_def v
    using pieces_error [of "[]" ts] by simp
qed

section \<open>Properties\<close>

text \<open>C22: a format pattern means what it says: written from literal text, \<open>%c\<close> and \<open>%c{format}\<close>
  (unambiguously), it parses into exactly the items of these pieces, in order, with adjacent
  literal text joined, whatever the length of the pieces; it is in error exactly when a directive's
  letter is unknown.\<close>

theorem format_parse_exact:
  assumes "wf_toks ts"
  shows "m_items (LogFormatter (render ts)) = map (fst \<circ> item_of) (pieces [] ts)
    \<and> (m_error (LogFormatter (render ts)) \<longleftrightarrow> \<not> list_all known (letters ts))
    \<and> m_pattern (LogFormatter (render ts)) = render ts"
  using LogFormatter_render [OF assms] by simp

definition default_toks :: "tok list" where
  "default_toks =
     [DirFmt (CHR ''d'') ''%Y-%m-%d %H:%M:%S'', Lit '' tid['', Dir (CHR ''t''), Lit '']'', Dir (CHR ''T''),
      Dir (CHR ''N''), Dir (CHR ''T''), Lit '' fid['', Dir (CHR ''F''), Lit '']'', Dir (CHR ''T''),
      Lit ''['', Dir (CHR ''p''), Lit '']'', Dir (CHR ''T''), Lit ''['', Dir (CHR ''c''), Lit '']'',
      Dir (CHR ''T''), Dir (CHR ''f''), Lit '':'', Dir (CHR ''l''), Dir (CHR ''T''), Dir (CHR ''m''),
      Dir (CHR ''n'')]"

theorem format_parse_exact_witness:
  "m_items (LogFormatter ''%d{%Y-%m-%d %H:%M:%S} tid[%t]%T%N%T fid[%F]%T[%p]%T[%c]%T%f:%l%T%m%n'')
     = [DateTimeFormatItem ''%Y-%m-%d %H:%M:%S'', StringFormatItem '' tid['', ThreadIdFormatItem,
        StringFormatItem '']'', TabFormatItem, ThreadNameFormatItem, TabFormatItem, StringFormatItem '' fid['',
        FiberIdFormatItem, StringFormatItem '']'', TabFormatItem, StringFormatItem ''['', LevelFormatItem,
        StringFormatItem '']'', TabFormatItem, StringFormatItem ''['', NameFormatItem, StringFormatItem '']'',
        TabFormatItem, FilenameFormatItem, StringFormatItem '':'', LineFormatItem, TabFormatItem,
        MessageFormatItem, NewLineFormatItem]
   \<and> \<not> m_error (LogFormatter ''%d{%Y-%m-%d %H:%M:%S} tid[%t]%T%N%T fid[%F]%T[%p]%T[%c]%T%f:%l%T%m%n'')"
proof -
  have r: "render default_toks = ''%d{%Y-%m-%d %H:%M:%S} tid[%t]%T%N%T fid[%F]%T[%p]%T[%c]%T%f:%l%T%m%n''"
    by (simp add: default_toks_def)
  have "wf_toks default_toks" by (simp add: default_toks_def isalpha_def name_char_def)
  from format_parse_exact [OF this] show ?thesis
    unfolding r by (simp add: default_toks_def flush_def item_of_def s_format_items_def DateTime_new_def known_def)
qed

text \<open>The escape \<open>%%\<close> that the parser announces does not work: it yields a percent sign, but the
  second sign is read again as the start of a directive, so between literal text the pattern is
  always in error and prints the text of an error item after the sign.\<close>

theorem format_percent_bug:
  assumes a: "CHR ''%'' \<notin> set a" and b: "CHR ''%'' \<notin> set b" "case b of [] \<Rightarrow> True | h # _ \<Rightarrow> \<not> name_char h"
  shows "LogFormatter (a @ ''%%'' @ b) = \<lparr>m_pattern = a @ ''%%'' @ b,
      m_items = StringFormatItem (a @ ''%'') # StringFormatItem ''<<error_format %>>''
        # (if b = [] then [] else [StringFormatItem b]), m_error = True\<rparr>"
proof -
  let ?p = "a @ ''%%'' @ b" and ?i = "length a"
  have d: "drop ?i ?p = CHR ''%'' # CHR ''%'' # b" by simp
  have d1: "drop (Suc ?i) ?p = CHR ''%'' # b" using drop_Cons [OF d] by simp
  have d2: "drop (Suc (Suc ?i)) ?p = b" using drop_Cons [OF d1] by simp
  have sc: "scan ?p (Suc ?i) (Suc (Suc ?i)) False 0 [] [] = (Suc (Suc ?i), False, [], [])"
  proof (cases b)
    case Nil
    then show ?thesis by (simp add: scan_steps(1))
  next
    case (Cons h r)
    then have "Suc (Suc ?i) < length ?p" "?p ! Suc (Suc ?i) = h"
      using drop_Cons [of "Suc (Suc ?i)" ?p h r] d2 by auto
    then show ?thesis using b(2) Cons by (simp add: scan_steps(2) substr_def)
  qed
  have np: "case b of [] \<Rightarrow> True | h # _ \<Rightarrow> h \<noteq> CHR ''%''" using b(1) by (cases b) auto
  have db: "drop (Suc (Suc ?i)) ?p = b @ []" using d2 by simp
  have end_at: "Suc (Suc ?i) + length b = length ?p" by simp
  have "parse_loop ?p 0 [] [] False = parse_loop ?p ?i a [] False"
    using parse_literal [of 0 ?p a "''%%'' @ b" "[]" "[]" False] a by simp
  also have "\<dots> = parse_loop ?p (Suc ?i) (a @ ''%'') [] False" by (rule parse_doubled [OF d])
  also have "\<dots> = parse_loop ?p (Suc (Suc ?i)) [] [(a @ ''%'', [], False), ([], [], True)] False"
    using parse_directive [OF d1 np sc, of "a @ ''%''" "[]" False] by (simp add: flush_def)
  also have "\<dots> = parse_loop ?p (length ?p) b [(a @ ''%'', [], False), ([], [], True)] False"
    using parse_literal [OF db b(1), of "[]"] unfolding end_at by simp
  also have "\<dots> = (b, [(a @ ''%'', [], False), ([], [], True)], False)" by (subst parse_loop.simps) simp
  finally show ?thesis
    by (simp add: LogFormatter_def item_of_def s_format_items_def)
qed

theorem format_percent_bug_witness:
  "m_error (LogFormatter ''100%% done'') \<and> m_items (LogFormatter ''100%% done'')
    = [StringFormatItem ''100%'', StringFormatItem ''<<error_format %>>'', StringFormatItem '' done'']"
  using format_percent_bug [of "''100''" "'' done''"] by (simp add: name_char_def isalpha_def)

end
