(* ===== verification/Yamls.thy ===== *)
theory Yamls
  imports Prelude
begin

text \<open>
  What the sources use of yaml-cpp, which is not part of the repository: a record of the calls,
  over an unknown type of nodes, that the definitions of the configuration take as an argument,
  and the documented laws of building and reading nodes that some properties assume.
\<close>

record 'n yaml_api =
  y_load :: "string \<Rightarrow> 'n result"
  y_emit :: "'n \<Rightarrow> string"
  y_is_map :: "'n \<Rightarrow> bool"
  y_is_scalar :: "'n \<Rightarrow> bool"
  y_scalar :: "'n \<Rightarrow> string"
  y_members :: "'n \<Rightarrow> ('n \<times> 'n) list"
  y_size :: "'n \<Rightarrow> nat"
  y_at :: "'n \<Rightarrow> nat \<Rightarrow> 'n"
  y_get :: "'n \<Rightarrow> string \<Rightarrow> 'n option result"
  y_as_string :: "'n \<Rightarrow> string result"
  y_str :: "string \<Rightarrow> 'n"
  y_seq :: "'n list \<Rightarrow> 'n"
  y_map :: "(string \<times> 'n) list \<Rightarrow> 'n"

text \<open>
  \<open>YAML::Load\<close>, streaming out, \<open>IsMap\<close>, \<open>IsScalar\<close>, \<open>Scalar\<close>, iteration over the pairs of a map,
  \<open>size\<close>, \<open>node[i]\<close>, \<open>node["key"]\<close> (which throws on a scalar) when it \<open>IsDefined\<close>, \<open>as<std::string>\<close>; a scalar node, the
  sequence node with these elements pushed back, and the map node with these keys assigned
  (\<open>Null\<close> nodes when nothing was pushed or assigned).

  The laws: a sequence has the elements pushed onto it, a map the keys assigned to it, in this
  order, and parsing what was streamed out gives the node back.
\<close>

definition seq_law :: "'n yaml_api \<Rightarrow> 'n list \<Rightarrow> bool" where
  "seq_law y ns \<longleftrightarrow> y_load y (y_emit y (y_seq y ns)) = Inr (y_seq y ns)
     \<and> y_size y (y_seq y ns) = length ns \<and> map (y_at y (y_seq y ns)) [0..<length ns] = ns"

definition map_law :: "'n yaml_api \<Rightarrow> (string \<times> 'n) list \<Rightarrow> bool" where
  "map_law y kns \<longleftrightarrow> y_load y (y_emit y (y_map y kns)) = Inr (y_map y kns)
     \<and> map (\<lambda>(k, n). (y_scalar y k, n)) (y_members y (y_map y kns)) = kns"

text \<open>A node reads back the elements, the (different) keys and the text it was built from.\<close>

definition node_laws :: "'n yaml_api \<Rightarrow> bool" where
  "node_laws y \<longleftrightarrow> (\<forall>ns. y_size y (y_seq y ns) = length ns \<and> (\<forall>i < length ns. y_at y (y_seq y ns) i = ns ! i))
     \<and> (\<forall>kns k. distinct (map fst kns) \<longrightarrow> y_get y (y_map y kns) k = Inr (map_of kns k)) \<and> (\<forall>s. y_as_string y (y_str y s) = Inr s)"

text \<open>Applying a fallible function along a list, left to right.\<close>

fun mapM :: "('a \<Rightarrow> 'b result) \<Rightarrow> 'a list \<Rightarrow> 'b list result" where
  "mapM f [] = Inr []"
| "mapM f (x # xs) = rbind (f x) (\<lambda>y. rbind (mapM f xs) (\<lambda>ys. Inr (y # ys)))"

lemma mapM_Inr_iff: "mapM f xs = Inr ys \<longleftrightarrow> map f xs = map Inr ys"
  by (induction xs arbitrary: ys) (auto simp: rbind_Inr_iff Cons_eq_map_conv map_eq_Cons_conv)

lemma mapM_map: "mapM f (map g xs) = mapM (\<lambda>x. f (g x)) xs"
  by (induction xs) auto

lemma mapM_cong: "(\<And>x. x \<in> set xs \<Longrightarrow> f x = g x) \<Longrightarrow> mapM f xs = mapM g xs"
  by (induction xs) auto

lemma mapM_total: "(\<And>x. x \<in> set xs \<Longrightarrow> f x = Inr (g x)) \<Longrightarrow> mapM f xs = Inr (map g xs)"
  by (induction xs) auto

end
