(* ===== verification/Loggers.thy ===== *)
theory Loggers
  imports LogFormats Yamls
begin

text \<open>
  sylar/log.h and sylar/log.cc, the part that delivers: appenders, loggers and the logger manager.
  Loggers and appenders live in an explicit store, since they are shared through pointers;
  formatters never change and are values. \<open>written\<close> is what reached the console and the files.
\<close>

section \<open>State\<close>

datatype sink = Console | File string

text \<open>\<open>StdoutLogAppender\<close> and \<open>FileLogAppender\<close> differ in their sink; \<open>a_open\<close> says that the file
  stream is good.\<close>

record appender =
  a_sink :: sink
  a_open :: bool
  a_level :: level
  a_hasFormatter :: bool
  a_formatter :: "formatter option"

record logger =
  l_name :: string
  l_level :: level
  l_appenders :: "nat list"
  l_formatter :: "formatter option"
  l_root :: "nat option"

record log_state =
  logger_at :: "nat \<Rightarrow> logger"
  appender_at :: "nat \<Rightarrow> appender"
  m_loggers :: "string \<Rightarrow> nat option"
  m_root :: nat
  written :: "(sink \<times> string) list"

definition put_logger :: "nat \<Rightarrow> logger \<Rightarrow> log_state \<Rightarrow> log_state" where
  "put_logger p l s = s\<lparr>logger_at := (logger_at s)(p := l)\<rparr>"

definition put_appender :: "nat \<Rightarrow> appender \<Rightarrow> log_state \<Rightarrow> log_state" where
  "put_appender p a s = s\<lparr>appender_at := (appender_at s)(p := a)\<rparr>"

section \<open>Appenders\<close>

definition StdoutLogAppender :: appender where
  "StdoutLogAppender = \<lparr>a_sink = Console, a_open = True, a_level = DEBUG, a_hasFormatter = False, a_formatter = None\<rparr>"

text \<open>\<open>reopen\<close>: whether opening the file succeeded is the environment's.\<close>

definition reopen :: "bool \<Rightarrow> appender \<Rightarrow> appender \<times> bool" where
  "reopen opened a = (a\<lparr>a_open := opened\<rparr>, opened)"

definition FileLogAppender :: "bool \<Rightarrow> string \<Rightarrow> appender" where
  "FileLogAppender opened filename =
     fst (reopen opened \<lparr>a_sink = File filename, a_open = True, a_level = DEBUG, a_hasFormatter = False,
       a_formatter = None\<rparr>)"

definition appender_setFormatter :: "formatter option \<Rightarrow> appender \<Rightarrow> appender" where
  "appender_setFormatter val a = a\<lparr>a_formatter := val, a_hasFormatter := (val \<noteq> None)\<rparr>"

definition appender_setLevel :: "level \<Rightarrow> appender \<Rightarrow> appender" where
  "appender_setLevel v a = a\<lparr>a_level := v\<rparr>"

text \<open>The two \<open>log\<close> functions; what is written to a bad stream is lost. The call is virtual.\<close>

definition StdoutLogAppender_log ::
    "(string \<Rightarrow> u64 \<Rightarrow> string) \<Rightarrow> level \<Rightarrow> event \<Rightarrow> nat \<Rightarrow> log_state \<Rightarrow> log_state result" where
  "StdoutLogAppender_log strf level e p s =
     (let a = appender_at s p
      in if a_level a \<le> level
         then case a_formatter a of
             None \<Rightarrow> Inl (Undefined ''null formatter'')
           | Some f \<Rightarrow> rbind (format strf (\<lambda>l. l_name (logger_at s l)) level e f)
               (\<lambda>txt. Inr (s\<lparr>written := written s @ [(Console, txt)]\<rparr>))
         else Inr s)"

definition FileLogAppender_log ::
    "(string \<Rightarrow> u64 \<Rightarrow> string) \<Rightarrow> level \<Rightarrow> event \<Rightarrow> nat \<Rightarrow> log_state \<Rightarrow> log_state result" where
  "FileLogAppender_log strf level e p s =
     (let a = appender_at s p
      in if a_level a \<le> level
         then case a_formatter a of
             None \<Rightarrow> Inl (Undefined ''null formatter'')
           | Some f \<Rightarrow> rbind (format strf (\<lambda>l. l_name (logger_at s l)) level e f)
               (\<lambda>txt. Inr (s\<lparr>written := written s @ (if a_open a then [(a_sink a, txt)] else [])\<rparr>))
         else Inr s)"

definition appender_log ::
    "(string \<Rightarrow> u64 \<Rightarrow> string) \<Rightarrow> level \<Rightarrow> event \<Rightarrow> nat \<Rightarrow> log_state \<Rightarrow> log_state result" where
  "appender_log strf level e p s =
     (case a_sink (appender_at s p) of
        Console \<Rightarrow> StdoutLogAppender_log strf level e p s | File _ \<Rightarrow> FileLogAppender_log strf level e p s)"

text \<open>An appender whose output arrives.\<close>

definition good :: "appender \<Rightarrow> bool" where
  "good a \<longleftrightarrow> a_sink a = Console \<or> a_open a"

lemma appender_log_eq:
  "appender_log strf level e p s =
     (let a = appender_at s p
      in if a_level a \<le> level
         then case a_formatter a of
             None \<Rightarrow> Inl (Undefined ''null formatter'')
           | Some f \<Rightarrow> rbind (format strf (\<lambda>l. l_name (logger_at s l)) level e f)
               (\<lambda>txt. Inr (s\<lparr>written := written s @ (if good a then [(a_sink a, txt)] else [])\<rparr>))
         else Inr s)"
  by (cases "a_sink (appender_at s p)")
    (simp_all add: appender_log_def StdoutLogAppender_log_def FileLogAppender_log_def good_def Let_def cong: option.case_cong)

section \<open>Loggers\<close>

definition default_pattern :: string where
  "default_pattern = ''%d{%Y-%m-%d %H:%M:%S} tid[%t]%T%N%T fid[%F]%T[%p]%T[%c]%T%f:%l%T%m%n''"

definition Logger_new :: "string \<Rightarrow> logger" where
  "Logger_new name = \<lparr>l_name = name, l_level = DEBUG, l_appenders = [],
     l_formatter = Some (LogFormatter default_pattern), l_root = None\<rparr>"

definition logger_setLevel :: "nat \<Rightarrow> level \<Rightarrow> log_state \<Rightarrow> log_state" where
  "logger_setLevel lg v s = put_logger lg ((logger_at s lg)\<lparr>l_level := v\<rparr>) s"

text \<open>The loop of \<open>setFormatter\<close> over the appenders.\<close>

fun propagate :: "formatter option \<Rightarrow> nat list \<Rightarrow> log_state \<Rightarrow> log_state" where
  "propagate f [] s = s"
| "propagate f (p # ps) s =
     propagate f ps (if \<not> a_hasFormatter (appender_at s p)
       then put_appender p ((appender_at s p)\<lparr>a_formatter := f\<rparr>) s else s)"

definition setFormatter :: "nat \<Rightarrow> formatter option \<Rightarrow> log_state \<Rightarrow> log_state" where
  "setFormatter lg val s =
     (let s1 = put_logger lg ((logger_at s lg)\<lparr>l_formatter := val\<rparr>) s
      in propagate val (l_appenders (logger_at s1 lg)) s1)"

definition setFormatter_str :: "nat \<Rightarrow> string \<Rightarrow> log_state \<Rightarrow> log_state" where
  "setFormatter_str lg val s =
     (let new_val = LogFormatter val in if m_error new_val then s else setFormatter lg (Some new_val) s)"

definition addAppender :: "nat \<Rightarrow> nat \<Rightarrow> log_state \<Rightarrow> log_state" where
  "addAppender lg ap s =
     (let s1 = (if a_formatter (appender_at s ap) = None
                then put_appender ap ((appender_at s ap)\<lparr>a_formatter := l_formatter (logger_at s lg)\<rparr>) s else s)
      in put_logger lg ((logger_at s1 lg)\<lparr>l_appenders := l_appenders (logger_at s1 lg) @ [ap]\<rparr>) s1)"

definition delAppender :: "nat \<Rightarrow> nat \<Rightarrow> log_state \<Rightarrow> log_state" where
  "delAppender lg ap s = put_logger lg ((logger_at s lg)\<lparr>l_appenders := remove1 ap (l_appenders (logger_at s lg))\<rparr>) s"

definition clearAppenders :: "nat \<Rightarrow> log_state \<Rightarrow> log_state" where
  "clearAppenders lg s = put_logger lg ((logger_at s lg)\<lparr>l_appenders := []\<rparr>) s"

fun log_all ::
    "(string \<Rightarrow> u64 \<Rightarrow> string) \<Rightarrow> level \<Rightarrow> event \<Rightarrow> nat list \<Rightarrow> log_state \<Rightarrow> log_state result" where
  "log_all strf level e [] s = Inr s"
| "log_all strf level e (p # ps) s = rbind (appender_log strf level e p s) (log_all strf level e ps)"

text \<open>\<open>Logger::log\<close>, which calls itself on \<open>m_root\<close>; the number bounds the chain of calls.\<close>

primrec Logger_log ::
    "(string \<Rightarrow> u64 \<Rightarrow> string) \<Rightarrow> level \<Rightarrow> event \<Rightarrow> nat \<Rightarrow> nat \<Rightarrow> log_state \<Rightarrow> log_state result option" where
  "Logger_log strf level e 0 lg s = None"
| "Logger_log strf level e (Suc n) lg s =
     (let l = logger_at s lg
      in if l_level l \<le> level
         then if l_appenders l \<noteq> [] then Some (log_all strf level e (l_appenders l) s)
              else case l_root l of Some r \<Rightarrow> Logger_log strf level e n r s | None \<Rightarrow> Some (Inr s)
         else Some (Inr s))"

definition Logger_debug where "Logger_debug strf e = Logger_log strf DEBUG e"
definition Logger_info where "Logger_info strf e = Logger_log strf INFO e"
definition Logger_warn where "Logger_warn strf e = Logger_log strf WARN e"
definition Logger_error where "Logger_error strf e = Logger_log strf ERROR e"
definition Logger_fatal where "Logger_fatal strf e = Logger_log strf FATAL e"

text \<open>\<open>SYLAR_LOG_LEVEL(logger, level) << text\<close>: the event is made only if the logger's level admits
  it, and logged by the destructor of \<open>LogEventWrap\<close>.\<close>

definition LogEventWrap_delete ::
    "(string \<Rightarrow> u64 \<Rightarrow> string) \<Rightarrow> nat \<Rightarrow> event \<Rightarrow> log_state \<Rightarrow> log_state result option" where
  "LogEventWrap_delete strf n e s = Logger_log strf (m_elevel e) e n (m_logger e) s"

definition SYLAR_LOG_LEVEL ::
    "(string \<Rightarrow> u64 \<Rightarrow> string) \<Rightarrow> nat \<Rightarrow> event \<Rightarrow> log_state \<Rightarrow> log_state result option" where
  "SYLAR_LOG_LEVEL strf n e s =
     (if l_level (logger_at s (m_logger e)) \<le> m_elevel e then LogEventWrap_delete strf n e s else Some (Inr s))"

section \<open>The manager\<close>

text \<open>The constructor: \<open>r\<close> and \<open>a\<close> are the addresses of the root logger and its appender.\<close>

definition LoggerManager :: "nat \<Rightarrow> nat \<Rightarrow> log_state \<Rightarrow> log_state" where
  "LoggerManager r a s =
     (let s1 = (put_appender a StdoutLogAppender (put_logger r (Logger_new ''root'') s))\<lparr>m_root := r\<rparr>;
          s2 = addAppender r a s1
      in s2\<lparr>m_loggers := [l_name (logger_at s2 r) \<mapsto> r]\<rparr>)"

definition getLogger :: "nat \<Rightarrow> string \<Rightarrow> log_state \<Rightarrow> log_state \<times> nat" where
  "getLogger new name s =
     (case m_loggers s name of
        Some lg \<Rightarrow> (s, lg)
      | None \<Rightarrow> ((put_logger new ((Logger_new name)\<lparr>l_root := Some (m_root s)\<rparr>) s)
                   \<lparr>m_loggers := (m_loggers s)(name \<mapsto> new)\<rparr>, new))"

section \<open>YAML\<close>

definition level_entry :: "'n yaml_api \<Rightarrow> level \<Rightarrow> (string \<times> 'n) list" where
  "level_entry y v = (if v \<noteq> UNKNOW then [(''level'', y_str y (ToString v))] else [])"

definition formatter_entry :: "'n yaml_api \<Rightarrow> appender \<Rightarrow> (string \<times> 'n) list" where
  "formatter_entry y a =
     (case a_formatter a of
        Some f \<Rightarrow> if a_hasFormatter a then [(''formatter'', y_str y (m_pattern f))] else []
      | None \<Rightarrow> [])"

definition StdoutLogAppender_toYaml :: "'n yaml_api \<Rightarrow> appender \<Rightarrow> string" where
  "StdoutLogAppender_toYaml y a =
     y_emit y (y_map y ((''type'', y_str y ''StdoutLogAppender'') # level_entry y (a_level a) @ formatter_entry y a))"

definition FileLogAppender_toYaml :: "'n yaml_api \<Rightarrow> string \<Rightarrow> appender \<Rightarrow> string" where
  "FileLogAppender_toYaml y m_filename a =
     y_emit y (y_map y ((''type'', y_str y ''FileLogAppender'') # (''file'', y_str y m_filename)
       # level_entry y (a_level a) @ formatter_entry y a))"

definition appender_toYaml :: "'n yaml_api \<Rightarrow> appender \<Rightarrow> string" where
  "appender_toYaml y a =
     (case a_sink a of Console \<Rightarrow> StdoutLogAppender_toYaml y a | File f \<Rightarrow> FileLogAppender_toYaml y f a)"

definition logger_toYaml :: "'n yaml_api \<Rightarrow> nat \<Rightarrow> log_state \<Rightarrow> string result" where
  "logger_toYaml y lg s =
     (let l = logger_at s lg
      in rbind (mapM (\<lambda>p. y_load y (appender_toYaml y (appender_at s p))) (l_appenders l))
          (\<lambda>as. Inr (y_emit y (y_map y
             ((''name'', y_str y (l_name l)) # level_entry y (l_level l)
              @ (case l_formatter l of Some f \<Rightarrow> [(''formatter'', y_str y (m_pattern f))] | None \<Rightarrow> [])
              @ (if as \<noteq> [] then [(''appenders'', y_seq y as)] else []))))))"

text \<open>\<open>m_loggers\<close> is a \<open>std::map\<close>: \<open>names\<close> are its keys in order.\<close>

definition manager_toYaml :: "'n yaml_api \<Rightarrow> string list \<Rightarrow> log_state \<Rightarrow> string result" where
  "manager_toYaml y names s =
     rbind (mapM (\<lambda>n. rbind (logger_toYaml y (the (m_loggers s n)) s) (y_load y)) names)
      (\<lambda>ns. Inr (y_emit y (y_seq y ns)))"

section \<open>What stays true of the loggers\<close>

text \<open>The calls a program makes on loggers, appenders and the manager. Appenders are given
  formatters, never null ones: \<open>setFormatter(nullptr)\<close> on an appender, which the source accepts, is
  left out, as the next line it is given would be formatted through the null pointer.\<close>

inductive log_step :: "(string \<Rightarrow> u64 \<Rightarrow> string) \<Rightarrow> log_state \<Rightarrow> log_state \<Rightarrow> bool" for strf where
  ls_get: "new \<notin> ran (m_loggers s) \<Longrightarrow> log_step strf s (fst (getLogger new name s))"
| ls_new: "(\<And>lg. lg \<in> ran (m_loggers s) \<Longrightarrow> ap \<notin> set (l_appenders (logger_at s lg)))
     \<Longrightarrow> log_step strf s (put_appender ap a s)"
| ls_level: "log_step strf s (logger_setLevel lg v s)"
| ls_app_level: "log_step strf s (put_appender ap (appender_setLevel v (appender_at s ap)) s)"
| ls_app_formatter: "log_step strf s (put_appender ap (appender_setFormatter (Some f) (appender_at s ap)) s)"
| ls_formatter: "log_step strf s (setFormatter lg (Some f) s)"
| ls_formatter_str: "log_step strf s (setFormatter_str lg val s)"
| ls_add: "lg \<in> ran (m_loggers s) \<Longrightarrow> log_step strf s (addAppender lg ap s)"
| ls_del: "log_step strf s (delAppender lg ap s)"
| ls_clear: "log_step strf s (clearAppenders lg s)"
| ls_log: "Logger_log strf level e n lg s = Some (Inr s') \<Longrightarrow> log_step strf s s'"

inductive log_reach :: "(string \<Rightarrow> u64 \<Rightarrow> string) \<Rightarrow> log_state \<Rightarrow> bool" for strf where
  lr_start: "log_reach strf (LoggerManager r a s)"
| lr_next: "log_reach strf s \<Longrightarrow> log_step strf s s' \<Longrightarrow> log_reach strf s'"

definition logger_ok :: "log_state \<Rightarrow> string \<Rightarrow> nat \<Rightarrow> bool" where
  "logger_ok s n lg \<longleftrightarrow> l_name (logger_at s lg) = n \<and> l_formatter (logger_at s lg) \<noteq> None
     \<and> l_root (logger_at s lg) = (if lg = m_root s then None else Some (m_root s))
     \<and> (\<forall>ap \<in> set (l_appenders (logger_at s lg)). a_formatter (appender_at s ap) \<noteq> None)"

definition log_inv :: "log_state \<Rightarrow> bool" where
  "log_inv s \<longleftrightarrow> m_loggers s ''root'' = Some (m_root s)
     \<and> (\<forall>n lg. m_loggers s n = Some lg \<longrightarrow> logger_ok s n lg)"

lemma log_inv_mono:
  assumes inv: "log_inv s" and m: "m_loggers s' = m_loggers s" "m_root s' = m_root s"
    and l: "\<And>lg. l_name (logger_at s' lg) = l_name (logger_at s lg) \<and> l_root (logger_at s' lg) = l_root (logger_at s lg)
      \<and> (l_formatter (logger_at s lg) \<noteq> None \<longrightarrow> l_formatter (logger_at s' lg) \<noteq> None)"
    and a: "\<And>lg ap. lg \<in> ran (m_loggers s) \<Longrightarrow> ap \<in> set (l_appenders (logger_at s' lg))
      \<Longrightarrow> a_formatter (appender_at s' ap) \<noteq> None"
  shows "log_inv s'"
proof -
  have "logger_ok s' n lg" if "m_loggers s n = Some lg" for n lg
  proof -
    have "logger_ok s n lg" using inv that by (simp add: log_inv_def)
    moreover have "lg \<in> ran (m_loggers s)" using that by (rule ranI)
    ultimately show ?thesis using l [of lg] a [of lg] m(2) by (auto simp: logger_ok_def)
  qed
  then show ?thesis using inv m by (simp add: log_inv_def)
qed

lemma attached_formatter:
  "log_inv s \<Longrightarrow> lg \<in> ran (m_loggers s) \<Longrightarrow> ap \<in> set (l_appenders (logger_at s lg))
    \<Longrightarrow> a_formatter (appender_at s ap) \<noteq> None"
  by (auto simp: log_inv_def logger_ok_def ran_def)

lemma put_frames [simp]:
  "logger_at (put_logger p l s) = (logger_at s)(p := l)" "appender_at (put_logger p l s) = appender_at s"
  "m_loggers (put_logger p l s) = m_loggers s" "m_root (put_logger p l s) = m_root s"
  "written (put_logger p l s) = written s"
  "appender_at (put_appender q a s) = (appender_at s)(q := a)" "logger_at (put_appender q a s) = logger_at s"
  "m_loggers (put_appender q a s) = m_loggers s" "m_root (put_appender q a s) = m_root s"
  "written (put_appender q a s) = written s"
  by (simp_all add: put_logger_def put_appender_def)

lemma propagate_frames [simp]:
  "logger_at (propagate f ps s) = logger_at s" "m_loggers (propagate f ps s) = m_loggers s"
  "m_root (propagate f ps s) = m_root s" "written (propagate f ps s) = written s"
  by (induction f ps s rule: propagate.induct) simp_all

text \<open>What the propagation does to every appender.\<close>

lemma propagate_appender:
  "appender_at (propagate f ps s) p
    = (if p \<in> set ps \<and> \<not> a_hasFormatter (appender_at s p) then (appender_at s p)\<lparr>a_formatter := f\<rparr>
       else appender_at s p)"
  by (induction f ps s rule: propagate.induct) (auto split: if_splits)

lemma written_id: "\<exists>w. s = s\<lparr>written := w\<rparr>"
  by (rule exI [of _ "written s"]) simp

lemma appender_log_frames:
  "appender_log strf level e p s = Inr s' \<Longrightarrow> \<exists>w. s' = s\<lparr>written := w\<rparr>"
  by (auto simp: appender_log_eq Let_def rbind_Inr_iff intro: written_id split: if_splits option.splits)

lemma log_all_frames: "log_all strf level e ps s = Inr s' \<Longrightarrow> \<exists>w. s' = s\<lparr>written := w\<rparr>"
proof (induction strf level e ps s rule: log_all.induct)
  case (1 strf level e s)
  then show ?case using written_id by simp
next
  case (2 strf level e p ps s)
  then obtain s1 where s1: "appender_log strf level e p s = Inr s1" "log_all strf level e ps s1 = Inr s'"
    by (auto simp: rbind_Inr_iff)
  then show ?case using 2(1) [OF s1(2)] appender_log_frames [OF s1(1)] by auto
qed

lemma Logger_log_frames: "Logger_log strf level e n lg s = Some (Inr s') \<Longrightarrow> \<exists>w. s' = s\<lparr>written := w\<rparr>"
proof (induction n arbitrary: lg)
  case (Suc n)
  then show ?case
    using log_all_frames [of strf level e "l_appenders (logger_at s lg)" s s']
    by (auto simp: Let_def intro: written_id split: if_splits option.splits)
qed simp

lemma log_inv_start: "log_inv (LoggerManager r a s)"
  by (simp add: LoggerManager_def Let_def addAppender_def log_inv_def logger_ok_def StdoutLogAppender_def Logger_new_def)

lemma log_inv_get:
  assumes inv: "log_inv s" and new: "new \<notin> ran (m_loggers s)"
  shows "log_inv (fst (getLogger new name s))"
proof (cases "m_loggers s name")
  case None
  have nr: "new \<noteq> m_root s" using inv new by (auto simp: log_inv_def ran_def)
  have "name \<noteq> ''root''" using None inv by (auto simp: log_inv_def)
  moreover have "lg \<noteq> new" if "m_loggers s n = Some lg" for n lg using that new by (auto simp: ran_def)
  ultimately show ?thesis
    using inv nr None by (auto simp: getLogger_def log_inv_def logger_ok_def Logger_new_def)
qed (use inv in \<open>simp add: getLogger_def\<close>)

lemma log_inv_step: "log_step strf s s' \<Longrightarrow> log_inv s \<Longrightarrow> log_inv s'"
proof (induction rule: log_step.induct)
  case (ls_get new s name)
  then show ?case using log_inv_get by blast
next
  case (ls_new s ap a)
  then show ?case using attached_formatter [OF ls_new(2)] by (intro log_inv_mono [OF ls_new(2)]) auto
next
  case (ls_level s lg v)
  show ?case
    by (rule log_inv_mono [OF ls_level]) (use attached_formatter [OF ls_level] in \<open>auto simp: logger_setLevel_def split: if_splits\<close>)
next
  case (ls_app_level s ap v)
  show ?case
    by (rule log_inv_mono [OF ls_app_level])
      (use attached_formatter [OF ls_app_level] in \<open>auto simp: appender_setLevel_def\<close>)
next
  case (ls_app_formatter s ap f)
  show ?case
    by (rule log_inv_mono [OF ls_app_formatter])
      (use attached_formatter [OF ls_app_formatter] in \<open>auto simp: appender_setFormatter_def\<close>)
next
  case (ls_formatter s lg f)
  show ?case
    by (rule log_inv_mono [OF ls_formatter])
      (use attached_formatter [OF ls_formatter] in
        \<open>auto simp: setFormatter_def Let_def propagate_appender split: if_splits\<close>)
next
  case (ls_formatter_str s lg val)
  have "log_inv (setFormatter lg (Some (LogFormatter val)) s)"
    by (rule log_inv_mono [OF ls_formatter_str])
      (use attached_formatter [OF ls_formatter_str] in
        \<open>auto simp: setFormatter_def Let_def propagate_appender split: if_splits\<close>)
  then show ?case using ls_formatter_str by (simp add: setFormatter_str_def Let_def)
next
  case (ls_add lg s ap)
  have "l_formatter (logger_at s lg) \<noteq> None" using ls_add by (auto simp: log_inv_def logger_ok_def ran_def)
  then show ?case
    by (intro log_inv_mono [OF ls_add(2)])
      (use attached_formatter [OF ls_add(2)] ls_add(1) in \<open>auto simp: addAppender_def Let_def split: if_splits\<close>)
next
  case (ls_del s lg ap)
  show ?case
    by (rule log_inv_mono [OF ls_del])
      (use attached_formatter [OF ls_del] in \<open>auto simp: delAppender_def split: if_splits dest: notin_set_remove1\<close>)
next
  case (ls_clear s lg)
  show ?case
    by (rule log_inv_mono [OF ls_clear]) (use attached_formatter [OF ls_clear] in \<open>auto simp: clearAppenders_def split: if_splits\<close>)
next
  case (ls_log level e n lg s s')
  then obtain w where "s' = s\<lparr>written := w\<rparr>" using Logger_log_frames by blast
  then show ?case using ls_log(2) by (simp add: log_inv_def logger_ok_def)
qed

lemma log_reach_inv: "log_reach strf s \<Longrightarrow> log_inv s"
  by (induction rule: log_reach.induct) (auto simp: log_inv_start intro: log_inv_step)

section \<open>What is delivered\<close>

definition delivered_by :: "(string \<Rightarrow> u64 \<Rightarrow> string) \<Rightarrow> level \<Rightarrow> event \<Rightarrow> log_state \<Rightarrow> nat \<Rightarrow> (sink \<times> string) list" where
  "delivered_by strf level e s p =
     (let a = appender_at s p
      in if a_level a \<le> level \<and> good a
         then [(a_sink a, projr (format strf (\<lambda>l. l_name (logger_at s l)) level e (the (a_formatter a))))] else [])"

text \<open>The appenders an event of a logger goes to.\<close>

definition recipients :: "log_state \<Rightarrow> level \<Rightarrow> nat \<Rightarrow> nat list" where
  "recipients s level lg =
     (if l_level (logger_at s lg) \<le> level
      then (if l_appenders (logger_at s lg) \<noteq> [] then l_appenders (logger_at s lg)
            else if l_level (logger_at s (m_root s)) \<le> level then l_appenders (logger_at s (m_root s)) else [])
      else [])"

lemma format_items_total:
  "(\<And>fmt t. length (strf fmt t) < 64) \<Longrightarrow> \<exists>txt. format_items strf names level e its = Inr txt"
proof (induction its)
  case (Cons i its)
  then have "\<exists>t. format_item strf names level e i = Inr t" by (cases i) (simp_all add: format_item_def)
  then show ?case using Cons by auto
qed simp

lemma delivered_written: "delivered_by strf level e (s\<lparr>written := w\<rparr>) = delivered_by strf level e s"
  by (rule ext) (simp add: delivered_by_def Let_def)

lemma log_all_outcome:
  assumes "\<And>fmt t. length (strf fmt t) < 64" and "\<And>p. p \<in> set ps \<Longrightarrow> a_formatter (appender_at s p) \<noteq> None"
  shows "log_all strf level e ps s
    = Inr (s\<lparr>written := written s @ concat (map (delivered_by strf level e s) ps)\<rparr>)"
  using assms(2)
proof (induction ps arbitrary: s)
  case (Cons p ps)
  obtain f where f: "a_formatter (appender_at s p) = Some f" using Cons.prems [of p] by auto
  obtain out where t: "format strf (\<lambda>l. l_name (logger_at s l)) level e f = Inr out"
    using format_items_total [where strf = strf, OF assms(1)] unfolding format_def by metis
  let ?s = "s\<lparr>written := written s @ delivered_by strf level e s p\<rparr>"
  have "appender_log strf level e p s = Inr ?s"
    using f t by (simp add: appender_log_eq delivered_by_def Let_def)
  moreover have "delivered_by strf level e ?s = delivered_by strf level e s" by (rule delivered_written)
  ultimately show ?case using Cons.IH [of ?s] Cons.prems by simp
qed simp

lemma Logger_log_outcome:
  assumes strf: "\<And>fmt t. length (strf fmt t) < 64" and inv: "log_inv s" and lg: "m_loggers s name = Some lg"
  shows "Logger_log strf level e (Suc (Suc n)) lg s = Some (Inr
    (s\<lparr>written := written s @ concat (map (delivered_by strf level e s) (recipients s level lg))\<rparr>))"
proof -
  have ok: "logger_ok s name lg" "logger_ok s ''root'' (m_root s)" using inv lg by (auto simp: log_inv_def)
  note out = log_all_outcome [OF strf, of _ s]
  show ?thesis
    using ok by (auto simp: Let_def recipients_def out logger_ok_def)
qed

section \<open>A program that logs\<close>

text \<open>The state of the witnesses: the manager (root logger 0, its console appender 5) with a logger
  "system" at 2 and a short root pattern.\<close>

definition ldemo_strf :: "string \<Rightarrow> u64 \<Rightarrow> string" where
  "ldemo_strf fmt t = ''2023-05-07''"

definition ldemo0 :: log_state where
  "ldemo0 = LoggerManager 0 5 \<lparr>logger_at = \<lambda>_. Logger_new [], appender_at = \<lambda>_. StdoutLogAppender,
     m_loggers = (\<lambda>_. None), m_root = 0, written = []\<rparr>"

definition ldemo1 :: log_state where
  "ldemo1 = setFormatter_str 0 ''[%p] %c: %m'' ldemo0"

definition ldemo :: log_state where
  "ldemo = fst (getLogger 2 ''system'' ldemo1)"

definition ldemo_event :: event where
  "ldemo_event = stream_in ''ready'' (LogEvent 2 WARN ''main.cc'' 12 0 100 0 1683417600 ''main'')"

definition ldemo_formatter :: formatter where
  "ldemo_formatter = \<lparr>m_pattern = ''[%p] %c: %m'', m_items = [StringFormatItem ''['', LevelFormatItem,
     StringFormatItem ''] '', NameFormatItem, StringFormatItem '': '', MessageFormatItem], m_error = False\<rparr>"

lemma ldemo_pattern: "LogFormatter ''[%p] %c: %m'' = ldemo_formatter"
proof -
  let ?t = "[Lit ''['', Dir (CHR ''p''), Lit ''] '', Dir (CHR ''c''), Lit '': '', Dir (CHR ''m'')]"
  have "wf_toks ?t" by (simp add: isalpha_def name_char_def)
  from LogFormatter_render [OF this] show ?thesis
    by (simp add: flush_def item_of_def s_format_items_def known_def ldemo_formatter_def)
qed

lemma ldemo: "log_reach ldemo_strf ldemo" "m_loggers ldemo ''system'' = Some 2" "m_root ldemo = 0"
  "l_appenders (logger_at ldemo 2) = []" "l_level (logger_at ldemo 2) = DEBUG"
  "l_appenders (logger_at ldemo 0) = [5]" "l_level (logger_at ldemo 0) = DEBUG" "l_name (logger_at ldemo 2) = ''system''"
  "appender_at ldemo 5 = StdoutLogAppender\<lparr>a_formatter := Some ldemo_formatter\<rparr>" "written ldemo = []"
proof -
  have r1: "log_reach ldemo_strf ldemo1" unfolding ldemo1_def ldemo0_def
    by (rule lr_next [OF lr_start ls_formatter_str])
  have "ran (m_loggers ldemo1) = {0}"
    by (simp add: ldemo1_def ldemo0_def setFormatter_str_def ldemo_pattern setFormatter_def Let_def LoggerManager_def
        addAppender_def Logger_new_def)
  then show "log_reach ldemo_strf ldemo" unfolding ldemo_def by (intro lr_next [OF r1] ls_get) simp
qed (simp_all add: ldemo_def ldemo1_def ldemo0_def getLogger_def setFormatter_str_def ldemo_pattern setFormatter_def
    Let_def LoggerManager_def addAppender_def Logger_new_def StdoutLogAppender_def propagate_appender ldemo_formatter_def)

section \<open>Properties\<close>

text \<open>C23: an event reaches exactly the appenders it is meant for, once each and in their order: those
  of its logger or, when it has none, those of the root logger, as far as the levels of the logger,
  the root and the appender admit it, each as the text of its own formatter; logging never
  dereferences a null formatter, and ends after at most two loggers.\<close>

theorem log_delivery_exact:
  assumes "\<And>fmt t. length (strf fmt t) < 64" and "log_reach strf s" and "m_loggers s name = Some lg"
  shows "Logger_log strf level e (Suc (Suc n)) lg s = Some (Inr
    (s\<lparr>written := written s @ concat (map (delivered_by strf level e s) (recipients s level lg))\<rparr>))"
  using assms log_reach_inv Logger_log_outcome by blast

theorem log_delivery_exact_witness:
  "Logger_log ldemo_strf WARN ldemo_event 2 2 ldemo
    = Some (Inr (ldemo\<lparr>written := [(Console, ''[WARN] system: ready'')]\<rparr>))"
proof -
  have b: "length (ldemo_strf fmt t) < 64" for fmt t by (simp add: ldemo_strf_def)
  have "Logger_log ldemo_strf WARN ldemo_event (Suc (Suc 0)) 2 ldemo = Some (Inr (ldemo\<lparr>written := written ldemo
      @ concat (map (delivered_by ldemo_strf WARN ldemo_event ldemo) (recipients ldemo WARN 2))\<rparr>))"
    by (rule log_delivery_exact [OF b ldemo(1,2)])
  then show ?thesis
    by (simp add: numeral_2_eq_2 [symmetric] recipients_def ldemo delivered_by_def good_def Let_def StdoutLogAppender_def
        less_eq_level_def ldemo_formatter_def format_def format_item_def ldemo_event_def stream_in_def LogEvent_def ToString_def del: Logger_log.simps)
qed

text \<open>A logger's new formatter goes to exactly those of its appenders that have none of their own;
  an invalid pattern changes nothing at all. An appender that is added takes over the logger's
  formatter only when it has none.\<close>

theorem log_formatter_exact:
  "(m_error (LogFormatter val) \<and> setFormatter_str lg val s = s)
    \<or> (\<not> m_error (LogFormatter val)
       \<and> logger_at (setFormatter_str lg val s) = (logger_at s)(lg := (logger_at s lg)\<lparr>l_formatter := Some (LogFormatter val)\<rparr>)
       \<and> (\<forall>p. appender_at (setFormatter_str lg val s) p =
            (if p \<in> set (l_appenders (logger_at s lg)) \<and> \<not> a_hasFormatter (appender_at s p)
             then (appender_at s p)\<lparr>a_formatter := Some (LogFormatter val)\<rparr> else appender_at s p))
       \<and> written (setFormatter_str lg val s) = written s)"
  by (auto simp: setFormatter_str_def Let_def setFormatter_def propagate_appender)

text \<open>Giving an attached appender a null formatter, which is meant to make it use its logger's,
  leaves it without any: the next event that reaches it dereferences a null pointer, until the
  logger's formatter is set again.\<close>

theorem log_null_formatter:
  assumes l: "l_appenders (logger_at s lg) = ap # ps" "l_level (logger_at s lg) \<le> level"
    and a: "a_level (appender_at s ap) \<le> level" and strf: "\<And>fmt t. length (strf fmt t) < 64"
  shows "\<exists>s1 s2. s1 = put_appender ap (appender_setFormatter None (appender_at s ap)) s
    \<and> Logger_log strf level e (Suc n) lg s1 = Some (Inl (Undefined ''null formatter''))
    \<and> appender_log strf level e ap (setFormatter lg (Some f) s1) = Inr s2"
proof -
  let ?s1 = "put_appender ap (appender_setFormatter None (appender_at s ap)) s"
  have "Logger_log strf level e (Suc n) lg ?s1 = Some (Inl (Undefined ''null formatter''))"
    using l a by (simp add: appender_log_eq appender_setFormatter_def Let_def)
  moreover let ?s2 = "setFormatter lg (Some f) ?s1"
  have "a_formatter (appender_at ?s2 ap) = Some f" "a_level (appender_at ?s2 ap) \<le> level"
    using a l by (simp_all add: setFormatter_def Let_def propagate_appender appender_setFormatter_def)
  then have "\<exists>s2. appender_log strf level e ap ?s2 = Inr s2"
    using format_items_total [where strf = strf and level = level and e = e and its = "m_items f"
        and names = "\<lambda>l. l_name (logger_at ?s2 l)", OF strf]
    by (auto simp: appender_log_eq format_def Let_def)
  ultimately show ?thesis by blast
qed

theorem log_null_formatter_witness:
  "Logger_log ldemo_strf WARN ldemo_event 1 0
     (put_appender 5 (appender_setFormatter None (appender_at ldemo 5)) ldemo) = Some (Inl (Undefined ''null formatter''))"
proof -
  have b: "length (ldemo_strf fmt t) < 64" for fmt t by (simp add: ldemo_strf_def)
  have "l_level (logger_at ldemo 0) \<le> WARN" "a_level (appender_at ldemo 5) \<le> WARN"
    by (simp_all add: ldemo less_eq_level_def StdoutLogAppender_def)
  from log_null_formatter [where strf = ldemo_strf and n = 0 and e = ldemo_event, OF ldemo(6) this b] show ?thesis
    by (simp del: Logger_log.simps)
qed

end
