(* ===== verification/Configs.thy ===== *)
theory Configs
  imports Yamls "HOL-Library.Char_ord" "HOL-Library.List_Lexorder"
begin

text \<open>
  sylar/config.h and sylar/config.cc: the casts between values and YAML text, configuration
  variables with their listeners, the registry of variables and loading it from a YAML tree.
  Values of all types are one type \<open>'v\<close>; a variable carries the name of its C++ type, and the
  conversions and the \<open>operator==\<close> of the types are an argument. Listeners are names; calling one
  is recorded in \<open>notified\<close>, with the old and the new value.
\<close>

section \<open>Casts of containers\<close>

text \<open>\<open>from\<close> and \<open>to\<close> are the casts of the elements. The loops of the sequences use \<open>node[i]\<close>,
  those of the maps the pairs of the node.\<close>

definition seq_texts :: "'n yaml_api \<Rightarrow> string \<Rightarrow> string list result" where
  "seq_texts y v = rbind (y_load y v) (\<lambda>node. Inr (map (\<lambda>i. y_emit y (y_at y node i)) [0..<y_size y node]))"

definition vector_from :: "'n yaml_api \<Rightarrow> (string \<Rightarrow> 'a result) \<Rightarrow> string \<Rightarrow> 'a list result" where
  "vector_from y from v = rbind (seq_texts y v) (mapM from)"

definition list_from :: "'n yaml_api \<Rightarrow> (string \<Rightarrow> 'a result) \<Rightarrow> string \<Rightarrow> 'a list result" where
  "list_from y from v = rbind (seq_texts y v) (mapM from)"

definition set_from :: "'n yaml_api \<Rightarrow> (string \<Rightarrow> 'a result) \<Rightarrow> string \<Rightarrow> 'a set result" where
  "set_from y from v = rbind (seq_texts y v) (\<lambda>ts. rbind (mapM from ts) (\<lambda>xs. Inr (fold insert xs {})))"

definition unordered_set_from :: "'n yaml_api \<Rightarrow> (string \<Rightarrow> 'a result) \<Rightarrow> string \<Rightarrow> 'a set result" where
  "unordered_set_from y from v = rbind (seq_texts y v) (\<lambda>ts. rbind (mapM from ts) (\<lambda>xs. Inr (fold insert xs {})))"

text \<open>The pushing loop of the sequences; \<open>xs\<close> are the elements in iteration order.\<close>

definition seq_to :: "'n yaml_api \<Rightarrow> ('a \<Rightarrow> string) \<Rightarrow> 'a list \<Rightarrow> string result" where
  "seq_to y to xs = rbind (mapM (\<lambda>x. y_load y (to x)) xs) (\<lambda>ns. Inr (y_emit y (y_seq y ns)))"

definition vector_to :: "'n yaml_api \<Rightarrow> ('a \<Rightarrow> string) \<Rightarrow> 'a list \<Rightarrow> string result" where
  "vector_to y to v = seq_to y to v"

definition list_to :: "'n yaml_api \<Rightarrow> ('a \<Rightarrow> string) \<Rightarrow> 'a list \<Rightarrow> string result" where
  "list_to y to v = seq_to y to v"

text \<open>A \<open>std::set\<close> iterates in order, an \<open>unordered_set\<close> in the order \<open>it\<close>.\<close>

definition set_to :: "'n yaml_api \<Rightarrow> ('a :: linorder \<Rightarrow> string) \<Rightarrow> 'a set \<Rightarrow> string result" where
  "set_to y to v = seq_to y to (sorted_list_of_set v)"

definition unordered_set_to :: "'n yaml_api \<Rightarrow> ('a \<Rightarrow> string) \<Rightarrow> ('a set \<Rightarrow> 'a list) \<Rightarrow> 'a set \<Rightarrow> string result" where
  "unordered_set_to y to it v = seq_to y to (it v)"

text \<open>\<open>vec.insert(std::make_pair(k, x))\<close> keeps the entry of a key that is already there.\<close>

definition insert_new :: "string \<times> 'a \<Rightarrow> (string \<Rightarrow> 'a option) \<Rightarrow> (string \<Rightarrow> 'a option)" where
  "insert_new kx m = (if m (fst kx) = None then m(fst kx \<mapsto> snd kx) else m)"

definition pairs_from :: "'n yaml_api \<Rightarrow> (string \<Rightarrow> 'a result) \<Rightarrow> string \<Rightarrow> (string \<times> 'a) list result" where
  "pairs_from y from v = rbind (y_load y v)
     (\<lambda>node. mapM (\<lambda>(k, n). rbind (from (y_emit y n)) (\<lambda>x. Inr (y_scalar y k, x))) (y_members y node))"

definition map_from :: "'n yaml_api \<Rightarrow> (string \<Rightarrow> 'a result) \<Rightarrow> string \<Rightarrow> (string \<Rightarrow> 'a option) result" where
  "map_from y from v = rbind (pairs_from y from v) (\<lambda>kxs. Inr (fold insert_new kxs (\<lambda>_. None)))"

definition unordered_map_from :: "'n yaml_api \<Rightarrow> (string \<Rightarrow> 'a result) \<Rightarrow> string \<Rightarrow> (string \<Rightarrow> 'a option) result" where
  "unordered_map_from y from v = rbind (pairs_from y from v) (\<lambda>kxs. Inr (fold insert_new kxs (\<lambda>_. None)))"

text \<open>The assigning loop of the maps; \<open>ks\<close> are the keys in iteration order.\<close>

definition pairs_to :: "'n yaml_api \<Rightarrow> ('a \<Rightarrow> string) \<Rightarrow> string list \<Rightarrow> (string \<Rightarrow> 'a option) \<Rightarrow> string result" where
  "pairs_to y to ks m = rbind (mapM (\<lambda>k. rbind (y_load y (to (the (m k)))) (\<lambda>n. Inr (k, n))) ks)
     (\<lambda>kns. Inr (y_emit y (y_map y kns)))"

definition map_to :: "'n yaml_api \<Rightarrow> ('a \<Rightarrow> string) \<Rightarrow> (string \<Rightarrow> 'a option) \<Rightarrow> string result" where
  "map_to y to m = pairs_to y to (sorted_list_of_set (dom m)) m"

definition unordered_map_to :: "'n yaml_api \<Rightarrow> ('a \<Rightarrow> string) \<Rightarrow> (string set \<Rightarrow> string list) \<Rightarrow> (string \<Rightarrow> 'a option) \<Rightarrow> string result" where
  "unordered_map_to y to it m = pairs_to y to (it (dom m)) m"

section \<open>Variables\<close>

text \<open>\<open>m_cbs\<close> is a \<open>std::map\<close>: the list is in the order of its keys.\<close>

record ('v, 'cb) config_var =
  m_cname :: string
  m_description :: string
  m_type :: string
  m_val :: 'v
  m_cbs :: "(u64 \<times> 'cb) list"

text \<open>The conversions (\<open>FromStr\<close>, \<open>ToStr\<close>) and the equality of a type.\<close>

record 'v casts =
  from_str :: "string \<Rightarrow> string \<Rightarrow> 'v result"
  to_str :: "string \<Rightarrow> 'v \<Rightarrow> string result"
  val_eq :: "string \<Rightarrow> 'v \<Rightarrow> 'v \<Rightarrow> bool"

text \<open>The registry and its variables; \<open>s_fun_id\<close> is static per type. \<open>notified\<close> are the calls of
  listeners: the listener, the old and the new value.\<close>

record ('v, 'cb) config =
  var_at :: "nat \<Rightarrow> ('v, 'cb) config_var"
  GetDatas :: "string \<Rightarrow> nat option"
  s_fun_id :: "string \<Rightarrow> u64"
  notified :: "('cb \<times> 'v \<times> 'v) list"

text \<open>\<open>tolower\<close> in the C locale.\<close>

definition tolower :: "char \<Rightarrow> char" where
  "tolower c = (let n = (of_char c :: nat) in if 65 \<le> n \<and> n \<le> 90 then char_of (n + 32) else c)"

definition ConfigVar_new :: "string \<Rightarrow> string \<Rightarrow> 'v \<Rightarrow> string \<Rightarrow> ('v, 'cb) config_var" where
  "ConfigVar_new ty name default_value description =
     \<lparr>m_cname = map tolower name, m_description = description, m_type = ty, m_val = default_value, m_cbs = []\<rparr>"

definition put_var :: "nat \<Rightarrow> ('v, 'cb) config_var \<Rightarrow> ('v, 'cb) config \<Rightarrow> ('v, 'cb) config" where
  "put_var p x s = s\<lparr>var_at := (var_at s)(p := x)\<rparr>"

definition getValue :: "nat \<Rightarrow> ('v, 'cb) config \<Rightarrow> 'v" where
  "getValue p s = m_val (var_at s p)"

text \<open>\<open>setValue\<close>: the part under the read lock, which says whether to go on, and the part under the
  write lock. The listeners return; one that throws, after which the others would not be called and
  the value would not be stored, is not modelled.\<close>

definition setValue_notify :: "'v casts \<Rightarrow> nat \<Rightarrow> 'v \<Rightarrow> ('v, 'cb) config \<Rightarrow> ('v, 'cb) config \<times> bool" where
  "setValue_notify cs p v s =
     (let x = var_at s p
      in if val_eq cs (m_type x) v (m_val x) then (s, False)
         else (s\<lparr>notified := notified s @ map (\<lambda>(_, cb). (cb, m_val x, v)) (m_cbs x)\<rparr>, True))"

definition setValue_store :: "nat \<Rightarrow> 'v \<Rightarrow> ('v, 'cb) config \<Rightarrow> ('v, 'cb) config" where
  "setValue_store p v s = put_var p ((var_at s p)\<lparr>m_val := v\<rparr>) s"

definition setValue :: "'v casts \<Rightarrow> nat \<Rightarrow> 'v \<Rightarrow> ('v, 'cb) config \<Rightarrow> ('v, 'cb) config" where
  "setValue cs p v s = (let (s1, go) = setValue_notify cs p v s in if go then setValue_store p v s1 else s1)"

text \<open>\<open>toString\<close> and \<open>fromString\<close>; exceptions are caught and logged.\<close>

definition toString :: "'v casts \<Rightarrow> nat \<Rightarrow> ('v, 'cb) config \<Rightarrow> string result" where
  "toString cs p s =
     (case to_str cs (m_type (var_at s p)) (m_val (var_at s p)) of
        Inr txt \<Rightarrow> Inr txt | Inl (Thrown _) \<Rightarrow> Inr [] | Inl e \<Rightarrow> Inl e)"

definition fromString :: "'v casts \<Rightarrow> nat \<Rightarrow> string \<Rightarrow> ('v, 'cb) config \<Rightarrow> (('v, 'cb) config \<times> bool) result" where
  "fromString cs p val s =
     (case from_str cs (m_type (var_at s p)) val of
        Inr v \<Rightarrow> Inr (setValue cs p v s, False) | Inl (Thrown _) \<Rightarrow> Inr (s, False) | Inl e \<Rightarrow> Inl e)"

text \<open>The map of listeners: \<open>m_cbs[k] = cb\<close>.\<close>

fun map_put :: "u64 \<Rightarrow> 'cb \<Rightarrow> (u64 \<times> 'cb) list \<Rightarrow> (u64 \<times> 'cb) list" where
  "map_put k cb [] = [(k, cb)]"
| "map_put k cb ((k', cb') # ms) =
     (if k < k' then (k, cb) # (k', cb') # ms else if k = k' then (k, cb) # ms
      else (k', cb') # map_put k cb ms)"

definition addListener :: "nat \<Rightarrow> 'cb \<Rightarrow> ('v, 'cb) config \<Rightarrow> ('v, 'cb) config \<times> u64" where
  "addListener p cb s =
     (let x = var_at s p; k = s_fun_id s (m_type x) + 1
      in ((put_var p (x\<lparr>m_cbs := map_put k cb (m_cbs x)\<rparr>) s)\<lparr>s_fun_id := (s_fun_id s)(m_type x := k)\<rparr>, k))"

definition delListener :: "nat \<Rightarrow> u64 \<Rightarrow> ('v, 'cb) config \<Rightarrow> ('v, 'cb) config" where
  "delListener p key s = put_var p ((var_at s p)\<lparr>m_cbs := filter (\<lambda>m. fst m \<noteq> key) (m_cbs (var_at s p))\<rparr>) s"

definition getListener :: "nat \<Rightarrow> u64 \<Rightarrow> ('v, 'cb) config \<Rightarrow> 'cb option" where
  "getListener p key s = map_of (m_cbs (var_at s p)) key"

definition clearListener :: "nat \<Rightarrow> ('v, 'cb) config \<Rightarrow> ('v, 'cb) config" where
  "clearListener p s = put_var p ((var_at s p)\<lparr>m_cbs := []\<rparr>) s"

section \<open>The registry\<close>

text \<open>The string of \<open>find_first_not_of\<close>, as it is spelt in both places.\<close>

definition valid_chars :: string where
  "valid_chars = ''abcdefghikjlmnopqrstuvwxyz._012345678''"

definition valid_name :: "string \<Rightarrow> bool" where
  "valid_name name \<longleftrightarrow> list_all (\<lambda>c. c \<in> set valid_chars) name"

text \<open>\<open>Lookup\<close> with a default: the variable's address, or null on a type mismatch.\<close>

definition Lookup :: "nat \<Rightarrow> string \<Rightarrow> string \<Rightarrow> 'v \<Rightarrow> string \<Rightarrow> ('v, 'cb) config \<Rightarrow> (('v, 'cb) config \<times> nat option) result" where
  "Lookup new ty name default_value description s =
     (case GetDatas s name of
        Some p \<Rightarrow> if m_type (var_at s p) = ty then Inr (s, Some p) else Inr (s, None)
      | None \<Rightarrow>
          if \<not> valid_name name then Inl (Thrown ''invalid_argument'')
          else Inr ((put_var new (ConfigVar_new ty name default_value description) s)
                      \<lparr>GetDatas := (GetDatas s)(name \<mapsto> new)\<rparr>, Some new))"

definition Lookup_typed :: "string \<Rightarrow> string \<Rightarrow> ('v, 'cb) config \<Rightarrow> nat option" where
  "Lookup_typed ty name s =
     (case GetDatas s name of None \<Rightarrow> None | Some p \<Rightarrow> if m_type (var_at s p) = ty then Some p else None)"

definition LookupBase :: "string \<Rightarrow> ('v, 'cb) config \<Rightarrow> nat option" where
  "LookupBase name s = GetDatas s name"

section \<open>Loading\<close>

text \<open>\<open>ListAllMember\<close>; the number bounds the depth of the recursion.\<close>

fun ListAllMember :: "'n yaml_api \<Rightarrow> nat \<Rightarrow> string \<Rightarrow> 'n \<Rightarrow> (string \<times> 'n) list option" where
  "ListAllMember y 0 prefix node = None"
| "ListAllMember y (Suc d) prefix node =
     (if \<not> valid_name prefix then Some []
      else if y_is_map y node
      then map_option (\<lambda>out. (prefix, node) # concat out)
             (those (map (\<lambda>(k, n). ListAllMember y d
                (if prefix = [] then y_scalar y k else prefix @ ''.'' @ y_scalar y k) n) (y_members y node)))
      else Some [(prefix, node)])"

definition node_text :: "'n yaml_api \<Rightarrow> 'n \<Rightarrow> string" where
  "node_text y node = (if y_is_scalar y node then y_scalar y node else y_emit y node)"

fun load_nodes :: "'v casts \<Rightarrow> 'n yaml_api \<Rightarrow> (string \<times> 'n) list \<Rightarrow> ('v, 'cb) config \<Rightarrow> ('v, 'cb) config result" where
  "load_nodes cs y [] s = Inr s"
| "load_nodes cs y ((key0, node) # ns) s =
     (if key0 = [] then load_nodes cs y ns s
      else case LookupBase (map tolower key0) s of
        None \<Rightarrow> load_nodes cs y ns s
      | Some p \<Rightarrow> rbind (fromString cs p (node_text y node) s) (\<lambda>(s1, _). load_nodes cs y ns s1))"

definition LoadFromYaml :: "'v casts \<Rightarrow> 'n yaml_api \<Rightarrow> nat \<Rightarrow> 'n \<Rightarrow> ('v, 'cb) config \<Rightarrow> ('v, 'cb) config result option" where
  "LoadFromYaml cs y d root s = map_option (\<lambda>ns. load_nodes cs y ns s) (ListAllMember y d [] root)"

section \<open>Containers go through text and back\<close>

lemma seq_round:
  assumes law: "seq_law y (map nd xs)"
    and el: "\<And>x. x \<in> set xs \<Longrightarrow> y_load y (to x) = Inr (nd x) \<and> from (y_emit y (nd x)) = Inr x"
  shows "\<exists>v. seq_to y to xs = Inr v \<and> rbind (seq_texts y v) (mapM from) = Inr xs"
proof -
  have a: "mapM (\<lambda>x. y_load y (to x)) xs = Inr (map nd xs)" using el by (intro mapM_total) blast
  have b: "map (\<lambda>i. y_emit y (y_at y (y_seq y (map nd xs)) i)) [0..<length xs] = map (\<lambda>x. y_emit y (nd x)) xs"
  proof -
    have at: "map (y_at y (y_seq y (map nd xs))) [0..<length xs] = map nd xs" using law by (simp add: seq_law_def)
    have "map (\<lambda>i. y_emit y (y_at y (y_seq y (map nd xs)) i)) [0..<length xs]
        = map (y_emit y) (map (y_at y (y_seq y (map nd xs))) [0..<length xs])" by simp
    then show ?thesis unfolding at by simp
  qed
  have c: "mapM from (map (\<lambda>x. y_emit y (nd x)) xs) = Inr xs"
    unfolding mapM_map using el by (subst mapM_total [where g = "\<lambda>x. x"]) auto
  show ?thesis using law a b c by (simp add: seq_to_def seq_texts_def seq_law_def)
qed

lemma fold_insert_set: "fold insert xs {} = set xs"
  by (metis sup_bot.right_neutral union_set_fold)

text \<open>Inserting pairs keeps the first value of a key.\<close>

lemma fold_insert_new: "fold insert_new kxs m = (\<lambda>k. case m k of None \<Rightarrow> map_of kxs k | Some x \<Rightarrow> Some x)"
  by (induction kxs arbitrary: m) (auto simp: insert_new_def fun_eq_iff split: option.splits)

lemma pairs_round:
  assumes law: "map_law y (map (\<lambda>k. (k, nd (the (m k)))) ks)" and ks: "set ks = dom m"
    and el: "\<And>x. x \<in> ran m \<Longrightarrow> y_load y (to x) = Inr (nd x) \<and> from (y_emit y (nd x)) = Inr x"
  shows "\<exists>v. pairs_to y to ks m = Inr v
    \<and> rbind (pairs_from y from v) (\<lambda>kxs. Inr (fold insert_new kxs (\<lambda>_. None))) = Inr m"
proof -
  let ?kns = "map (\<lambda>k. (k, nd (the (m k)))) ks"
  have r: "the (m k) \<in> ran m" if "k \<in> set ks" for k using that ks by (auto simp: ran_def dom_def)
  have a: "mapM (\<lambda>k. rbind (y_load y (to (the (m k)))) (\<lambda>n. Inr (k, n))) ks = Inr ?kns"
    using el r by (intro mapM_total) simp
  let ?ms = "y_members y (y_map y ?kns)"
  have ms: "map (\<lambda>(k, n). (y_scalar y k, n)) ?ms = ?kns" using law by (simp add: map_law_def)
  have "mapM (\<lambda>(k, n). rbind (from (y_emit y n)) (\<lambda>x. Inr (y_scalar y k, x))) ?ms
      = mapM (\<lambda>(k, n). rbind (from (y_emit y n)) (\<lambda>x. Inr (k, x))) (map (\<lambda>(k, n). (y_scalar y k, n)) ?ms)"
    unfolding mapM_map by (rule mapM_cong) auto
  also have "\<dots> = Inr (map (\<lambda>k. (k, the (m k))) ks)"
    unfolding ms mapM_map using el r by (intro mapM_total) simp
  finally have b: "mapM (\<lambda>(k, n). rbind (from (y_emit y n)) (\<lambda>x. Inr (y_scalar y k, x))) ?ms
      = Inr (map (\<lambda>k. (k, the (m k))) ks)" .
  have "map_of (map (\<lambda>k. (k, the (m k))) ks) = m"
    using ks by (auto simp: map_of_map_keys fun_eq_iff dom_def restrict_map_def)
  then show ?thesis
    using law a b by (simp add: pairs_to_def pairs_from_def map_law_def fold_insert_new)
qed

section \<open>Listeners\<close>

text \<open>What a program does with variables; a new variable gets a fresh address, and the ids of a
  type's listeners do not wrap around.\<close>

inductive cfg_step :: "'v casts \<Rightarrow> ('v, 'cb) config \<Rightarrow> ('v, 'cb) config \<Rightarrow> bool" for cs where
  cf_lookup: "new \<notin> ran (GetDatas s) \<Longrightarrow> Lookup new ty name dflt desc s = Inr (s', r) \<Longrightarrow> cfg_step cs s s'"
| cf_set: "cfg_step cs s (setValue cs p v s)"
| cf_from: "fromString cs p txt s = Inr (s', b) \<Longrightarrow> cfg_step cs s s'"
| cf_add: "s_fun_id s (m_type (var_at s p)) \<noteq> -1 \<Longrightarrow> addListener p cb s = (s', k) \<Longrightarrow> cfg_step cs s s'"
| cf_del: "cfg_step cs s (delListener p k s)"
| cf_clear: "cfg_step cs s (clearListener p s)"

inductive cfg_reach :: "'v casts \<Rightarrow> ('v, 'cb) config \<Rightarrow> bool" for cs where
  cr_start: "GetDatas s = (\<lambda>_. None) \<Longrightarrow> (\<And>p. m_cbs (var_at s p) = []) \<Longrightarrow> cfg_reach cs s"
| cr_next: "cfg_reach cs s \<Longrightarrow> cfg_step cs s s' \<Longrightarrow> cfg_reach cs s'"

definition cbs_ok :: "u64 \<Rightarrow> (u64 \<times> 'cb) list \<Rightarrow> bool" where
  "cbs_ok n ms \<longleftrightarrow> sorted_wrt (<) (map fst ms) \<and> (\<forall>k \<in> fst ` set ms. k \<le> n)"

definition cfg_inv :: "('v, 'cb) config \<Rightarrow> bool" where
  "cfg_inv s \<longleftrightarrow> (\<forall>p. cbs_ok (s_fun_id s (m_type (var_at s p))) (m_cbs (var_at s p)))
     \<and> inj_on (GetDatas s) (dom (GetDatas s))"

lemma map_put_last: "(\<And>k'. k' \<in> fst ` set ms \<Longrightarrow> k' < k) \<Longrightarrow> map_put k cb ms = ms @ [(k, cb)]"
  by (induction k cb ms rule: map_put.induct) (force dest: less_asym)+

lemma cbs_ok_add:
  assumes "cbs_ok n ms" and "n < n'"
  shows "map_put n' cb ms = ms @ [(n', cb)]" and "cbs_ok n' (ms @ [(n', cb)])"
  using assms by (force simp: cbs_ok_def sorted_wrt_append intro: map_put_last)+

lemma cbs_ok_filter: "cbs_ok n ms \<Longrightarrow> cbs_ok n (filter P ms)"
  by (induction ms) (auto simp: cbs_ok_def)

lemma next_id: "n \<noteq> -1 \<Longrightarrow> n < n + (1 :: u64)"
  by (metis add.commute add_eq_0_iff2 eq_neg_iff_add_eq_0 less_le lessI unatSuc word_less_nat_alt)

lemma put_var_frames [simp]:
  "var_at (put_var p x s) = (var_at s)(p := x)" "GetDatas (put_var p x s) = GetDatas s"
  "s_fun_id (put_var p x s) = s_fun_id s" "notified (put_var p x s) = notified s"
  by (simp_all add: put_var_def)

lemma setValue_frames [simp]:
  "GetDatas (setValue cs p v s) = GetDatas s" "s_fun_id (setValue cs p v s) = s_fun_id s"
  "m_cbs (var_at (setValue cs p v s) q) = m_cbs (var_at s q)"
  "m_type (var_at (setValue cs p v s) q) = m_type (var_at s q)"
  by (simp_all add: setValue_def setValue_notify_def setValue_store_def Let_def)

lemma setValue_value:
  "m_val (var_at (setValue cs p v s) q)
    = (if q = p \<and> \<not> val_eq cs (m_type (var_at s p)) v (m_val (var_at s p)) then v else m_val (var_at s q))"
  "notified (setValue cs p v s) = notified s @ (if val_eq cs (m_type (var_at s p)) v (m_val (var_at s p)) then []
     else map (\<lambda>(_, cb). (cb, m_val (var_at s p), v)) (m_cbs (var_at s p)))"
  by (simp_all add: setValue_def setValue_notify_def setValue_store_def Let_def)

lemma cfg_inv_frame:
  "cfg_inv s \<Longrightarrow> GetDatas s' = GetDatas s \<Longrightarrow> s_fun_id s' = s_fun_id s
    \<Longrightarrow> (\<And>p. m_type (var_at s' p) = m_type (var_at s p) \<and> (\<exists>P. m_cbs (var_at s' p) = filter P (m_cbs (var_at s p))))
    \<Longrightarrow> cfg_inv s'"
  by (auto simp: cfg_inv_def) (metis cbs_ok_filter)

lemma filter_all: "\<exists>P. ms = filter P ms" "\<exists>P. [] = filter P ms"
  by (rule exI [of _ "\<lambda>_. True"], simp) (rule exI [of _ "\<lambda>_. False"], simp)

lemma cfg_inv_lookup:
  assumes inv: "cfg_inv s" and new: "new \<notin> ran (GetDatas s)"
    and l: "Lookup new ty name dflt desc s = Inr (s', r)"
  shows "cfg_inv s'"
proof (cases "GetDatas s name")
  case None
  then have s': "s' = (put_var new (ConfigVar_new ty name dflt desc) s)\<lparr>GetDatas := (GetDatas s)(name \<mapsto> new)\<rparr>"
    using l by (auto simp: Lookup_def split: if_splits)
  have "inj_on (GetDatas s') (dom (GetDatas s'))"
    using inv new by (auto simp: s' cfg_inv_def inj_on_def ran_def dom_def)
  then show ?thesis using inv by (simp add: s' cfg_inv_def ConfigVar_new_def cbs_ok_def)
next
  case (Some p)
  then show ?thesis using l inv by (auto simp: Lookup_def split: if_splits)
qed

lemma cfg_inv_add:
  assumes inv: "cfg_inv s" and w: "s_fun_id s (m_type (var_at s p)) \<noteq> -1"
  shows "cfg_inv (fst (addListener p cb s))"
    and "m_cbs (var_at (fst (addListener p cb s)) p) = m_cbs (var_at s p) @ [(snd (addListener p cb s), cb)]"
proof -
  let ?t = "m_type (var_at s p)"
  have lt: "s_fun_id s ?t < s_fun_id s ?t + 1" by (rule next_id [OF w])
  have ok: "cbs_ok (s_fun_id s (m_type (var_at s q))) (m_cbs (var_at s q))" for q using inv by (simp add: cfg_inv_def)
  note a = cbs_ok_add [OF ok lt, of cb]
  have mono: "cbs_ok (s_fun_id s ?t + 1) (m_cbs (var_at s q))" if "m_type (var_at s q) = ?t" for q
    using ok [of q] lt that by (auto simp: cbs_ok_def)
  show "cfg_inv (fst (addListener p cb s))" using inv a ok mono by (auto simp: addListener_def Let_def cfg_inv_def)
  show "m_cbs (var_at (fst (addListener p cb s)) p) = m_cbs (var_at s p) @ [(snd (addListener p cb s), cb)]"
    using a by (simp add: addListener_def Let_def)
qed

lemma cfg_inv_step: "cfg_step cs s s' \<Longrightarrow> cfg_inv s \<Longrightarrow> cfg_inv s'"
proof (induction rule: cfg_step.induct)
  case (cf_lookup new s ty name dflt desc s' r)
  then show ?case by (intro cfg_inv_lookup [OF cf_lookup(3,1,2)])
next
  case (cf_set s p v)
  then show ?case by (rule cfg_inv_frame) (use filter_all in auto)
next
  case (cf_from p tx s s' b)
  then have "s' = s \<or> (\<exists>v. s' = setValue cs p v s)"
    by (auto simp: fromString_def split: sum.splits fault.splits)
  then show ?case using cf_from(2) cfg_inv_frame [OF cf_from(2)] filter_all(1) by (metis setValue_frames)
next
  case (cf_add s p cb s' k)
  then show ?case using cfg_inv_add(1) [OF cf_add(3,1), of cb] by simp
next
  case (cf_del s p k)
  then show ?case by (rule cfg_inv_frame) (use filter_all in \<open>auto simp: delListener_def\<close>)
next
  case (cf_clear s p)
  then show ?case by (rule cfg_inv_frame) (use filter_all in \<open>auto simp: clearListener_def\<close>)
qed

lemma cfg_reach_inv: "cfg_reach cs s \<Longrightarrow> cfg_inv s"
proof (induction rule: cfg_reach.induct)
  case (cr_start s)
  then show ?case by (simp add: cfg_inv_def cbs_ok_def)
next
  case (cr_next s s')
  then show ?case using cfg_inv_step by blast
qed

text \<open>Registered names have only the characters of the list.\<close>

lemma cfg_reach_names: "cfg_reach cs s \<Longrightarrow> GetDatas s name = Some p \<Longrightarrow> valid_name name"
proof (induction arbitrary: name p rule: cfg_reach.induct)
  case (cr_next s s')
  show ?case
  proof (cases "GetDatas s' = GetDatas s")
    case False
    obtain new ty key dflt desc r where "Lookup new ty key dflt desc s = Inr (s', r)"
      using cr_next(2) False by (cases rule: cfg_step.cases)
        (auto simp: fromString_def addListener_def Let_def delListener_def clearListener_def split: sum.splits fault.splits)
    then show ?thesis using cr_next(3) [of name] cr_next(4)
      by (auto simp: Lookup_def split: option.splits if_splits)
  qed (use cr_next in simp)
qed simp

section \<open>What loading does to a variable\<close>

text \<open>Nodes less than \<open>d\<close> deep.\<close>

fun shallow :: "'n yaml_api \<Rightarrow> nat \<Rightarrow> 'n \<Rightarrow> bool" where
  "shallow y 0 node = False"
| "shallow y (Suc d) node = (y_is_map y node \<longrightarrow> list_all (\<lambda>(_, n). shallow y d n) (y_members y node))"

text \<open>What a document says, apart from how the code walks it: every node with the keys that lead to
  it, parents before children, in document order; and the dotted name of a path, in which empty
  keys count only behind one that is not.\<close>

fun tree_nodes :: "'n yaml_api \<Rightarrow> nat \<Rightarrow> 'n \<Rightarrow> (string list \<times> 'n) list" where
  "tree_nodes y 0 node = []"
| "tree_nodes y (Suc d) node = ([], node) #
     (if y_is_map y node
      then concat (map (\<lambda>(k, n). map (\<lambda>(ks, m). (y_scalar y k # ks, m)) (tree_nodes y d n)) (y_members y node))
      else [])"

definition dotted :: "string list \<Rightarrow> string" where
  "dotted ks = (case dropWhile (\<lambda>k. k = []) ks of
     [] \<Rightarrow> [] | k # ks' \<Rightarrow> k @ concat (map (\<lambda>k'. CHR ''.'' # k') ks'))"

text \<open>The name of a path below a node that already has one.\<close>

definition below :: "string \<Rightarrow> string list \<Rightarrow> string" where
  "below prefix ks = (if prefix = [] then dotted ks else prefix @ concat (map (\<lambda>k. CHR ''.'' # k) ks))"

lemma below_simps [simp]:
  "below [] ks = dotted ks" "below prefix [] = prefix"
  "dotted (k # ks) = below k ks" "prefix \<noteq> [] \<Longrightarrow> below prefix (k # ks) = below (prefix @ CHR ''.'' # k) ks"
  by (simp_all add: below_def dotted_def)

lemma below_valid: "valid_name (below prefix ks) \<Longrightarrow> valid_name prefix"
  by (auto simp: below_def valid_name_def split: if_splits)

lemma those_map_Some: "(\<And>x. x \<in> set xs \<Longrightarrow> f x = Some (g x)) \<Longrightarrow> those (map f xs) = Some (map g xs)"
  by (induction xs) auto

lemma ListAllMember_paths:
  "shallow y d node \<Longrightarrow> ListAllMember y d prefix node
     = Some (map (\<lambda>(ks, n). (below prefix ks, n))
              (filter (\<lambda>(ks, n). valid_name (below prefix ks)) (tree_nodes y d node)))"
proof (induction d arbitrary: prefix node)
  case (Suc d)
  show ?case
  proof (cases "y_is_map y node \<and> valid_name prefix")
    case True
    let ?pre = "\<lambda>k. if prefix = [] then y_scalar y k else prefix @ ''.'' @ y_scalar y k"
    let ?out = "\<lambda>(k, n). map (\<lambda>(ks, m). (below (?pre k) ks, m))
        (filter (\<lambda>(ks, m). valid_name (below (?pre k) ks)) (tree_nodes y d n))"
    have "those (map (\<lambda>(k, n). ListAllMember y d (?pre k) n) (y_members y node)) = Some (map ?out (y_members y node))"
      by (rule those_map_Some) (use Suc True in \<open>force simp: list_all_iff\<close>)
    moreover have "concat (map ?out ms)
        = map (\<lambda>(ks, n). (below prefix ks, n)) (filter (\<lambda>(ks, n). valid_name (below prefix ks))
           (concat (map (\<lambda>(k, n). map (\<lambda>(ks, m). (y_scalar y k # ks, m)) (tree_nodes y d n)) ms)))" for ms
      by (induction ms) (auto simp: filter_map o_def split_beta)
    ultimately show ?thesis using True by (simp cong: if_cong)
  next
    case False
    then show ?thesis using below_valid by (auto simp: filter_empty_conv)
  qed
qed simp

text \<open>The documented characters minus what the code's string lacks.\<close>

lemma valid_char: "c \<in> set valid_chars \<Longrightarrow> tolower c = c \<and> c \<noteq> CHR ''9''"
  by (auto simp: valid_chars_def tolower_def)

lemma valid_lower: "valid_name name \<Longrightarrow> map tolower name = name \<and> CHR ''9'' \<notin> set name"
  using valid_char by (force simp: valid_name_def list_all_iff intro: map_idI)

text \<open>A conversion of the text of one node, and of all nodes of a key in turn.\<close>

definition take_text :: "'v casts \<Rightarrow> string \<Rightarrow> string \<Rightarrow> 'v \<Rightarrow> 'v" where
  "take_text cs ty txt v = (case from_str cs ty txt of Inr v' \<Rightarrow> if val_eq cs ty v' v then v else v' | Inl _ \<Rightarrow> v)"

definition texts_of :: "'n yaml_api \<Rightarrow> string \<Rightarrow> (string \<times> 'n) list \<Rightarrow> string list" where
  "texts_of y name ns = map (\<lambda>e. node_text y (snd e)) (filter (\<lambda>e. fst e = name \<and> name \<noteq> []) ns)"

text \<open>The texts a document has for a name; no variable has the empty one.\<close>

definition texts_at :: "'n yaml_api \<Rightarrow> nat \<Rightarrow> 'n \<Rightarrow> string \<Rightarrow> string list" where
  "texts_at y d root name = (if name = [] then []
     else map (\<lambda>(ks, n). node_text y n) (filter (\<lambda>(ks, n). dotted ks = name) (tree_nodes y d root)))"

lemma texts_at_found:
  assumes "valid_name name"
  shows "texts_of y name (map (\<lambda>(ks, n). (dotted ks, n)) (filter (\<lambda>(ks, n). valid_name (dotted ks)) ps))
    = (if name = [] then [] else map (\<lambda>(ks, n). node_text y n) (filter (\<lambda>(ks, n). dotted ks = name) ps))"
  using assms by (induction ps) (auto simp: texts_of_def)

text \<open>A conversion that fails does so by an exception (\<open>boost::bad_lexical_cast\<close>, \<open>YAML::Exception\<close>).\<close>

definition throws_only :: "'v casts \<Rightarrow> bool" where
  "throws_only cs \<longleftrightarrow> (\<forall>ty tx e. from_str cs ty tx = Inl e \<longrightarrow> (\<exists>w. e = Thrown w))"

lemma load_nodes_outcome:
  assumes thrown: "throws_only cs"
    and inj: "inj_on (GetDatas s) (dom (GetDatas s))" and names: "list_all (\<lambda>e. valid_name (fst e)) ns"
  shows "\<exists>s'. load_nodes cs y ns s = Inr s' \<and> GetDatas s' = GetDatas s
    \<and> (\<forall>q. m_type (var_at s' q) = m_type (var_at s q) \<and> m_cbs (var_at s' q) = m_cbs (var_at s q))
    \<and> (\<forall>name p. GetDatas s name = Some p \<longrightarrow>
         getValue p s' = fold (take_text cs (m_type (var_at s p))) (texts_of y name ns) (getValue p s))"
  using inj names
proof (induction ns arbitrary: s)
  case Nil
  then show ?case by (simp add: texts_of_def)
next
  case (Cons e ns)
  obtain key node where e: "e = (key, node)" by (cases e)
  have low: "map tolower key = key" using valid_lower [of key] Cons.prems(2) e by simp
  have ns: "list_all (\<lambda>e. valid_name (fst e)) ns" using Cons.prems(2) by simp
  show ?case
  proof (cases "key = [] \<or> GetDatas s key = None")
    case True
    then have "load_nodes cs y (e # ns) s = load_nodes cs y ns s" using e low by (auto simp: LookupBase_def)
    moreover have "texts_of y name (e # ns) = texts_of y name ns" if "GetDatas s name = Some p" for name p
      using True that e by (auto simp: texts_of_def)
    ultimately show ?thesis using Cons.IH [OF Cons.prems(1) ns] by simp
  next
    case False
    then obtain p where p: "GetDatas s key = Some p" and k: "key \<noteq> []" by auto
    let ?ty = "m_type (var_at s p)" and ?t = "node_text y node"
    obtain s1 where s1: "fromString cs p ?t s = Inr (s1, False)"
      "s1 = s \<and> (\<exists>w. from_str cs ?ty ?t = Inl w) \<or> (\<exists>v. from_str cs ?ty ?t = Inr v \<and> s1 = setValue cs p v s)"
    proof (cases "from_str cs ?ty ?t")
      case (Inl w)
      then obtain m where "w = Thrown m" using thrown unfolding throws_only_def by metis
      then show ?thesis using that Inl by (auto simp: fromString_def)
    next
      case (Inr v)
      then show ?thesis using that by (simp add: fromString_def)
    qed
    have l: "load_nodes cs y (e # ns) s = load_nodes cs y ns s1" using e k low p s1(1) by (simp add: LookupBase_def)
    have f: "GetDatas s1 = GetDatas s" "m_type (var_at s1 q) = m_type (var_at s q)" "m_cbs (var_at s1 q) = m_cbs (var_at s q)"
      "getValue q s1 = (if q = p then take_text cs ?ty ?t (getValue p s) else getValue q s)" for q
      using s1(2) by (auto simp: take_text_def getValue_def setValue_value)
    have "texts_of y name (e # ns) = (if name = key then [?t] else []) @ texts_of y name ns" for name
      using e k by (simp add: texts_of_def)
    moreover have "q = p \<longleftrightarrow> name = key" if "GetDatas s name = Some q" for name q
      using that p Cons.prems(1) by (auto simp: inj_on_def dom_def)
    ultimately show ?thesis using Cons.IH [of s1] Cons.prems(1) ns f l p by auto
  qed
qed

section \<open>A small YAML library and a configuration\<close>

text \<open>The witnesses use scalars, sequences written with bars and maps of scalars.\<close>

datatype ynode = YScalar string | YSeq "ynode list" | YMap "(string \<times> ynode) list"

fun ydemo_emit :: "ynode \<Rightarrow> string" where
  "ydemo_emit (YScalar s) = s"
| "ydemo_emit (YSeq ns) = concat (map (\<lambda>n. ''|'' @ ydemo_emit n) ns)"
| "ydemo_emit (YMap kns) = concat (map (\<lambda>(k, n). ''?'' @ k @ '':'' @ ydemo_emit n) kns)"

definition ydemo_load :: "string \<Rightarrow> ynode result" where
  "ydemo_load s =
     (if s = ''|5|7'' then Inr (YSeq [YScalar ''5'', YScalar ''7''])
      else if s = ''?a:5?b:7'' then Inr (YMap [(''a'', YScalar ''5''), (''b'', YScalar ''7'')])
      else Inr (YScalar s))"

definition ydemo :: "ynode yaml_api" where
  "ydemo = \<lparr>y_load = ydemo_load, y_emit = ydemo_emit,
     y_is_map = (\<lambda>n. case n of YMap _ \<Rightarrow> True | _ \<Rightarrow> False),
     y_is_scalar = (\<lambda>n. case n of YScalar _ \<Rightarrow> True | _ \<Rightarrow> False),
     y_scalar = (\<lambda>n. case n of YScalar s \<Rightarrow> s | _ \<Rightarrow> []),
     y_members = (\<lambda>n. case n of YMap kns \<Rightarrow> map (\<lambda>(k, m). (YScalar k, m)) kns | _ \<Rightarrow> []),
     y_size = (\<lambda>n. case n of YSeq ns \<Rightarrow> length ns | YMap kns \<Rightarrow> length kns | _ \<Rightarrow> 0),
     y_at = (\<lambda>n i. case n of YSeq ns \<Rightarrow> ns ! i | _ \<Rightarrow> n),
     y_get = (\<lambda>n k. case n of YMap kns \<Rightarrow> Inr (map_of kns k) | YSeq _ \<Rightarrow> Inr None
       | YScalar _ \<Rightarrow> Inl (Thrown ''bad subscript'')),
     y_as_string = (\<lambda>n. case n of YScalar s \<Rightarrow> Inr s | _ \<Rightarrow> Inl (Thrown ''bad conversion'')),
     y_str = YScalar, y_seq = YSeq, y_map = YMap\<rparr>"

text \<open>Integers of one digit.\<close>

definition cdemo_to :: "nat \<Rightarrow> string" where
  "cdemo_to n = (if n = 5 then ''5'' else ''7'')"

definition cdemo_from :: "string \<Rightarrow> nat result" where
  "cdemo_from s = (if s = ''5'' then Inr 5 else if s = ''7'' then Inr 7 else Inl (Thrown ''bad_lexical_cast''))"

definition cdemo_casts :: "nat casts" where
  "cdemo_casts = \<lparr>from_str = (\<lambda>_. cdemo_from), to_str = (\<lambda>_ v. Inr (cdemo_to v)), val_eq = (\<lambda>_. (=))\<rparr>"

text \<open>One variable \<open>tcp.size\<close>, with listener 30.\<close>

definition cdemo0 :: "(nat, nat) config" where
  "cdemo0 = \<lparr>var_at = (\<lambda>_. ConfigVar_new ''i'' [] 0 []), GetDatas = (\<lambda>_. None), s_fun_id = (\<lambda>_. 0), notified = []\<rparr>"

definition cdemo1 :: "(nat, nat) config" where
  "cdemo1 = fst (projr (Lookup 3 ''i'' ''tcp.size'' 5 ''size'' cdemo0))"

definition cdemo :: "(nat, nat) config" where
  "cdemo = fst (addListener 3 30 cdemo1)"

lemma cdemo: "cfg_reach cdemo_casts cdemo" "GetDatas cdemo ''tcp.size'' = Some 3" "getValue 3 cdemo = 5"
  "m_type (var_at cdemo 3) = ''i''" "m_cbs (var_at cdemo 3) = [(1, 30)]" "s_fun_id cdemo ''i'' = 1"
  "notified cdemo = []"
proof -
  have r0: "cfg_reach cdemo_casts cdemo0" by (rule cr_start) (simp_all add: cdemo0_def ConfigVar_new_def)
  have l: "Lookup 3 ''i'' ''tcp.size'' 5 ''size'' cdemo0 = Inr (cdemo1, Some 3)"
    by (simp add: cdemo1_def cdemo0_def Lookup_def valid_name_def valid_chars_def)
  have r1: "cfg_reach cdemo_casts cdemo1"
    by (rule cr_next [OF r0 cf_lookup [OF _ l]]) (simp add: cdemo0_def)
  have s1: "s_fun_id cdemo1 (m_type (var_at cdemo1 3)) = 0"
    by (simp add: cdemo1_def cdemo0_def Lookup_def valid_name_def valid_chars_def ConfigVar_new_def)
  show "cfg_reach cdemo_casts cdemo"
    by (rule cr_next [OF r1 cf_add [where p = 3 and cb = 30 and k = "snd (addListener 3 30 cdemo1)"]])
      (use s1 in \<open>simp_all add: cdemo_def\<close>)
qed (simp_all add: cdemo_def cdemo1_def cdemo0_def Lookup_def valid_name_def valid_chars_def ConfigVar_new_def
    addListener_def Let_def getValue_def)

section \<open>Properties\<close>

text \<open>C24: loading a YAML tree sets every variable from its own nodes only: its value is what the
  conversions leave, in document order, of the texts of all nodes whose keys, joined by dots, are
  its name; texts that do not convert are skipped, although \<open>fromString\<close> is documented to throw; other
  variables, all types and all listeners stay. The load returns for every tree (of finite depth).
  No name with an upper-case letter or a 9 is ever registered, although names are documented as
  [0-9a-z_.].\<close>

theorem config_load_exact:
  assumes reach: "cfg_reach cs s" and fin: "shallow y d root"
    and thrown: "throws_only cs" and p: "GetDatas s name = Some p"
  shows "\<exists>s'. LoadFromYaml cs y d root s = Some (Inr s')
    \<and> getValue p s' = fold (take_text cs (m_type (var_at s p))) (texts_at y d root name) (getValue p s)
    \<and> GetDatas s' = GetDatas s \<and> (\<forall>q. m_type (var_at s' q) = m_type (var_at s q) \<and> m_cbs (var_at s' q) = m_cbs (var_at s q))
    \<and> CHR ''9'' \<notin> set name \<and> map tolower name = name"
proof -
  let ?ns = "map (\<lambda>(ks, n). (dotted ks, n)) (filter (\<lambda>(ks, n). valid_name (dotted ks)) (tree_nodes y d root))"
  have ns: "ListAllMember y d [] root = Some ?ns" using ListAllMember_paths [OF fin, of "[]"] by simp
  have names: "list_all (\<lambda>e. valid_name (fst e)) ?ns" by (auto simp: list_all_iff)
  have inj: "inj_on (GetDatas s) (dom (GetDatas s))" using cfg_reach_inv [OF reach] by (simp add: cfg_inv_def)
  have v: "valid_name name" by (rule cfg_reach_names [OF reach p])
  show ?thesis
    using load_nodes_outcome [OF thrown inj names, of y] p valid_lower [OF v] ns texts_at_found [OF v, of y]
    by (auto simp: LoadFromYaml_def texts_at_def)
qed

theorem config_load_exact_witness:
  "\<exists>s'. LoadFromYaml cdemo_casts ydemo 3 (YMap [(''tcp'', YMap [(''size'', YScalar ''7''), (''x9'', YScalar ''5'')])]) cdemo
      = Some (Inr s') \<and> getValue 3 s' = 7"
proof -
  let ?root = "YMap [(''tcp'', YMap [(''size'', YScalar ''7''), (''x9'', YScalar ''5'')])]"
  have sh: "shallow ydemo 3 ?root" by (simp add: ydemo_def numeral_3_eq_3)
  have th: "throws_only cdemo_casts" by (simp add: throws_only_def cdemo_casts_def cdemo_from_def)
  have tx: "texts_at ydemo 3 ?root ''tcp.size'' = [''7'']"
    by (simp add: texts_at_def below_def dotted_def node_text_def ydemo_def numeral_3_eq_3)
  obtain s' where "LoadFromYaml cdemo_casts ydemo 3 ?root cdemo = Some (Inr s')"
    "getValue 3 s' = fold (take_text cdemo_casts (m_type (var_at cdemo 3))) [''7''] (getValue 3 cdemo)"
    using config_load_exact [OF cdemo(1) sh th cdemo(2)] unfolding tx by blast
  then show ?thesis by (simp add: take_text_def cdemo_casts_def cdemo_from_def cdemo)
qed

text \<open>C25: setting a variable to an equal value does nothing; otherwise every listener is called
  exactly once with the old and the new value, in the order of registration, and the value is
  replaced afterwards. A listener gets an id of its own, under which it is found and removed
  without touching the others.\<close>

theorem config_set_exact:
  assumes reach: "cfg_reach cs s" and w: "s_fun_id s (m_type (var_at s p)) \<noteq> -1"
    and add: "addListener p cb s = (s1, k)"
  shows "getListener p k s = None \<and> getListener p k s1 = Some cb
    \<and> m_cbs (var_at (delListener p k s1) p) = m_cbs (var_at s p)
    \<and> (if val_eq cs (m_type (var_at s p)) v (getValue p s) then setValue cs p v s1 = s1
       else getValue p (setValue cs p v s1) = v
         \<and> notified (setValue cs p v s1) = notified s
             @ map (\<lambda>c. (c, getValue p s, v)) (map snd (m_cbs (var_at s p)) @ [cb]))
    \<and> (\<forall>q. q = p \<or> var_at (setValue cs p v s1) q = var_at s q)"
proof -
  have inv: "cfg_inv s" by (rule cfg_reach_inv [OF reach])
  have m: "m_cbs (var_at s1 p) = m_cbs (var_at s p) @ [(k, cb)]" using cfg_inv_add(2) [OF inv w, of cb] add by simp
  have k: "k = s_fun_id s (m_type (var_at s p)) + 1" using add by (simp add: addListener_def Let_def)
  have "cbs_ok (s_fun_id s (m_type (var_at s p))) (m_cbs (var_at s p))" using inv by (simp add: cfg_inv_def)
  then have le: "x \<in> fst ` set (m_cbs (var_at s p)) \<Longrightarrow> x \<le> s_fun_id s (m_type (var_at s p))" for x
    by (auto simp: cbs_ok_def)
  have new: "k \<notin> fst ` set (m_cbs (var_at s p))" using le [of k] next_id [OF w] k by (meson leD)
  then have none: "map_of (m_cbs (var_at s p)) k = None" by (simp add: map_of_eq_None_iff)
  have fil: "filter (\<lambda>m. fst m \<noteq> k) (m_cbs (var_at s p)) = m_cbs (var_at s p)" using new by (auto simp: filter_id_conv)
  have f: "m_type (var_at s1 p) = m_type (var_at s p)" "m_val (var_at s1 p) = m_val (var_at s p)" "notified s1 = notified s"
    "\<forall>q. q \<noteq> p \<longrightarrow> var_at s1 q = var_at s q"
    using add by (auto simp: addListener_def Let_def)
  let ?s2 = "setValue cs p v s1" and ?eq = "val_eq cs (m_type (var_at s p)) v (getValue p s)"
  have l: "getListener p k s = None" "getListener p k s1 = Some cb"
    "m_cbs (var_at (delListener p k s1) p) = m_cbs (var_at s p)"
    using m none fil by (simp_all add: getListener_def delListener_def map_add_def)
  have eq: "?eq \<Longrightarrow> ?s2 = s1"
    using f(1,2) by (simp add: setValue_def setValue_notify_def getValue_def Let_def)
  have set: "\<not> ?eq \<Longrightarrow> getValue p ?s2 = v"
    "\<not> ?eq \<Longrightarrow> notified ?s2 = notified s @ map (\<lambda>c. (c, getValue p s, v)) (map snd (m_cbs (var_at s p)) @ [cb])"
    using f(1-3) m by (simp_all add: setValue_value getValue_def split_beta)
  have "\<forall>q. q = p \<or> var_at ?s2 q = var_at s q"
    using f(4) by (auto simp: setValue_def setValue_notify_def setValue_store_def Let_def)
  then show ?thesis using l eq set by simp
qed

theorem config_set_exact_witness:
  "\<exists>s1 k. addListener 3 31 cdemo = (s1, k) \<and> notified (setValue cdemo_casts 3 7 s1) = [(30, 5, 7), (31, 5, 7)]"
proof -
  obtain s1 k where a: "addListener 3 31 cdemo = (s1, k)" by (cases "addListener 3 31 cdemo")
  have "s_fun_id cdemo (m_type (var_at cdemo 3)) \<noteq> -1" by (simp add: cdemo)
  from config_set_exact [OF cdemo(1) this a, of 7] a show ?thesis
    by (simp add: cdemo cdemo_casts_def)
qed

text \<open>Two threads that set the same variable at the same time can leave its listeners with the
  wrong value: both are notified from the old value, and the value that is stored last need not be
  the one the listeners heard last.\<close>

theorem config_race:
  assumes l: "map snd (m_cbs (var_at s p)) = [cb]" and o: "getValue p s = old" "m_type (var_at s p) = ty"
    and ne: "\<not> val_eq cs ty v1 old" "\<not> val_eq cs ty v2 old" "\<not> val_eq cs ty v2 v1"
  shows "\<exists>a b c. setValue_notify cs p v1 s = (a, True) \<and> setValue_notify cs p v2 a = (b, True)
    \<and> c = setValue_store p v1 (setValue_store p v2 b)
    \<and> getValue p c = v1 \<and> notified c = notified s @ [(cb, old, v1), (cb, old, v2)]
    \<and> notified (setValue cs p v2 (setValue cs p v1 s)) = notified s @ [(cb, old, v1), (cb, v1, v2)]
    \<and> getValue p (setValue cs p v2 (setValue cs p v1 s)) = v2"
proof -
  obtain k where m: "m_cbs (var_at s p) = [(k, cb)]" using l by (auto simp: map_eq_Cons_conv)
  show ?thesis
    using m o ne
    by (simp add: setValue_notify_def setValue_store_def setValue_def getValue_def Let_def)
qed

theorem config_race_witness:
  "\<exists>a b. setValue_notify cdemo_casts 3 7 cdemo = (a, True) \<and> setValue_notify cdemo_casts 3 6 a = (b, True)
    \<and> getValue 3 (setValue_store 3 7 (setValue_store 3 6 b)) = 7"
proof -
  have "map snd (m_cbs (var_at cdemo 3)) = [30]" "\<not> val_eq cdemo_casts ''i'' 7 5" "\<not> val_eq cdemo_casts ''i'' 6 5"
    "\<not> val_eq cdemo_casts ''i'' 6 7"
    by (simp_all add: cdemo cdemo_casts_def)
  from config_race [OF this(1) cdemo(3,4) this(2-4)] show ?thesis by blast
qed

text \<open>C26: the casts of the containers are inverse to each other: a vector, a list, a set, an unordered
  set or a map written as YAML text and read back is the same value, provided its elements are and
  the YAML library gives back the sequences and maps it is handed.\<close>

theorem config_cast_roundtrip:
  fixes to :: "'a :: linorder \<Rightarrow> string"
  assumes el: "\<And>x. x \<in> U \<Longrightarrow> y_load y (to x) = Inr (nd x) \<and> from (y_emit y (nd x)) = Inr x"
    and U: "set xs \<subseteq> U" "A \<subseteq> U" "ran m \<subseteq> U"
    and xs: "seq_law y (map nd xs)"
    and A: "finite A" "seq_law y (map nd (sorted_list_of_set A))"
    and it: "set (it A) = A" "seq_law y (map nd (it A))"
    and m: "finite (dom m)" "map_law y (map (\<lambda>k. (k, nd (the (m k)))) (sorted_list_of_set (dom m)))"
    and kt: "set (kit (dom m)) = dom m" "map_law y (map (\<lambda>k. (k, nd (the (m k)))) (kit (dom m)))"
  shows "rbind (vector_to y to xs) (vector_from y from) = Inr xs
    \<and> rbind (list_to y to xs) (list_from y from) = Inr xs
    \<and> rbind (set_to y to A) (set_from y from) = Inr A
    \<and> rbind (unordered_set_to y to it A) (unordered_set_from y from) = Inr A
    \<and> rbind (map_to y to m) (map_from y from) = Inr m
    \<and> rbind (unordered_map_to y to kit m) (unordered_map_from y from) = Inr m"
proof -
  have seq: "\<exists>v. seq_to y to zs = Inr v \<and> rbind (seq_texts y v) (mapM from) = Inr zs" if "seq_law y (map nd zs)" "set zs \<subseteq> U" for zs
    by (rule seq_round [OF that(1)]) (use el that(2) in blast)
  have seq': "\<exists>v. seq_to y to zs = Inr v \<and> rbind (seq_texts y v) (\<lambda>ts. rbind (mapM from ts) f) = f zs"
    if "seq_law y (map nd zs)" "set zs \<subseteq> U" for zs f
    using seq [OF that] by (metis rbind_assoc rbind_simps(2))
  have prs: "\<exists>v. pairs_to y to ks m = Inr v
      \<and> rbind (pairs_from y from v) (\<lambda>kxs. Inr (fold insert_new kxs (\<lambda>_. None))) = Inr m"
    if "map_law y (map (\<lambda>k. (k, nd (the (m k)))) ks)" "set ks = dom m" for ks
    by (rule pairs_round [OF that]) (use el U(3) in blast)
  have "rbind (vector_to y to xs) (vector_from y from) = Inr xs" "rbind (list_to y to xs) (list_from y from) = Inr xs"
    using seq [OF xs U(1)] by (auto simp: vector_to_def vector_from_def list_to_def list_from_def)
  moreover have "rbind (set_to y to A) (set_from y from) = Inr A"
    using seq' [OF A(2), of "\<lambda>zs. Inr (fold insert zs {})"] A(1) U(2) by (auto simp: set_to_def set_from_def fold_insert_set)
  moreover have "rbind (unordered_set_to y to it A) (unordered_set_from y from) = Inr A"
    using seq' [OF it(2), of "\<lambda>zs. Inr (fold insert zs {})"] it(1) U(2)
    by (auto simp: unordered_set_to_def unordered_set_from_def fold_insert_set)
  moreover have "rbind (map_to y to m) (map_from y from) = Inr m"
    using prs [OF m(2)] m(1) by (auto simp: map_to_def map_from_def)
  moreover have "rbind (unordered_map_to y to kit m) (unordered_map_from y from) = Inr m"
    using prs [OF kt(2,1)] by (auto simp: unordered_map_to_def unordered_map_from_def)
  ultimately show ?thesis by simp
qed

theorem config_cast_roundtrip_witness:
  "rbind (vector_to ydemo cdemo_to [5, 7]) (vector_from ydemo cdemo_from) = Inr [5, 7]
    \<and> rbind (set_to ydemo cdemo_to {5, 7}) (set_from ydemo cdemo_from) = Inr {5, 7}
    \<and> rbind (map_to ydemo cdemo_to [''a'' \<mapsto> 5, ''b'' \<mapsto> 7]) (map_from ydemo cdemo_from) = Inr [''a'' \<mapsto> 5, ''b'' \<mapsto> 7]"
proof -
  let ?nd = "\<lambda>x. YScalar (cdemo_to x)" and ?m = "[''a'' \<mapsto> 5, ''b'' \<mapsto> 7] :: string \<Rightarrow> nat option"
  have el: "y_load ydemo (cdemo_to x) = Inr (?nd x) \<and> cdemo_from (y_emit ydemo (?nd x)) = Inr x" if "x \<in> {5, 7}" for x
    using that by (auto simp: ydemo_def ydemo_load_def cdemo_to_def cdemo_from_def)
  have sl: "seq_law ydemo (map ?nd [5, 7])"
    by (simp add: seq_law_def ydemo_def ydemo_load_def cdemo_to_def)
  have so: "sorted_list_of_set {5, 7 :: nat} = [5, 7]" by simp
  have dm: "dom ?m = {''a'', ''b''}" by auto
  have sd: "sorted_list_of_set (dom ?m) = [''a'', ''b'']" unfolding dm by (simp add: less_char_def)
  have ml: "map_law ydemo (map (\<lambda>k. (k, ?nd (the (?m k)))) [''a'', ''b''])"
    by (simp add: map_law_def ydemo_def ydemo_load_def cdemo_to_def)
  have rn: "ran ?m \<subseteq> {5, 7}" by (auto simp: ran_def split: if_splits)
  show ?thesis
    using config_cast_roundtrip [where U = "{5, 7}" and nd = ?nd and xs = "[5, 7]" and A = "{5, 7}" and m = ?m
        and it = "\<lambda>_. [5, 7]" and kit = "\<lambda>_. [''a'', ''b'']", OF el _ _ rn sl _ _ _ sl _ _ _ ml] sl ml
    unfolding so sd dm by simp
qed

end
