(* ===== verification/LogConfigs.thy ===== *)
theory LogConfigs
  imports Loggers Configs StdSet
begin

text \<open>
  sylar/log.cc, the configuration of the loggers: the definitions of loggers and appenders, their
  casts from and to YAML, and the listener that \<open>LogIniter\<close> adds to the variable "logs", which
  rebuilds the loggers when the variable changes. It joins the configuration (Configs.thy) and the
  loggers (Loggers.thy). A \<open>std::set<LogDefine>\<close> is a list in the order of the names (StdSet.thy).
  Objects are made at the addresses \<open>k\<close>, \<open>k + 1\<close>, \<dots> of a counter that is passed along. What is
  printed on \<open>std::cout\<close> for rejected entries is not modelled.
\<close>

section \<open>Definitions of loggers\<close>

record appender_define =
  ad_type :: int
  ad_level :: level
  ad_formatter :: string
  ad_file :: string

definition LogAppenderDefine :: appender_define where
  "LogAppenderDefine = \<lparr>ad_type = 0, ad_level = UNKNOW, ad_formatter = [], ad_file = []\<rparr>"

definition AppenderDefine_eq :: "appender_define \<Rightarrow> appender_define \<Rightarrow> bool" where
  "AppenderDefine_eq d oth \<longleftrightarrow> ad_type d = ad_type oth \<and> ad_level d = ad_level oth
     \<and> ad_formatter d = ad_formatter oth \<and> ad_file d = ad_file oth"

record log_define =
  ld_name :: string
  ld_level :: level
  ld_formatter :: string
  ld_appenders :: "appender_define list"

text \<open>The last conjunct of \<open>operator==\<close> is \<open>appenders == appenders\<close>: both sides are the member of \<open>*this\<close>.\<close>

definition LogDefine_eq :: "log_define \<Rightarrow> log_define \<Rightarrow> bool" where
  "LogDefine_eq d oth \<longleftrightarrow> ld_name d = ld_name oth \<and> ld_level d = ld_level oth
     \<and> ld_formatter d = ld_formatter oth \<and> list_all2 AppenderDefine_eq (ld_appenders d) (ld_appenders d)"

definition LogDefine_lt :: "log_define \<Rightarrow> log_define \<Rightarrow> bool" where
  "LogDefine_lt d oth \<longleftrightarrow> ld_name d < ld_name oth"

interpretation define_order: weak_order LogDefine_lt
  by unfold_locales (auto simp: LogDefine_lt_def)

section \<open>Casts\<close>

text \<open>\<open>n[key].as<std::string>()\<close> when \<open>n[key]\<close> is defined.\<close>

definition text_at :: "'n yaml_api \<Rightarrow> 'n \<Rightarrow> string \<Rightarrow> string option result" where
  "text_at y n key = rbind (y_get y n key) (\<lambda>r. case r of
     None \<Rightarrow> Inr None | Some x \<Rightarrow> rbind (y_as_string y x) (\<lambda>txt. Inr (Some txt)))"

text \<open>One appender; \<open>None\<close> is the \<open>continue\<close> of an entry that is rejected.\<close>

definition appender_from :: "'n yaml_api \<Rightarrow> 'n \<Rightarrow> appender_define option result" where
  "appender_from y a =
     rbind (text_at y a ''type'') (\<lambda>ty. case ty of
       None \<Rightarrow> Inr None
     | Some type \<Rightarrow>
         if type = ''FileLogAppender'' then
           rbind (text_at y a ''file'') (\<lambda>fl. case fl of
             None \<Rightarrow> Inr None
           | Some file \<Rightarrow> rbind (text_at y a ''formatter'') (\<lambda>fm. let lad = LogAppenderDefine\<lparr>ad_type := 1, ad_file := file\<rparr>
               in Inr (Some (case fm of None \<Rightarrow> lad | Some fmt \<Rightarrow> lad\<lparr>ad_formatter := fmt\<rparr>))))
         else if type = ''StdoutLogAppender'' then Inr (Some (LogAppenderDefine\<lparr>ad_type := 2\<rparr>))
         else Inr None)"

definition appenders_from :: "'n yaml_api \<Rightarrow> 'n option \<Rightarrow> appender_define list result" where
  "appenders_from y ap =
     (case ap of None \<Rightarrow> Inr []
      | Some as \<Rightarrow> rbind (mapM (\<lambda>x. appender_from y (y_at y as x)) [0..<y_size y as])
          (\<lambda>ads. Inr (List.map_filter id ads)))"

text \<open>One logger, and the set of them; \<open>insert\<close> keeps the first of two definitions of a name.\<close>

definition define_from :: "'n yaml_api \<Rightarrow> 'n \<Rightarrow> log_define option result" where
  "define_from y n =
     rbind (text_at y n ''name'') (\<lambda>nm. case nm of
       None \<Rightarrow> Inr None
     | Some name \<Rightarrow>
         rbind (text_at y n ''level'') (\<lambda>lv.
         rbind (text_at y n ''formatter'') (\<lambda>fm.
         rbind (y_get y n ''appenders'') (\<lambda>ap.
         rbind (appenders_from y ap) (\<lambda>ads.
           Inr (Some \<lparr>ld_name = name, ld_level = FromString (case lv of Some l \<Rightarrow> l | None \<Rightarrow> []),
             ld_formatter = (case fm of Some f \<Rightarrow> f | None \<Rightarrow> []), ld_appenders = ads\<rparr>))))))"

definition defines_from :: "'n yaml_api \<Rightarrow> string \<Rightarrow> log_define list result" where
  "defines_from y v =
     rbind (y_load y v) (\<lambda>node.
     rbind (mapM (\<lambda>i. define_from y (y_at y node i)) [0..<y_size y node]) (\<lambda>ds.
       Inr (fold (set_insert LogDefine_lt) (List.map_filter id ds) [])))"

definition appender_to :: "'n yaml_api \<Rightarrow> appender_define \<Rightarrow> 'n" where
  "appender_to y a = y_map y
     ((if ad_type a = 1 then [(''type'', y_str y ''FileLogAppender''), (''file'', y_str y (ad_file a))]
       else if ad_type a = 2 then [(''type'', y_str y ''StdoutLogAppender'')] else [])
      @ level_entry y (ad_level a)
      @ (if ad_formatter a \<noteq> [] then [(''formatter'', y_str y (ad_formatter a))] else []))"

text \<open>The test of the formatter is inverted in the source: only an empty one is written.\<close>

definition define_to :: "'n yaml_api \<Rightarrow> log_define \<Rightarrow> 'n" where
  "define_to y d = y_map y
     ((''name'', y_str y (ld_name d)) # level_entry y (ld_level d)
      @ (if ld_formatter d = [] then [(''formatter'', y_str y (ld_formatter d))] else [])
      @ (if ld_appenders d \<noteq> [] then [(''appenders'', y_seq y (map (appender_to y) (ld_appenders d)))] else []))"

definition defines_to :: "'n yaml_api \<Rightarrow> log_define list \<Rightarrow> string" where
  "defines_to y v = y_emit y (y_seq y (map (define_to y) v))"

text \<open>The casts of the variable "logs"; \<open>operator==\<close> of \<open>std::set\<close> compares the elements in order.\<close>

definition log_casts :: "'n yaml_api \<Rightarrow> log_define list casts" where
  "log_casts y = \<lparr>from_str = (\<lambda>_. defines_from y), to_str = (\<lambda>_ v. Inr (defines_to y v)),
     val_eq = (\<lambda>_. list_all2 LogDefine_eq)\<rparr>"

section \<open>The listener\<close>

text \<open>Where and when \<open>SYLAR_LOG_INFO\<close> is run: what it puts into the event.\<close>

record log_site =
  at_file :: string
  at_line :: int
  at_thread :: u32
  at_fiber :: u32
  at_time :: u64
  at_name :: string

definition SYLAR_LOG_INFO :: "log_site \<Rightarrow> nat \<Rightarrow> string \<Rightarrow> event" where
  "SYLAR_LOG_INFO h lg txt =
     stream_in txt (LogEvent lg INFO (at_file h) (at_line h) 0 (at_thread h) (at_fiber h) (at_time h) (at_name h))"

text \<open>Making an appender; \<open>opened\<close> says which files can be opened. For any other type \<open>ap\<close> stays null.\<close>

definition new_appender :: "(string \<Rightarrow> bool) \<Rightarrow> appender_define \<Rightarrow> appender result" where
  "new_appender opened a =
     (if ad_type a = 1 then Inr (FileLogAppender (opened (ad_file a)) (ad_file a))
      else if ad_type a = 2 then Inr StdoutLogAppender
      else Inl (Undefined ''null appender''))"

definition define_appender :: "(string \<Rightarrow> bool) \<Rightarrow> appender_define \<Rightarrow> appender result" where
  "define_appender opened a =
     rbind (new_appender opened a) (\<lambda>ap0.
       let ap = appender_setLevel (ad_level a) ap0
       in if ad_formatter a \<noteq> []
          then let fmt = LogFormatter (ad_formatter a)
               in if \<not> m_error fmt then Inr (appender_setFormatter (Some fmt) ap) else Inr ap
          else Inr ap)"

fun add_appenders :: "(string \<Rightarrow> bool) \<Rightarrow> nat \<Rightarrow> appender_define list \<Rightarrow> log_state \<times> nat \<Rightarrow> (log_state \<times> nat) result" where
  "add_appenders opened lg [] w = Inr w"
| "add_appenders opened lg (a # as) (s, k) =
     rbind (define_appender opened a) (\<lambda>ap.
       add_appenders opened lg as (addAppender lg k (put_appender k ap s), k + 1))"

text \<open>\<open>SYLAR_LOG_NAME(name)\<close>.\<close>

definition SYLAR_LOG_NAME :: "string \<Rightarrow> log_state \<times> nat \<Rightarrow> (log_state \<times> nat) \<times> nat" where
  "SYLAR_LOG_NAME name w = (case w of (s, k) \<Rightarrow> let (s1, lg) = getLogger k name s in ((s1, k + 1), lg))"

definition set_up_logger :: "(string \<Rightarrow> bool) \<Rightarrow> nat \<Rightarrow> log_define \<Rightarrow> log_state \<times> nat \<Rightarrow> (log_state \<times> nat) result" where
  "set_up_logger opened lg i w =
     (case w of (s, k) \<Rightarrow>
        let s1 = logger_setLevel lg (ld_level i) s;
            s2 = (if ld_formatter i \<noteq> [] then setFormatter_str lg (ld_formatter i) s1 else s1)
        in add_appenders opened lg (ld_appenders i) (clearAppenders lg s2, k))"

text \<open>The loop over \<open>new_value\<close>: the pointer \<open>logger\<close> stays null for a definition that is equal to
  the old one, and is used all the same.\<close>

fun update_loggers :: "(string \<Rightarrow> bool) \<Rightarrow> log_define list \<Rightarrow> log_define list \<Rightarrow> log_state \<times> nat \<Rightarrow> (log_state \<times> nat) result" where
  "update_loggers opened old_value [] w = Inr w"
| "update_loggers opened old_value (i # is) w =
     rbind (case set_find LogDefine_lt i old_value of
              None \<Rightarrow> (let (w1, lg) = SYLAR_LOG_NAME (ld_name i) w in set_up_logger opened lg i w1)
            | Some it \<Rightarrow> if \<not> LogDefine_eq i (old_value ! it)
                then (let (w1, lg) = SYLAR_LOG_NAME (ld_name i) w in set_up_logger opened lg i w1)
                else Inl (Undefined ''null logger''))
       (update_loggers opened old_value is)"

fun remove_loggers :: "log_define list \<Rightarrow> log_define list \<Rightarrow> log_state \<times> nat \<Rightarrow> log_state \<times> nat" where
  "remove_loggers new_value [] w = w"
| "remove_loggers new_value (i # is) w =
     remove_loggers new_value is
       (if set_find LogDefine_lt i new_value = None
        then (case SYLAR_LOG_NAME (ld_name i) w of
                ((s, k), lg) \<Rightarrow> (clearAppenders lg (logger_setLevel lg UNKNOW s), k))
        else w)"

definition on_logger_conf_changed ::
    "(string \<Rightarrow> u64 \<Rightarrow> string) \<Rightarrow> log_site \<Rightarrow> (string \<Rightarrow> bool) \<Rightarrow> log_define list \<Rightarrow> log_define list
      \<Rightarrow> log_state \<times> nat \<Rightarrow> (log_state \<times> nat) result option" where
  "on_logger_conf_changed strf h opened old_value new_value w =
     (case w of (s, k) \<Rightarrow>
        map_option (\<lambda>r. rbind r (\<lambda>s1. rbind (update_loggers opened old_value new_value (s1, k))
            (\<lambda>w1. Inr (remove_loggers new_value old_value w1))))
          (SYLAR_LOG_LEVEL strf 2 (SYLAR_LOG_INFO h (m_root s) ''on_logger_conf_changed'') s))"

text \<open>\<open>g_log_defines\<close> and \<open>LogIniter\<close>: the variable "logs" and its listener \<open>cb\<close>.\<close>

definition g_log_defines ::
    "nat \<Rightarrow> (log_define list, 'cb) config \<Rightarrow> ((log_define list, 'cb) config \<times> nat option) result" where
  "g_log_defines new c = Lookup new ''set<LogDefine>'' ''logs'' [] ''logs config'' c"

definition LogIniter :: "nat \<Rightarrow> 'cb \<Rightarrow> (log_define list, 'cb) config \<Rightarrow> (log_define list, 'cb) config" where
  "LogIniter p cb c = fst (addListener p cb c)"

text \<open>\<open>fromString\<close> of a variable whose listeners are calls of the one above.\<close>

definition call_listeners ::
    "(string \<Rightarrow> u64 \<Rightarrow> string) \<Rightarrow> log_site \<Rightarrow> (string \<Rightarrow> bool) \<Rightarrow> ('cb \<times> log_define list \<times> log_define list) list
      \<Rightarrow> log_state \<times> nat \<Rightarrow> (log_state \<times> nat) result option" where
  "call_listeners strf h opened calls w =
     fold (\<lambda>(_, old_value, new_value) r. case r of
         Some (Inr w1) \<Rightarrow> on_logger_conf_changed strf h opened old_value new_value w1 | _ \<Rightarrow> r) calls (Some (Inr w))"

definition logs_fromString ::
    "'n yaml_api \<Rightarrow> (string \<Rightarrow> u64 \<Rightarrow> string) \<Rightarrow> log_site \<Rightarrow> (string \<Rightarrow> bool) \<Rightarrow> nat \<Rightarrow> string
      \<Rightarrow> (log_define list, 'cb) config \<Rightarrow> log_state \<times> nat \<Rightarrow> (log_state \<times> nat) result option" where
  "logs_fromString y strf h opened p val c w =
     (case fromString (log_casts y) p val c of
        Inl e \<Rightarrow> Some (Inl e)
      | Inr (c1, _) \<Rightarrow> call_listeners strf h opened (drop (length (notified c)) (notified c1)) w)"

section \<open>What the casts keep\<close>

text \<open>A definition after it was written and read back.\<close>

definition kept_appender :: "appender_define \<Rightarrow> appender_define option" where
  "kept_appender a =
     (if ad_type a = 1 then Some (a\<lparr>ad_level := UNKNOW\<rparr>)
      else if ad_type a = 2 then Some (LogAppenderDefine\<lparr>ad_type := 2\<rparr>) else None)"

definition kept :: "log_define \<Rightarrow> log_define" where
  "kept d = d\<lparr>ld_formatter := [], ld_appenders := List.map_filter kept_appender (ld_appenders d)\<rparr>"

lemma text_at_map:
  "node_laws y \<Longrightarrow> distinct (map fst kns) \<Longrightarrow> text_at y (y_map y kns) k
    = (case map_of kns k of None \<Rightarrow> Inr None | Some x \<Rightarrow> rbind (y_as_string y x) (\<lambda>t. Inr (Some t)))"
  by (simp add: text_at_def node_laws_def)

lemma as_string_str: "node_laws y \<Longrightarrow> y_as_string y (y_str y s) = Inr s"
  by (simp add: node_laws_def)

lemma seq_nodes:
  assumes "node_laws y" shows "map (\<lambda>i. f (y_at y (y_seq y ns) i)) [0..<y_size y (y_seq y ns)] = map f ns"
  using assms by (intro nth_equalityI) (simp_all add: node_laws_def)

lemma mapM_nodes:
  "node_laws y \<Longrightarrow> mapM (\<lambda>i. f (y_at y (y_seq y ns) i)) [0..<y_size y (y_seq y ns)] = mapM f ns"
  using mapM_map [of f "y_at y (y_seq y ns)" "[0..<y_size y (y_seq y ns)]"] seq_nodes [of y "\<lambda>x. x" ns] by simp

lemma FromString_ToString: "FromString (ToString l) = l"
  by (cases l) (simp_all add: FromString_def ToString_def)

lemma appender_round:
  assumes y: "node_laws y"
  shows "appender_from y (appender_to y a) = Inr (kept_appender a)"
proof -
  note t = text_at_map [OF y] as_string_str [OF y]
  show ?thesis
    by (cases a) (auto simp: appender_from_def appender_to_def t level_entry_def kept_appender_def LogAppenderDefine_def)
qed

lemma define_round:
  assumes y: "node_laws y"
  shows "define_from y (define_to y d) = Inr (Some (kept d))"
proof -
  note t = text_at_map [OF y] as_string_str [OF y]
  let ?kns = "(''name'', y_str y (ld_name d)) # level_entry y (ld_level d)
      @ (if ld_formatter d = [] then [(''formatter'', y_str y (ld_formatter d))] else [])
      @ (if ld_appenders d \<noteq> [] then [(''appenders'', y_seq y (map (appender_to y) (ld_appenders d)))] else [])"
  have dk: "distinct (map fst ?kns)" by (simp add: level_entry_def)
  have g: "y_get y (y_map y ?kns) k = Inr (map_of ?kns k)" for k using y dk unfolding node_laws_def by blast
  have ads: "mapM (appender_from y) (map (appender_to y) as) = Inr (map kept_appender as)" for as
    unfolding mapM_map by (rule mapM_total) (rule appender_round [OF y])
  have mf: "List.map_filter id (map kept_appender as) = List.map_filter kept_appender as" for as
    by (simp add: List.map_filter_def filter_map comp_def)
  have lv: "FromString [] = UNKNOW" by (simp add: FromString_def)
  have ap: "appenders_from y (if ld_appenders d \<noteq> [] then Some (y_seq y (map (appender_to y) (ld_appenders d))) else None)
      = Inr (List.map_filter kept_appender (ld_appenders d))"
    using mapM_nodes [OF y, of "appender_from y" "map (appender_to y) (ld_appenders d)"] ads mf
    by (simp add: appenders_from_def List.map_filter_simps)
  have m: "map_of ?kns k
    = (if k = ''name'' then Some (y_str y (ld_name d))
       else if k = ''level'' then (if ld_level d \<noteq> UNKNOW then Some (y_str y (ToString (ld_level d))) else None)
       else if k = ''formatter'' then (if ld_formatter d = [] then Some (y_str y (ld_formatter d)) else None)
       else if k = ''appenders'' then (if ld_appenders d \<noteq> [] then Some (y_seq y (map (appender_to y) (ld_appenders d))) else None)
       else None)" for k
    by (simp add: level_entry_def)
  show ?thesis
    unfolding define_from_def define_to_def t(1) [OF dk] g m
    by (cases "ld_level d = UNKNOW"; cases "ld_formatter d = []")
      (simp_all add: t(2) FromString_ToString lv ap kept_def del: map_of.simps split del: if_split)
qed

lemma defines_from_sorted: "defines_from y v = Inr ds \<Longrightarrow> sorted_wrt LogDefine_lt ds"
  by (auto simp: defines_from_def rbind_Inr_iff intro: define_order.sorted_fold_insert)

text \<open>Only the two types of appenders are read.\<close>

lemma appender_from_type:
  assumes "appender_from y n = Inr (Some a)"
  shows "ad_type a = 1 \<or> ad_type a = 2"
  using assms unfolding appender_from_def
  by (cases "text_at y n ''type''"; cases "text_at y n ''file''"; cases "text_at y n ''formatter''")
    (auto simp: LogAppenderDefine_def Let_def split: option.split_asm if_split_asm)

definition types_ok :: "log_define \<Rightarrow> bool" where
  "types_ok d \<longleftrightarrow> (\<forall>a \<in> set (ld_appenders d). ad_type a = 1 \<or> ad_type a = 2)"

lemma mapM_Inr_member: "mapM f xs = Inr ys \<Longrightarrow> y \<in> set ys \<Longrightarrow> \<exists>x \<in> set xs. f x = Inr y"
  by (induction xs arbitrary: ys) (auto simp: rbind_Inr_iff)

lemma set_map_filter_id: "x \<in> set (List.map_filter id zs) \<longleftrightarrow> Some x \<in> set zs"
  by (induction zs) (auto simp: List.map_filter_simps split: option.splits)

lemma appenders_from_types:
  assumes "appenders_from y ap = Inr ads" and "a \<in> set ads"
  shows "ad_type a = 1 \<or> ad_type a = 2"
proof (cases ap)
  case (Some as)
  then obtain zs where zs: "mapM (\<lambda>x. appender_from y (y_at y as x)) [0..<y_size y as] = Inr zs" "Some a \<in> set zs"
    using assms by (auto simp: appenders_from_def rbind_Inr_iff set_map_filter_id)
  show ?thesis using mapM_Inr_member [OF zs] by (auto dest: appender_from_type)
qed (use assms in \<open>simp add: appenders_from_def\<close>)

lemma define_from_types:
  assumes "define_from y n = Inr (Some d)"
  shows "types_ok d"
proof -
  have "\<exists>ap. appenders_from y ap = Inr (ld_appenders d)"
    using assms unfolding define_from_def
    by (cases "text_at y n ''name''"; cases "text_at y n ''level''"; cases "text_at y n ''formatter''"; cases "y_get y n ''appenders''")
      (auto simp: rbind_Inr_iff split: option.split_asm)
  then show ?thesis using appenders_from_types unfolding types_ok_def by blast
qed

lemma defines_from_types: "defines_from y v = Inr ds \<Longrightarrow> d \<in> set ds \<Longrightarrow> types_ok d"
  using define_order.set_fold_insert [of _ "[]"]
  by (fastforce simp: defines_from_def rbind_Inr_iff set_map_filter_id dest!: mapM_Inr_member intro: define_from_types)

section \<open>What the listener does to the loggers\<close>

text \<open>The specification: a logger as its level, its formatter and its appenders.\<close>

type_synonym logger_view = "level \<times> formatter option \<times> appender list"

definition view :: "log_state \<Rightarrow> string \<Rightarrow> logger_view option" where
  "view s n = map_option (\<lambda>lg. (l_level (logger_at s lg), l_formatter (logger_at s lg),
     map (appender_at s) (l_appenders (logger_at s lg)))) (m_loggers s n)"

definition valid_pattern :: "string \<Rightarrow> bool" where
  "valid_pattern p \<longleftrightarrow> p \<noteq> [] \<and> \<not> m_error (LogFormatter p)"

definition made :: "(string \<Rightarrow> bool) \<Rightarrow> formatter option \<Rightarrow> appender_define \<Rightarrow> appender" where
  "made opened f a =
     \<lparr>a_sink = (if ad_type a = 1 then File (ad_file a) else Console),
      a_open = (ad_type a = 1 \<longrightarrow> opened (ad_file a)), a_level = ad_level a,
      a_hasFormatter = valid_pattern (ad_formatter a),
      a_formatter = (if valid_pattern (ad_formatter a) then Some (LogFormatter (ad_formatter a)) else f)\<rparr>"

definition formatter_of :: "logger_view option \<Rightarrow> formatter option" where
  "formatter_of v = (case v of Some (_, f, _) \<Rightarrow> f | None \<Rightarrow> Some (LogFormatter default_pattern))"

definition new_formatter :: "log_define \<Rightarrow> formatter option \<Rightarrow> formatter option" where
  "new_formatter d f = (if valid_pattern (ld_formatter d) then Some (LogFormatter (ld_formatter d)) else f)"

definition set_up :: "(string \<Rightarrow> bool) \<Rightarrow> log_define \<Rightarrow> logger_view option \<Rightarrow> logger_view" where
  "set_up opened d v = (ld_level d, new_formatter d (formatter_of v),
     map (made opened (new_formatter d (formatter_of v))) (ld_appenders d))"

definition turned_off :: "logger_view option \<Rightarrow> logger_view" where
  "turned_off v = (UNKNOW, formatter_of v, [])"

definition apply_define :: "(string \<Rightarrow> bool) \<Rightarrow> log_define \<Rightarrow> (string \<Rightarrow> logger_view option) \<Rightarrow> string \<Rightarrow> logger_view option" where
  "apply_define opened d V = V(ld_name d \<mapsto> set_up opened d (V (ld_name d)))"

definition apply_removal :: "log_define list \<Rightarrow> log_define \<Rightarrow> (string \<Rightarrow> logger_view option) \<Rightarrow> string \<Rightarrow> logger_view option" where
  "apply_removal new_value d V =
     (if set_find LogDefine_lt d new_value = None then V(ld_name d \<mapsto> turned_off (V (ld_name d))) else V)"

text \<open>The states the listener may run in: addresses from \<open>k\<close> on are free, and no two loggers share
  an appender.\<close>

definition conf_ok :: "nat \<Rightarrow> log_state \<Rightarrow> bool" where
  "conf_ok k s \<longleftrightarrow> log_inv s
     \<and> (\<forall>lg \<in> ran (m_loggers s). lg < k \<and> (\<forall>p \<in> set (l_appenders (logger_at s lg)). p < k))
     \<and> (\<forall>lg \<in> ran (m_loggers s). \<forall>lg' \<in> ran (m_loggers s). lg \<noteq> lg'
          \<longrightarrow> set (l_appenders (logger_at s lg)) \<inter> set (l_appenders (logger_at s lg')) = {})"

lemma define_appender_made:
  assumes "ad_type a = 1 \<or> ad_type a = 2"
  shows "\<exists>ap. define_appender opened a = Inr ap
    \<and> addAppender lg k (put_appender k ap s)
        = put_logger lg ((logger_at s lg)\<lparr>l_appenders := l_appenders (logger_at s lg) @ [k]\<rparr>)
            (put_appender k (made opened (l_formatter (logger_at s lg)) a) s)"
  using assms
  by (auto simp: define_appender_def new_appender_def appender_setLevel_def appender_setFormatter_def FileLogAppender_def
      reopen_def StdoutLogAppender_def made_def valid_pattern_def addAppender_def put_appender_def put_logger_def Let_def)

lemma add_appenders_outcome:
  assumes "\<forall>a \<in> set as. ad_type a = 1 \<or> ad_type a = 2"
  shows "\<exists>s'. add_appenders opened lg as (s, k) = Inr (s', k + length as)
    \<and> logger_at s' = (logger_at s)(lg := (logger_at s lg)\<lparr>l_appenders := l_appenders (logger_at s lg) @ [k..<k + length as]\<rparr>)
    \<and> (\<forall>p. appender_at s' p = (if k \<le> p \<and> p < k + length as
         then made opened (l_formatter (logger_at s lg)) (as ! (p - k)) else appender_at s p))
    \<and> m_loggers s' = m_loggers s \<and> m_root s' = m_root s \<and> written s' = written s"
  using assms
proof (induction as arbitrary: s k)
  case (Cons a as)
  let ?l = "logger_at s lg" and ?s1 = "put_logger lg ((logger_at s lg)\<lparr>l_appenders := l_appenders (logger_at s lg) @ [k]\<rparr>)
            (put_appender k (made opened (l_formatter (logger_at s lg)) a) s)"
  obtain ap where ap: "define_appender opened a = Inr ap" "addAppender lg k (put_appender k ap s) = ?s1"
    using define_appender_made [of a opened lg k s] Cons.prems by auto
  have ty: "\<forall>a \<in> set as. ad_type a = 1 \<or> ad_type a = 2" using Cons.prems by simp
  from Cons.IH [OF ty, of ?s1 "Suc k"]
  obtain s' where s': "add_appenders opened lg as (?s1, Suc k) = Inr (s', Suc k + length as)"
    "logger_at s' = (logger_at ?s1)(lg := (logger_at ?s1 lg)\<lparr>l_appenders := l_appenders (logger_at ?s1 lg) @ [Suc k..<Suc k + length as]\<rparr>)"
    "\<forall>p. appender_at s' p = (if Suc k \<le> p \<and> p < Suc k + length as
       then made opened (l_formatter (logger_at ?s1 lg)) (as ! (p - Suc k)) else appender_at ?s1 p)"
    "m_loggers s' = m_loggers ?s1" "m_root s' = m_root ?s1" "written s' = written ?s1"
    by blast
  have up: "[k..<k + length (a # as)] = k # [Suc k..<Suc k + length as]"
  proof -
    have e: "k + length (a # as) = Suc k + length as" by simp
    show ?thesis unfolding e by (rule upt_conv_Cons) simp
  qed
  have "logger_at s' = (logger_at s)(lg := ?l\<lparr>l_appenders := l_appenders ?l @ [k..<k + length (a # as)]\<rparr>)"
    unfolding s'(2) up by (simp add: fun_eq_iff del: upt_Suc)
  moreover have "add_appenders opened lg (a # as) (s, k) = Inr (s', k + length (a # as))" using ap s'(1) by simp
  moreover have "\<forall>p. appender_at s' p = (if k \<le> p \<and> p < k + length (a # as)
      then made opened (l_formatter ?l) ((a # as) ! (p - k)) else appender_at s p)"
    using s'(3) by (auto simp: nth_Cons' not_less_eq_eq)
  moreover have "m_loggers s' = m_loggers s" "m_root s' = m_root s" "written s' = written s" using s'(4-6) by simp_all
  ultimately show ?case by blast
qed auto

lemma set_up_logger_outcome:
  assumes "types_ok d" and old: "\<forall>p \<in> set (l_appenders (logger_at s lg)). p < k"
  shows "\<exists>s'. set_up_logger opened lg d (s, k) = Inr (s', k + length (ld_appenders d))
    \<and> logger_at s' = (logger_at s)(lg := (logger_at s lg)\<lparr>l_level := ld_level d,
         l_formatter := new_formatter d (l_formatter (logger_at s lg)), l_appenders := [k..<k + length (ld_appenders d)]\<rparr>)
    \<and> map (appender_at s') [k..<k + length (ld_appenders d)]
        = map (made opened (new_formatter d (l_formatter (logger_at s lg)))) (ld_appenders d)
    \<and> (\<forall>p. p < k \<longrightarrow> p \<notin> set (l_appenders (logger_at s lg)) \<longrightarrow> appender_at s' p = appender_at s p)
    \<and> m_loggers s' = m_loggers s \<and> m_root s' = m_root s \<and> written s' = written s"
proof -
  let ?s1 = "logger_setLevel lg (ld_level d) s"
  let ?s2 = "if ld_formatter d \<noteq> [] then setFormatter_str lg (ld_formatter d) ?s1 else ?s1"
  let ?s3 = "clearAppenders lg ?s2" and ?n = "length (ld_appenders d)"
  have l3: "logger_at ?s3 = (logger_at s)(lg := (logger_at s lg)\<lparr>l_level := ld_level d,
      l_formatter := new_formatter d (l_formatter (logger_at s lg)), l_appenders := []\<rparr>)"
    by (simp add: clearAppenders_def setFormatter_str_def setFormatter_def logger_setLevel_def Let_def
        new_formatter_def valid_pattern_def)
  have a3: "p \<notin> set (l_appenders (logger_at s lg)) \<Longrightarrow> appender_at ?s3 p = appender_at s p" for p
    by (simp add: clearAppenders_def setFormatter_str_def setFormatter_def logger_setLevel_def Let_def propagate_appender)
  have f3: "m_loggers ?s3 = m_loggers s" "m_root ?s3 = m_root s" "written ?s3 = written s"
    by (simp_all add: clearAppenders_def setFormatter_str_def setFormatter_def logger_setLevel_def Let_def)
  have ty: "\<forall>a \<in> set (ld_appenders d). ad_type a = 1 \<or> ad_type a = 2" using assms(1) by (simp add: types_ok_def)
  from add_appenders_outcome [OF ty, of opened lg ?s3 k]
  obtain s' where s': "add_appenders opened lg (ld_appenders d) (?s3, k) = Inr (s', k + ?n)"
    "logger_at s' = (logger_at ?s3)(lg := (logger_at ?s3 lg)\<lparr>l_appenders := l_appenders (logger_at ?s3 lg) @ [k..<k + ?n]\<rparr>)"
    "\<forall>p. appender_at s' p = (if k \<le> p \<and> p < k + ?n
       then made opened (l_formatter (logger_at ?s3 lg)) (ld_appenders d ! (p - k)) else appender_at ?s3 p)"
    "m_loggers s' = m_loggers ?s3" "m_root s' = m_root ?s3" "written s' = written ?s3"
    by blast
  have "set_up_logger opened lg d (s, k) = Inr (s', k + ?n)" using s'(1) by (simp add: set_up_logger_def Let_def)
  moreover have "map (appender_at s') [k..<k + ?n]
      = map (made opened (new_formatter d (l_formatter (logger_at s lg)))) (ld_appenders d)"
    by (rule nth_equalityI) (simp_all add: s'(3) l3)
  moreover have "\<forall>p. p < k \<longrightarrow> p \<notin> set (l_appenders (logger_at s lg)) \<longrightarrow> appender_at s' p = appender_at s p"
    using s'(3) a3 by auto
  ultimately show ?thesis using s'(2,4,5,6) l3 f3 by simp
qed

lemma conf_ok_facts:
  assumes "conf_ok k s"
  shows "log_inv s" "m_loggers s n = Some lg \<Longrightarrow> lg < k"
    "m_loggers s n = Some lg \<Longrightarrow> p \<in> set (l_appenders (logger_at s lg)) \<Longrightarrow> p < k"
    "m_loggers s n = Some lg \<Longrightarrow> m_loggers s n' = Some lg \<Longrightarrow> n = n'"
    "m_loggers s n = Some lg \<Longrightarrow> m_loggers s n' = Some lg' \<Longrightarrow> lg \<noteq> lg'
      \<Longrightarrow> set (l_appenders (logger_at s lg)) \<inter> set (l_appenders (logger_at s lg')) = {}"
    "m_loggers s n = Some lg \<Longrightarrow> \<exists>f. l_formatter (logger_at s lg) = Some f"
proof -
  have r: "m_loggers s n = Some lg \<Longrightarrow> lg \<in> ran (m_loggers s)" for n lg by (rule ranI)
  show inv: "log_inv s" using assms by (simp add: conf_ok_def)
  show "m_loggers s n = Some lg \<Longrightarrow> lg < k"
    "m_loggers s n = Some lg \<Longrightarrow> p \<in> set (l_appenders (logger_at s lg)) \<Longrightarrow> p < k"
    using assms r unfolding conf_ok_def by blast+
  show "m_loggers s n = Some lg \<Longrightarrow> m_loggers s n' = Some lg \<Longrightarrow> n = n'"
    using inv unfolding log_inv_def logger_ok_def by metis
  show "m_loggers s n = Some lg \<Longrightarrow> m_loggers s n' = Some lg' \<Longrightarrow> lg \<noteq> lg'
      \<Longrightarrow> set (l_appenders (logger_at s lg)) \<inter> set (l_appenders (logger_at s lg')) = {}"
    using assms r unfolding conf_ok_def by blast
  show "m_loggers s n = Some lg \<Longrightarrow> \<exists>f. l_formatter (logger_at s lg) = Some f"
    using inv unfolding log_inv_def logger_ok_def by (metis not_None_eq)
qed

text \<open>Looking a logger up, making it when it is new.\<close>

lemma log_name_outcome:
  assumes ok: "conf_ok k s"
  shows "\<exists>s' lg. SYLAR_LOG_NAME name (s, k) = ((s', k + 1), lg) \<and> conf_ok (k + 1) s'
    \<and> m_loggers s' name = Some lg \<and> (\<forall>n. n \<noteq> name \<longrightarrow> view s' n = view s n)
    \<and> l_formatter (logger_at s' lg) = formatter_of (view s name)
    \<and> written s' = written s"
proof (cases "m_loggers s name")
  case None
  have new: "k \<notin> ran (m_loggers s)" using conf_ok_facts(2) [OF ok] by (auto simp: ran_def)
  let ?s' = "fst (getLogger k name s)"
  have inv: "log_inv ?s'" by (rule log_inv_get [OF conf_ok_facts(1) [OF ok] new])
  have s': "m_loggers ?s' = (m_loggers s)(name \<mapsto> k)" "logger_at ?s' = (logger_at s)(k := (Logger_new name)\<lparr>l_root := Some (m_root s)\<rparr>)"
    "appender_at ?s' = appender_at s" "written ?s' = written s"
    using None by (simp_all add: getLogger_def)
  have r: "ran (m_loggers ?s') = insert k (ran (m_loggers s))" unfolding s'(1) using None by simp
  have "conf_ok (k + 1) ?s'"
    using ok inv new unfolding conf_ok_def r by (auto simp: s' Logger_new_def less_Suc_eq)
  moreover have "\<forall>n. n \<noteq> name \<longrightarrow> view ?s' n = view s n"
    using new by (auto simp: view_def s' ran_def option.map_comp intro!: map_option_cong split: option.split)
  moreover have "l_formatter (logger_at ?s' k) = formatter_of (view s name)"
    using None by (simp add: s' Logger_new_def formatter_of_def view_def)
  ultimately show ?thesis using None s' by (simp add: SYLAR_LOG_NAME_def getLogger_def)
next
  case (Some lg)
  have "conf_ok (k + 1) s" using ok by (auto simp: conf_ok_def less_SucI)
  then show ?thesis using Some by (simp add: SYLAR_LOG_NAME_def getLogger_def formatter_of_def view_def)
qed

text \<open>Changing a logger and giving it appenders of its own.\<close>

lemma conf_ok_replace:
  assumes ok: "conf_ok k s" and lg: "m_loggers s name = Some lg" and kk: "k \<le> k'"
    and l: "logger_at s' = (logger_at s)(lg := (logger_at s lg)\<lparr>l_level := v, l_formatter := Some f, l_appenders := [k..<k']\<rparr>)"
    and new: "map (appender_at s') [k..<k'] = as" "\<forall>a \<in> set as. a_formatter a \<noteq> None"
    and same: "\<forall>p. p < k \<longrightarrow> p \<notin> set (l_appenders (logger_at s lg)) \<longrightarrow> appender_at s' p = appender_at s p"
    and m: "m_loggers s' = m_loggers s" "m_root s' = m_root s"
  shows "conf_ok k' s'" and "view s' = (view s)(name \<mapsto> (v, Some f, as))"
proof -
  note ok' = conf_ok_facts [OF ok]
  have new': "a_formatter (appender_at s' p) \<noteq> None" if "k \<le> p" "p < k'" for p
  proof -
    have "appender_at s' p \<in> set as" using that unfolding new(1) [symmetric] by simp
    then show ?thesis using new(2) by blast
  qed
  have keep: "appender_at s' p = appender_at s p" if "m_loggers s n = Some lg'" "lg' \<noteq> lg" "p \<in> set (l_appenders (logger_at s lg'))" for n lg' p
    using same ok'(3) [OF that(1,3)] ok'(5) [OF that(1) lg that(2)] that(3) by blast
  have fmt: "a_formatter (appender_at s' ap) \<noteq> None"
    if r: "lga \<in> ran (m_loggers s)" and ap: "ap \<in> set (l_appenders (logger_at s' lga))" for lga ap
  proof (cases "lga = lg")
    case True
    then show ?thesis using ap l new' by simp
  next
    case False
    obtain n where n: "m_loggers s n = Some lga" using r by (auto simp: ran_def)
    have ap': "ap \<in> set (l_appenders (logger_at s lga))" using ap l False by simp
    show ?thesis using keep [OF n False ap'] attached_formatter [OF ok'(1) r ap'] by simp
  qed
  have inv: "log_inv s'"
    by (rule log_inv_mono [OF ok'(1) m _ fmt]) (auto simp: l)
  show "conf_ok k' s'"
    using ok inv kk l unfolding conf_ok_def m by (force simp: lg split: if_splits)
  show "view s' = (view s)(name \<mapsto> (v, Some f, as))"
  proof
    fix n
    show "view s' n = ((view s)(name \<mapsto> (v, Some f, as))) n"
    proof (cases "n = name")
      case True
      then show ?thesis using l lg m new(1) by (simp add: view_def)
    next
      case False
      then have "lg' \<noteq> lg" if "m_loggers s n = Some lg'" for lg' using ok'(4) [OF that, of name] lg by auto
      then show ?thesis using False l m keep by (auto simp: view_def option.map_comp intro!: map_option_cong)
    qed
  qed
qed

text \<open>Setting up one logger, and turning one off.\<close>

lemma new_formatter_Some: "\<exists>f'. new_formatter d (Some f) = Some f'"
  by (simp add: new_formatter_def)

lemma set_up_view:
  assumes ok: "conf_ok k s" and ty: "types_ok d"
  shows "\<exists>s' k'. (let (w1, lg) = SYLAR_LOG_NAME (ld_name d) (s, k) in set_up_logger opened lg d w1) = Inr (s', k')
    \<and> conf_ok k' s' \<and> view s' = apply_define opened d (view s)"
proof -
  obtain s1 lg where s1: "SYLAR_LOG_NAME (ld_name d) (s, k) = ((s1, k + 1), lg)" "conf_ok (k + 1) s1"
    "m_loggers s1 (ld_name d) = Some lg" "\<forall>n. n \<noteq> ld_name d \<longrightarrow> view s1 n = view s n"
    "l_formatter (logger_at s1 lg) = formatter_of (view s (ld_name d))"
    using log_name_outcome [OF ok, of "ld_name d"] by blast
  note ok1 = conf_ok_facts [OF s1(2)]
  obtain f where f: "l_formatter (logger_at s1 lg) = Some f"
    using ok1(6) [OF s1(3)] by blast
  obtain f' where f': "new_formatter d (Some f) = Some f'" using new_formatter_Some by blast
  let ?k = "k + 1 + length (ld_appenders d)"
  have below: "\<forall>p \<in> set (l_appenders (logger_at s1 lg)). p < k + 1" using ok1(3) [OF s1(3)] by blast
  from set_up_logger_outcome [OF ty below, of opened]
  obtain s' where s': "set_up_logger opened lg d (s1, k + 1) = Inr (s', ?k)"
    "logger_at s' = (logger_at s1)(lg := (logger_at s1 lg)\<lparr>l_level := ld_level d,
       l_formatter := new_formatter d (l_formatter (logger_at s1 lg)), l_appenders := [k + 1..<?k]\<rparr>)"
    "map (appender_at s') [k + 1..<?k] = map (made opened (new_formatter d (l_formatter (logger_at s1 lg)))) (ld_appenders d)"
    "\<forall>p. p < k + 1 \<longrightarrow> p \<notin> set (l_appenders (logger_at s1 lg)) \<longrightarrow> appender_at s' p = appender_at s1 p"
    "m_loggers s' = m_loggers s1" "m_root s' = m_root s1"
    by blast
  have le: "k + 1 \<le> ?k" by simp
  have mf: "\<forall>a \<in> set (map (made opened (Some f')) (ld_appenders d)). a_formatter a \<noteq> None" by (auto simp: made_def)
  note r = conf_ok_replace [OF s1(2,3) le s'(2) [unfolded f f'] s'(3) [unfolded f f'] mf s'(4-6)]
  have "set_up opened d (view s (ld_name d)) = (ld_level d, Some f', map (made opened (Some f')) (ld_appenders d))"
    using f f' s1(5) by (simp add: set_up_def)
  moreover have "(view s1)(ld_name d \<mapsto> x) = (view s)(ld_name d \<mapsto> x)" for x using s1(4) by auto
  ultimately have "view s' = apply_define opened d (view s)" using r(2) by (simp add: apply_define_def)
  then show ?thesis using s1(1) s'(1) r(1) by auto
qed

lemma turn_off_view:
  assumes ok: "conf_ok k s"
  shows "\<exists>s' k'. (case SYLAR_LOG_NAME name (s, k) of ((s1, k1), lg) \<Rightarrow> (clearAppenders lg (logger_setLevel lg UNKNOW s1), k1)) = (s', k')
    \<and> conf_ok k' s' \<and> view s' = (view s)(name \<mapsto> turned_off (view s name))"
proof -
  obtain s1 lg where s1: "SYLAR_LOG_NAME name (s, k) = ((s1, k + 1), lg)" "conf_ok (k + 1) s1"
    "m_loggers s1 name = Some lg" "\<forall>n. n \<noteq> name \<longrightarrow> view s1 n = view s n"
    "l_formatter (logger_at s1 lg) = formatter_of (view s name)"
    using log_name_outcome [OF ok, of name] by blast
  obtain f where f: "l_formatter (logger_at s1 lg) = Some f"
    using conf_ok_facts(6) [OF s1(2,3)] by blast
  let ?s' = "clearAppenders lg (logger_setLevel lg UNKNOW s1)"
  have l: "logger_at ?s' = (logger_at s1)(lg := (logger_at s1 lg)\<lparr>l_level := UNKNOW, l_formatter := Some f, l_appenders := [k + 1..<k + 1]\<rparr>)"
    using f by (auto simp: clearAppenders_def logger_setLevel_def fun_eq_iff)
  have "map (appender_at ?s') [k + 1..<k + 1] = []" by simp
  note r = conf_ok_replace [OF s1(2,3) _ l this]
  have "(view s1)(name \<mapsto> x) = (view s)(name \<mapsto> x)" for x using s1(4) by auto
  then show ?thesis
    using r f s1(1,5) by (simp add: clearAppenders_def logger_setLevel_def turned_off_def)
qed

text \<open>The loops.\<close>

definition equal_old :: "log_define list \<Rightarrow> log_define \<Rightarrow> bool" where
  "equal_old old_value d \<longleftrightarrow> (\<exists>d' \<in> set old_value. LogDefine_eq d d')"

lemma update_step:
  assumes "sorted_wrt LogDefine_lt old_value"
  shows "update_loggers opened old_value (d # ds) w =
    (if equal_old old_value d then Inl (Undefined ''null logger'')
     else rbind (let (w1, lg) = SYLAR_LOG_NAME (ld_name d) w in set_up_logger opened lg d w1) (update_loggers opened old_value ds))"
proof (cases "set_find LogDefine_lt d old_value")
  case None
  then have "\<not> equal_old old_value d"
    using define_order.set_find_None_iff [OF assms] by (auto simp: equal_old_def LogDefine_eq_def LogDefine_lt_def)
  then show ?thesis using None by simp
next
  case (Some i)
  note i = define_order.set_find_Some [OF assms Some]
  have "y = old_value ! i" if y: "y \<in> set old_value" and eq: "LogDefine_eq d y" for y
  proof -
    have "ld_name y = ld_name (old_value ! i)" using i eq by (auto simp: LogDefine_lt_def LogDefine_eq_def)
    moreover obtain j where j: "j < length old_value" "y = old_value ! j" using y by (auto simp: in_set_conv_nth)
    ultimately have n: "ld_name (old_value ! j) = ld_name (old_value ! i)" by simp
    have lt: "a < b \<Longrightarrow> b < length old_value \<Longrightarrow> ld_name (old_value ! a) < ld_name (old_value ! b)" for a b
      using assms by (simp add: sorted_wrt_iff_nth_less LogDefine_lt_def)
    have il: "i < length old_value" using i by blast
    have "\<not> i < j" "\<not> j < i" using lt [OF _ j(1), of i] lt [OF _ il, of j] unfolding n by blast+
    then have "i = j" by simp
    then show ?thesis using j by simp
  qed
  then have "equal_old old_value d \<longleftrightarrow> LogDefine_eq d (old_value ! i)"
    using i by (auto simp: equal_old_def)
  then show ?thesis using Some by simp
qed

lemma update_view:
  assumes "sorted_wrt LogDefine_lt old_value" and "conf_ok k s" and "\<forall>d \<in> set ds. types_ok d \<and> \<not> equal_old old_value d"
  shows "\<exists>s' k'. update_loggers opened old_value ds (s, k) = Inr (s', k') \<and> conf_ok k' s'
    \<and> view s' = fold (apply_define opened) ds (view s)"
  using assms(2,3)
proof (induction ds arbitrary: s k)
  case (Cons d ds)
  then have ty: "types_ok d" and ne: "\<not> equal_old old_value d" by simp_all
  from set_up_view [OF Cons.prems(1) ty, of opened]
  obtain s1 k1 where s1: "(let (w1, lg) = SYLAR_LOG_NAME (ld_name d) (s, k) in set_up_logger opened lg d w1) = Inr (s1, k1)"
    "conf_ok k1 s1" "view s1 = apply_define opened d (view s)"
    by blast
  obtain s' k' where s': "update_loggers opened old_value ds (s1, k1) = Inr (s', k')" "conf_ok k' s'"
    "view s' = fold (apply_define opened) ds (view s1)"
    using Cons.IH [OF s1(2)] Cons.prems(2) by auto
  have "update_loggers opened old_value (d # ds) (s, k) = Inr (s', k')"
    unfolding update_step [OF assms(1)] s1(1) using ne s'(1) by simp
  then show ?case using s'(2,3) s1(3) by (simp del: update_loggers.simps)
qed simp

lemma update_faults:
  assumes "sorted_wrt LogDefine_lt old_value" and "conf_ok k s" and "\<forall>d \<in> set ds. types_ok d" and "\<exists>d \<in> set ds. equal_old old_value d"
  shows "update_loggers opened old_value ds (s, k) = Inl (Undefined ''null logger'')"
  using assms(2-)
proof (induction ds arbitrary: s k)
  case (Cons d ds)
  show ?case
  proof (cases "equal_old old_value d")
    case False
    have ty: "types_ok d" using Cons.prems(2) by simp
    from set_up_view [OF Cons.prems(1) ty, of opened]
    obtain s1 k1 where s1: "(let (w1, lg) = SYLAR_LOG_NAME (ld_name d) (s, k) in set_up_logger opened lg d w1) = Inr (s1, k1)"
      "conf_ok k1 s1" by blast
    have "\<forall>d \<in> set ds. types_ok d" "\<exists>d \<in> set ds. equal_old old_value d" using Cons.prems(2,3) False by auto
    then show ?thesis unfolding update_step [OF assms(1)] s1(1) using False Cons.IH [OF s1(2)] by simp
  qed (simp only: update_step [OF assms(1)] if_True)
qed simp

lemma remove_view:
  assumes "conf_ok k s"
  shows "\<exists>s' k'. remove_loggers new_value ds (s, k) = (s', k') \<and> conf_ok k' s'
    \<and> view s' = fold (apply_removal new_value) ds (view s)"
  using assms
proof (induction ds arbitrary: s k)
  case (Cons d ds)
  show ?case
  proof (cases "set_find LogDefine_lt d new_value")
    case (Some i)
    then have "apply_removal new_value d (view s) = view s" by (simp add: apply_removal_def)
    then show ?thesis using Cons Some by simp
  next
    case None
    obtain s1 k1 where s1: "(case SYLAR_LOG_NAME (ld_name d) (s, k) of ((s1, k1), lg) \<Rightarrow> (clearAppenders lg (logger_setLevel lg UNKNOW s1), k1)) = (s1, k1)"
      "conf_ok k1 s1" "view s1 = (view s)(ld_name d \<mapsto> turned_off (view s (ld_name d)))"
      using turn_off_view [OF Cons.prems] by metis
    have "apply_removal new_value d (view s) = view s1" using None s1(3) by (simp add: apply_removal_def)
    then show ?thesis using Cons.IH [OF s1(2)] s1(1) None by simp
  qed
qed simp

text \<open>Pointwise.\<close>

definition reconfigured ::
    "(string \<Rightarrow> bool) \<Rightarrow> log_define list \<Rightarrow> log_define list \<Rightarrow> (string \<Rightarrow> logger_view option) \<Rightarrow> string \<Rightarrow> logger_view option" where
  "reconfigured opened old_value new_value V n =
     (case find (\<lambda>d. ld_name d = n) new_value of
        Some d \<Rightarrow> Some (set_up opened d (V n))
      | None \<Rightarrow> if n \<in> ld_name ` set old_value then Some (turned_off (V n)) else V n)"

lemma sorted_distinct: "sorted_wrt LogDefine_lt ds \<Longrightarrow> distinct (map ld_name ds)"
  by (induction ds) (auto simp: LogDefine_lt_def)

lemma find_name_None: "n \<notin> ld_name ` set ds \<Longrightarrow> find (\<lambda>d. ld_name d = n) ds = None"
  by (auto simp: find_None_iff)

lemma fold_apply_define:
  "distinct (map ld_name ds) \<Longrightarrow> fold (apply_define opened) ds V n
    = (case find (\<lambda>d. ld_name d = n) ds of Some d \<Rightarrow> Some (set_up opened d (V n)) | None \<Rightarrow> V n)"
proof (induction ds arbitrary: V)
  case (Cons d ds)
  then show ?case using find_name_None [of n ds] by (cases "n = ld_name d") (auto simp: apply_define_def)
qed simp

lemma find_in_set:
  assumes "sorted_wrt LogDefine_lt new_value"
  shows "set_find LogDefine_lt d new_value = None \<longleftrightarrow> ld_name d \<notin> ld_name ` set new_value"
  unfolding define_order.set_find_None_iff [OF assms] LogDefine_lt_def neq_iff [symmetric] by auto

lemma fold_apply_removal:
  assumes "sorted_wrt LogDefine_lt new_value"
  shows "distinct (map ld_name ds) \<Longrightarrow> fold (apply_removal new_value) ds V n
    = (if n \<in> ld_name ` set ds \<and> n \<notin> ld_name ` set new_value then Some (turned_off (V n)) else V n)"
proof (induction ds arbitrary: V)
  case (Cons d ds)
  show ?case
  proof (cases "n = ld_name d")
    case True
    then have "n \<notin> ld_name ` set ds" using Cons.prems by auto
    then show ?thesis using True Cons by (simp add: apply_removal_def find_in_set [OF assms])
  next
    case False
    then show ?thesis using Cons by (simp add: apply_removal_def)
  qed
qed simp

lemma reconfigured_fold:
  assumes "sorted_wrt LogDefine_lt old_value" "sorted_wrt LogDefine_lt new_value"
  shows "fold (apply_removal new_value) old_value (fold (apply_define opened) new_value V) = reconfigured opened old_value new_value V"
proof
  fix n
  have f: "find (\<lambda>d. ld_name d = n) new_value = None \<longleftrightarrow> n \<notin> ld_name ` set new_value"
    by (auto simp: find_None_iff)
  show "fold (apply_removal new_value) old_value (fold (apply_define opened) new_value V) n = reconfigured opened old_value new_value V n"
    unfolding fold_apply_removal [OF assms(2) sorted_distinct [OF assms(1)]]
      fold_apply_define [OF sorted_distinct [OF assms(2)]] reconfigured_def
    using f by (auto split: option.split)
qed

lemma conf_ok_written: "conf_ok k (s\<lparr>written := w\<rparr>) = conf_ok k s" "view (s\<lparr>written := w\<rparr>) = view s"
  by (simp_all add: conf_ok_def log_inv_def logger_ok_def view_def fun_eq_iff)

lemma announce:
  assumes strf: "\<And>fmt t. length (strf fmt t) < 64" and inv: "log_inv s"
  shows "\<exists>w. SYLAR_LOG_LEVEL strf 2 (SYLAR_LOG_INFO h (m_root s) txt) s = Some (Inr (s\<lparr>written := w\<rparr>))"
proof -
  have r: "m_loggers s ''root'' = Some (m_root s)" using inv by (simp add: log_inv_def)
  note o = Logger_log_outcome [where strf = strf and n = 0, OF strf inv r]
  have e: "m_logger (SYLAR_LOG_INFO h (m_root s) txt) = m_root s"
    by (simp add: SYLAR_LOG_INFO_def stream_in_def LogEvent_def)
  show ?thesis
    using o written_id by (auto simp: SYLAR_LOG_LEVEL_def LogEventWrap_delete_def e numeral_2_eq_2 simp del: Logger_log.simps)
qed

lemma conf_changed_outcome:
  assumes strf: "\<And>fmt t. length (strf fmt t) < 64" and ok: "conf_ok k s"
    and s: "sorted_wrt LogDefine_lt old_value" "sorted_wrt LogDefine_lt new_value"
    and ty: "\<forall>d \<in> set new_value. types_ok d"
  shows "(\<exists>d \<in> set new_value. equal_old old_value d) \<Longrightarrow>
      on_logger_conf_changed strf h opened old_value new_value (s, k) = Some (Inl (Undefined ''null logger''))"
    and "\<not> (\<exists>d \<in> set new_value. equal_old old_value d) \<Longrightarrow>
      \<exists>s' k'. on_logger_conf_changed strf h opened old_value new_value (s, k) = Some (Inr (s', k')) \<and> conf_ok k' s'
        \<and> view s' = reconfigured opened old_value new_value (view s)"
proof -
  obtain w where w: "SYLAR_LOG_LEVEL strf 2 (SYLAR_LOG_INFO h (m_root s) ''on_logger_conf_changed'') s = Some (Inr (s\<lparr>written := w\<rparr>))"
    using announce [where strf = strf, OF strf conf_ok_facts(1) [OF ok]] by blast
  have ok': "conf_ok k (s\<lparr>written := w\<rparr>)" using ok by (simp add: conf_ok_written)
  show "(\<exists>d \<in> set new_value. equal_old old_value d) \<Longrightarrow>
      on_logger_conf_changed strf h opened old_value new_value (s, k) = Some (Inl (Undefined ''null logger''))"
    using update_faults [OF s(1) ok' ty] w by (simp add: on_logger_conf_changed_def)
  show "\<exists>s' k'. on_logger_conf_changed strf h opened old_value new_value (s, k) = Some (Inr (s', k')) \<and> conf_ok k' s'
        \<and> view s' = reconfigured opened old_value new_value (view s)" if "\<not> (\<exists>d \<in> set new_value. equal_old old_value d)"
  proof -
    have t: "\<forall>d \<in> set new_value. types_ok d \<and> \<not> equal_old old_value d" using ty that by blast
    from update_view [OF s(1) ok' t, of opened]
    obtain s1 k1 where s1: "update_loggers opened old_value new_value (s\<lparr>written := w\<rparr>, k) = Inr (s1, k1)" "conf_ok k1 s1"
      "view s1 = fold (apply_define opened) new_value (view s)" by (auto simp: conf_ok_written)
    from remove_view [OF s1(2), of new_value old_value]
    obtain s' k' where "remove_loggers new_value old_value (s1, k1) = (s', k')" "conf_ok k' s'"
      "view s' = fold (apply_removal new_value) old_value (view s1)" by blast
    then show ?thesis using w s1 reconfigured_fold [OF s] by (simp add: on_logger_conf_changed_def)
  qed
qed

section \<open>A configuration of the loggers\<close>

text \<open>The state of the witnesses: the loggers root and system of Loggers.thy, the variable "logs" at 3
  that defines system, and two texts.\<close>

definition lc_system :: log_define where
  "lc_system = \<lparr>ld_name = ''system'', ld_level = DEBUG, ld_formatter = [], ld_appenders = []\<rparr>"

definition lc_net :: log_define where
  "lc_net = \<lparr>ld_name = ''net'', ld_level = ERROR, ld_formatter = [], ld_appenders = [LogAppenderDefine\<lparr>ad_type := 2\<rparr>]\<rparr>"

definition lc_net_node :: ynode where
  "lc_net_node = YMap [(''name'', YScalar ''net''), (''level'', YScalar ''ERROR''),
     (''appenders'', YSeq [YMap [(''type'', YScalar ''StdoutLogAppender'')]])]"

definition lc_system_node :: ynode where
  "lc_system_node = YMap [(''name'', YScalar ''system''), (''level'', YScalar ''DEBUG'')]"

definition lc_yaml :: "ynode yaml_api" where
  "lc_yaml = ydemo\<lparr>y_load := (\<lambda>t. if t = ''net'' then Inr (YSeq [lc_net_node])
     else if t = ''net and system'' then Inr (YSeq [lc_net_node, lc_system_node]) else Inr (YScalar t))\<rparr>"

definition lc_config :: "(log_define list, nat) config" where
  "lc_config = setValue (log_casts lc_yaml) 3 [lc_system]
     (LogIniter 3 30 (fst (projr (g_log_defines 3 \<lparr>var_at = (\<lambda>_. ConfigVar_new [] [] [] []), GetDatas = (\<lambda>_. None),
        s_fun_id = (\<lambda>_. 0), notified = []\<rparr>))))"

definition lc_site :: log_site where
  "lc_site = \<lparr>at_file = ''log.cc'', at_line = 691, at_thread = 100, at_fiber = 0, at_time = 1683417600, at_name = ''main''\<rparr>"

lemma lc_ok: "conf_ok 10 ldemo"
proof -
  have "m_loggers ldemo = [''root'' \<mapsto> 0, ''system'' \<mapsto> 2]"
    by (auto simp: ldemo_def ldemo1_def ldemo0_def getLogger_def setFormatter_str_def ldemo_pattern setFormatter_def
        Let_def LoggerManager_def addAppender_def Logger_new_def ldemo_formatter_def)
  then have "ran (m_loggers ldemo) = {0, 2}" by auto
  then show ?thesis using ldemo log_reach_inv by (auto simp: conf_ok_def)
qed

lemma lc_texts:
  "defines_from lc_yaml ''net'' = Inr [lc_net]" "defines_from lc_yaml ''net and system'' = Inr [lc_net, lc_system]"
  by (simp_all add: defines_from_def define_from_def appenders_from_def appender_from_def text_at_def lc_yaml_def ydemo_def
      lc_net_node_def lc_system_node_def lc_net_def lc_system_def FromString_def List.map_filter_simps LogDefine_lt_def
      LogAppenderDefine_def less_char_def)

lemma lc_var: "map snd (m_cbs (var_at lc_config 3)) = [30]" "getValue 3 lc_config = [lc_system]"
  "sorted_wrt LogDefine_lt [lc_system]"
  by (simp_all add: lc_config_def getValue_def g_log_defines_def Lookup_def valid_name_def valid_chars_def LogIniter_def
      addListener_def Let_def ConfigVar_new_def setValue_value log_casts_def)

section \<open>Properties\<close>

text \<open>C29: setting the variable "logs" from a YAML text, with one listener: when every definition has
  the name, level and formatter it had, in the same order, nothing happens at all, even if the
  appenders changed; otherwise, when some definition has the name, level and formatter it had, the
  listener uses a null logger; otherwise every logger defined by the text gets its level, its
  formatter (unless that is empty or invalid, then it keeps its own) and exactly the new appenders,
  every logger defined before but no longer is turned off, and all other loggers stay as they are.\<close>

theorem log_reload_exact:
  assumes strf: "\<And>fmt t. length (strf fmt t) < 64" and ok: "conf_ok k s"
    and cb: "map snd (m_cbs (var_at c p)) = [cb]"
    and old: "getValue p c = old_value" "sorted_wrt LogDefine_lt old_value"
    and new: "defines_from y txt = Inr new_value"
  shows "(if list_all2 LogDefine_eq new_value old_value
          then logs_fromString y strf h opened p txt c (s, k) = Some (Inr (s, k))
          else if \<exists>d \<in> set new_value. \<exists>d' \<in> set old_value. LogDefine_eq d d'
          then logs_fromString y strf h opened p txt c (s, k) = Some (Inl (Undefined ''null logger''))
          else (\<exists>s' k'. logs_fromString y strf h opened p txt c (s, k) = Some (Inr (s', k')) \<and> conf_ok k' s'
            \<and> view s' = reconfigured opened old_value new_value (view s)))"
proof -
  have ty: "\<forall>d \<in> set new_value. types_ok d" using defines_from_types [OF new] by blast
  note out = conf_changed_outcome [where strf = strf and h = h and opened = opened, OF strf ok old(2) defines_from_sorted [OF new] ty]
  obtain key where m: "m_cbs (var_at c p) = [(key, cb)]" using cb by (auto simp: map_eq_Cons_conv)
  let ?same = "list_all2 LogDefine_eq new_value old_value"
  have f: "fromString (log_casts y) p txt c = Inr (setValue (log_casts y) p new_value c, False)"
    using new by (simp add: fromString_def log_casts_def)
  have "notified (setValue (log_casts y) p new_value c) = notified c @ (if ?same then [] else [(cb, old_value, new_value)])"
    using old(1) m by (simp add: setValue_value log_casts_def getValue_def)
  then have "logs_fromString y strf h opened p txt c (s, k)
      = (if ?same then Some (Inr (s, k)) else on_logger_conf_changed strf h opened old_value new_value (s, k))"
    using f by (simp add: logs_fromString_def call_listeners_def)
  then show ?thesis using out unfolding equal_old_def by presburger
qed

theorem log_reload_exact_witness:
  "(\<exists>s' k'. logs_fromString lc_yaml ldemo_strf lc_site (\<lambda>_. True) 3 ''net'' lc_config (ldemo, 10) = Some (Inr (s', k'))
      \<and> map_option fst (view s' ''net'') = Some ERROR \<and> map_option fst (view s' ''system'') = Some UNKNOW)
    \<and> logs_fromString lc_yaml ldemo_strf lc_site (\<lambda>_. True) 3 ''net and system'' lc_config (ldemo, 10)
        = Some (Inl (Undefined ''null logger''))"
proof -
  have b: "length (ldemo_strf fmt t) < 64" for fmt t by (simp add: ldemo_strf_def)
  note ex = log_reload_exact [where strf = ldemo_strf and h = lc_site and opened = "\<lambda>_. True", OF b lc_ok lc_var]
  have ne: "\<not> LogDefine_eq lc_net lc_system" "LogDefine_eq lc_system lc_system"
    by (simp_all add: LogDefine_eq_def lc_net_def lc_system_def)
  show ?thesis
    using ex [OF lc_texts(1)] ex [OF lc_texts(2)] ne
    by (auto simp: reconfigured_def set_up_def turned_off_def lc_net_def lc_system_def)
qed

text \<open>C30: writing the definitions of loggers as YAML and reading them back keeps the names, the levels
  of the loggers, the types and files of their appenders and the formatters of file appenders, and
  loses the formatters of all loggers, the levels of all appenders and the formatters of console
  appenders; appenders of no type disappear.\<close>

theorem log_defines_roundtrip:
  assumes y: "node_laws y" and v: "sorted_wrt LogDefine_lt v" and law: "seq_law y (map (define_to y) v)"
  shows "defines_from y (defines_to y v) = Inr (map kept v)"
proof -
  have l: "y_load y (y_emit y (y_seq y (map (define_to y) v))) = Inr (y_seq y (map (define_to y) v))"
    using law by (simp add: seq_law_def)
  have m: "mapM (\<lambda>i. define_from y (y_at y (y_seq y (map (define_to y) v)) i)) [0..<y_size y (y_seq y (map (define_to y) v))]
      = Inr (map (\<lambda>d. Some (kept d)) v)"
    unfolding mapM_nodes [OF y] mapM_map by (rule mapM_total) (rule define_round [OF y])
  have mf: "List.map_filter id (map (\<lambda>d. Some (kept d)) v) = map kept v"
    by (simp add: List.map_filter_def comp_def)
  have "LogDefine_lt (kept a) (kept b) = LogDefine_lt a b" for a b by (simp add: kept_def LogDefine_lt_def)
  then have "sorted_wrt LogDefine_lt (map kept v)" using v by (simp add: sorted_wrt_map)
  then have "fold (set_insert LogDefine_lt) (map kept v) [] = map kept v"
    using define_order.fold_set_insert [of "[]"] by simp
  then show ?thesis using l m mf by (simp add: defines_from_def defines_to_def)
qed


definition lc_law_yaml :: "ynode yaml_api" where
  "lc_law_yaml = lc_yaml\<lparr>y_load := (\<lambda>t. Inr (YSeq (map (define_to lc_yaml) [lc_net\<lparr>ld_formatter := ''%m''\<rparr>, lc_system])))\<rparr>"

theorem log_defines_roundtrip_witness:
  "defines_from lc_law_yaml (defines_to lc_law_yaml [lc_net\<lparr>ld_formatter := ''%m''\<rparr>, lc_system]) = Inr [lc_net, lc_system]"
proof -
  let ?v = "[lc_net\<lparr>ld_formatter := ''%m''\<rparr>, lc_system]"
  have y: "node_laws lc_law_yaml" by (simp add: node_laws_def lc_law_yaml_def lc_yaml_def ydemo_def)
  have s: "sorted_wrt LogDefine_lt ?v" by (simp add: LogDefine_lt_def lc_net_def lc_system_def less_char_def)
  have "map (define_to lc_law_yaml) ?v = map (define_to lc_yaml) ?v"
    by (simp add: define_to_def appender_to_def level_entry_def lc_law_yaml_def lc_net_def lc_system_def)
  then have law: "seq_law lc_law_yaml (map (define_to lc_law_yaml) ?v)"
    by (simp add: seq_law_def lc_law_yaml_def lc_yaml_def ydemo_def)
  show ?thesis
    using log_defines_roundtrip [OF y s law]
    by (simp add: kept_def kept_appender_def lc_net_def lc_system_def LogAppenderDefine_def List.map_filter_simps)
qed

end
