(* ===== verification/ConfigTypes.thy ===== *)
theory ConfigTypes
  imports Configs
begin

text \<open>
  Types of configuration variables (sylar/config.h, config.cc). A \<open>ConfigVar<T>\<close> is found again by its
  name alone, and whether it is one of the wanted type is asked at run time. \<open>wt ty v\<close>: \<open>v\<close> is a value
  of type \<open>ty\<close>. What the compiler checks are hypotheses on the operations; that the registry keeps
  to it is shown here, in the manner of a type soundness proof: types never change, and every
  operation keeps the values typed.
\<close>

section \<open>Typed registries\<close>

definition typed :: "(string \<Rightarrow> 'v \<Rightarrow> bool) \<Rightarrow> ('v, 'cb) config \<Rightarrow> bool" where
  "typed wt s \<longleftrightarrow> (\<forall>name p. GetDatas s name = Some p \<longrightarrow> wt (m_type (var_at s p)) (m_val (var_at s p)))"

definition casts_typed :: "(string \<Rightarrow> 'v \<Rightarrow> bool) \<Rightarrow> 'v casts \<Rightarrow> bool" where
  "casts_typed wt cs \<longleftrightarrow> (\<forall>ty txt v. from_str cs ty txt = Inr v \<longrightarrow> wt ty v)"

text \<open>What a well-typed program does with the registry.\<close>

inductive typed_op :: "(string \<Rightarrow> 'v \<Rightarrow> bool) \<Rightarrow> 'v casts \<Rightarrow> ('v, 'cb) config \<Rightarrow> ('v, 'cb) config \<Rightarrow> bool" for wt cs where
  to_lookup: "new \<notin> ran (GetDatas s) \<Longrightarrow> wt ty dflt \<Longrightarrow> Lookup new ty name dflt desc s = Inr (s', r) \<Longrightarrow> typed_op wt cs s s'"
| to_set: "wt (m_type (var_at s p)) v \<Longrightarrow> typed_op wt cs s (setValue cs p v s)"
| to_from: "fromString cs p txt s = Inr (s', b) \<Longrightarrow> typed_op wt cs s s'"
| to_add: "typed_op wt cs s (fst (addListener p cb s))"
| to_del: "typed_op wt cs s (delListener p k s)"
| to_clear: "typed_op wt cs s (clearListener p s)"

inductive typed_ops :: "(string \<Rightarrow> 'v \<Rightarrow> bool) \<Rightarrow> 'v casts \<Rightarrow> ('v, 'cb) config \<Rightarrow> ('v, 'cb) config \<Rightarrow> bool" for wt cs where
  tos_refl: "typed_ops wt cs s s"
| tos_step: "typed_ops wt cs s s' \<Longrightarrow> typed_op wt cs s' s'' \<Longrightarrow> typed_ops wt cs s s''"

text \<open>The later registry knows every variable of the earlier one, under the same name and type.\<close>

definition cfg_le :: "('v, 'cb) config \<Rightarrow> ('v, 'cb) config \<Rightarrow> bool" where
  "cfg_le s s' \<longleftrightarrow> (\<forall>name p. GetDatas s name = Some p \<longrightarrow> GetDatas s' name = Some p
     \<and> m_type (var_at s' p) = m_type (var_at s p) \<and> m_cname (var_at s' p) = m_cname (var_at s p))"

lemma cfg_le_refl [simp]: "cfg_le s s"
  by (simp add: cfg_le_def)

lemma cfg_le_trans: "cfg_le s s' \<Longrightarrow> cfg_le s' s'' \<Longrightarrow> cfg_le s s''"
  unfolding cfg_le_def by metis

text \<open>An operation that leaves the registry and everything but values and listeners of variables.\<close>

lemma cfg_le_same:
  "GetDatas s' = GetDatas s \<Longrightarrow> (\<And>q. m_type (var_at s' q) = m_type (var_at s q) \<and> m_cname (var_at s' q) = m_cname (var_at s q))
    \<Longrightarrow> cfg_le s s'"
  by (simp add: cfg_le_def)

lemma setValue_cname [simp]: "m_cname (var_at (setValue cs p v s) q) = m_cname (var_at s q)"
  by (simp add: setValue_def setValue_notify_def setValue_store_def Let_def)

lemma setValue_typed: "typed wt s \<Longrightarrow> wt (m_type (var_at s p)) v \<Longrightarrow> typed wt (setValue cs p v s) \<and> cfg_le s (setValue cs p v s)"
  by (auto simp: typed_def setValue_value cfg_le_same)

lemma fromString_typed:
  assumes "casts_typed wt cs" and "typed wt s" and "fromString cs p txt s = Inr (s', b)"
  shows "typed wt s' \<and> cfg_le s s'"
  using assms setValue_typed [of wt s p _ cs]
  by (auto simp: fromString_def casts_typed_def split: sum.splits fault.splits)

lemma Lookup_ext:
  assumes "new \<notin> ran (GetDatas s)" and "wt ty dflt" and "Lookup new ty name dflt desc s = Inr (s', r)" and "typed wt s"
  shows "typed wt s' \<and> cfg_le s s'"
  using assms by (auto simp: Lookup_def typed_def cfg_le_def ConfigVar_new_def ran_def split: option.splits if_splits)

lemma typed_op_keeps:
  assumes cs: "casts_typed wt cs"
  shows "typed_op wt cs s s' \<Longrightarrow> typed wt s \<Longrightarrow> typed wt s' \<and> cfg_le s s'"
proof (induction rule: typed_op.induct)
  case (to_from p t s s' b)
  then show ?case using fromString_typed [OF cs] by blast
next
  case (to_lookup new s ty dflt name desc s' r)
  then show ?case using Lookup_ext [of new s wt ty dflt name desc s' r] by simp
next
  case (to_set s p v)
  then show ?case using setValue_typed [of wt s p v cs] by simp
qed (auto simp: addListener_def delListener_def clearListener_def Let_def typed_def cfg_le_def)

lemma typed_ops_keeps:
  assumes cs: "casts_typed wt cs"
  shows "typed_ops wt cs s s' \<Longrightarrow> typed wt s \<Longrightarrow> typed wt s' \<and> cfg_le s s'"
proof (induction rule: typed_ops.induct)
  case (tos_step s s' s'')
  then show ?case using typed_op_keeps [OF cs tos_step(2)] cfg_le_trans by blast
qed simp

text \<open>Loading a file is such a program.\<close>

lemma typed_ops_trans: "typed_ops wt cs s' s'' \<Longrightarrow> typed_ops wt cs s s' \<Longrightarrow> typed_ops wt cs s s''"
  by (induction rule: typed_ops.induct) (auto intro: tos_step)

lemma load_nodes_ops: "load_nodes cs y ns s = Inr s' \<Longrightarrow> typed_ops wt cs s s'"
proof (induction ns arbitrary: s)
  case (Cons e ns)
  obtain key node where e: "e = (key, node)" by force
  show ?case
  proof (cases "key = [] \<or> LookupBase (map tolower key) s = None")
    case True
    then show ?thesis using Cons e by (cases "key = []") auto
  next
    case False
    then obtain p where p: "LookupBase (map tolower key) s = Some p" by blast
    then obtain s1 b where s1: "fromString cs p (node_text y node) s = Inr (s1, b)" "load_nodes cs y ns s1 = Inr s'"
      using Cons.prems False e by (auto simp: rbind_Inr_iff)
    then show ?thesis
      using typed_ops_trans [OF Cons.IH [OF s1(2)]] tos_step [OF tos_refl to_from [OF s1(1)]] by blast
  qed
qed (simp add: tos_refl)

lemma load_ops: "LoadFromYaml cs y d root s = Some (Inr s') \<Longrightarrow> typed_ops wt cs s s'"
  using load_nodes_ops by (auto simp: LoadFromYaml_def)

section \<open>Properties\<close>

text \<open>C27: a name belongs to the variable and to the type it was first looked up with for ever: whatever a
  well-typed program does, loading files included, a later \<open>Lookup\<close> under that name returns this very
  variable to who asks for its type, and null to everyone else, changing nothing; and the value of
  every variable that any \<open>Lookup\<close> returns is one of the type asked for.\<close>

theorem config_type_sound:
  assumes cs: "casts_typed wt cs" and start: "typed wt s" and run: "typed_ops wt cs s s'"
  shows "(\<forall>name p. GetDatas s name = Some p \<longrightarrow>
        Lookup_typed ty name s' = (if ty = m_type (var_at s p) then Some p else None)
        \<and> Lookup new ty name dflt desc s' = Inr (s', if ty = m_type (var_at s p) then Some p else None))
    \<and> (\<forall>name p. Lookup_typed ty name s' = Some p \<longrightarrow> wt ty (getValue p s'))
    \<and> (\<forall>name p s''. new \<notin> ran (GetDatas s') \<longrightarrow> wt ty dflt \<longrightarrow> Lookup new ty name dflt desc s' = Inr (s'', Some p)
          \<longrightarrow> wt ty (getValue p s''))"
proof -
  have k: "typed wt s'" "cfg_le s s'" using typed_ops_keeps [OF cs run start] by simp_all
  then show ?thesis
    by (auto simp: cfg_le_def typed_def Lookup_typed_def Lookup_def getValue_def ConfigVar_new_def
        split: option.splits if_splits)
qed

theorem config_type_sound_witness:
  "\<exists>s'. LoadFromYaml cdemo_casts ydemo 3 (YMap [(''tcp'', YMap [(''size'', YScalar ''7'')])]) cdemo = Some (Inr s')
    \<and> Lookup_typed ''i'' ''tcp.size'' s' = Some 3 \<and> Lookup 4 ''s'' ''tcp.size'' 0 [] s' = Inr (s', None)
    \<and> getValue 3 s' < 10"
proof -
  let ?root = "YMap [(''tcp'', YMap [(''size'', YScalar ''7'')])]" and ?wt = "\<lambda>(_ :: string) v. v < (10 :: nat)"
  have cs: "casts_typed ?wt cdemo_casts" by (auto simp: casts_typed_def cdemo_casts_def cdemo_from_def split: if_splits)
  have dom: "GetDatas cdemo = [''tcp.size'' \<mapsto> 3]"
    by (simp add: cdemo_def cdemo1_def cdemo0_def Lookup_def valid_name_def valid_chars_def addListener_def Let_def)
  have ty: "typed ?wt cdemo" using cdemo(3) by (auto simp: typed_def dom getValue_def split: if_splits)
  have ns: "ListAllMember ydemo 3 [] ?root = Some [([], ?root), (''tcp'', YMap [(''size'', YScalar ''7'')]), (''tcp.size'', YScalar ''7'')]"
    by (simp add: ydemo_def numeral_3_eq_3 valid_name_def valid_chars_def)
  obtain s' where s': "LoadFromYaml cdemo_casts ydemo 3 ?root cdemo = Some (Inr s')"
    using ns dom by (auto simp: LoadFromYaml_def LookupBase_def tolower_def fromString_def cdemo_casts_def cdemo_from_def
        node_text_def ydemo_def)
  have ops: "typed_ops ?wt cdemo_casts cdemo s'" by (rule load_ops [OF s'])
  have i: "Lookup_typed ''i'' ''tcp.size'' s' = Some 3"
    and wt: "Lookup_typed ''i'' ''tcp.size'' s' = Some 3 \<Longrightarrow> getValue 3 s' < 10"
    using config_type_sound [OF cs ty ops, of "''i''" 4 0 "[]"] cdemo(2,4) by (simp, blast)
  have "Lookup 4 ''s'' ''tcp.size'' 0 [] s' = Inr (s', None)"
    using config_type_sound [OF cs ty ops, of "''s''" 4 0 "[]"] cdemo(2,4) by simp
  then show ?thesis using s' i wt [OF i] by blast
qed

end
