(* ===== verification/Locks.thy ===== *)
theory Locks
  imports Prelude
begin

text \<open>
  sylar/mutex.h and sylar/mutex.cpp: the mutexes, the lock of an atomic flag, the scoped locks over
  them, and the semaphore. A thread that calls an operation is a number. An operation that waits
  (or goes on spinning) in the present state is \<open>None\<close>: the thread stays where it is and nothing has
  changed. What a scoped lock needs of the class it is instantiated with is the locale \<open>lockable\<close>;
  mutual exclusion is proved there, for any number of threads in any interleaving.
\<close>

type_synonym tid = nat

section \<open>Mutexes\<close>

text \<open>A \<open>pthread_mutex_t\<close> of the default kind and a \<open>pthread_spinlock_t\<close>: the thread that holds it.
  Unlocking what one does not hold is undefined.\<close>

type_synonym mutex = "tid option"

definition Mutex :: mutex where
  "Mutex = None"

definition Mutex_lock :: "tid \<Rightarrow> mutex \<Rightarrow> mutex option" where
  "Mutex_lock t m = (case m of None \<Rightarrow> Some (Some t) | Some _ \<Rightarrow> None)"

definition Mutex_unlock :: "tid \<Rightarrow> mutex \<Rightarrow> mutex result" where
  "Mutex_unlock t m = (if m = Some t then Inr None else Inl (Undefined ''pthread_mutex_unlock''))"

definition Spinlock :: mutex where
  "Spinlock = None"

definition Spinlock_lock :: "tid \<Rightarrow> mutex \<Rightarrow> mutex option" where
  "Spinlock_lock t m = (case m of None \<Rightarrow> Some (Some t) | Some _ \<Rightarrow> None)"

definition Spinlock_unlock :: "tid \<Rightarrow> mutex \<Rightarrow> mutex result" where
  "Spinlock_unlock t m = (if m = Some t then Inr None else Inl (Undefined ''pthread_spin_unlock''))"

definition NullMutex_lock :: "tid \<Rightarrow> unit \<Rightarrow> unit option" where
  "NullMutex_lock t m = Some m"

definition NullMutex_unlock :: "tid \<Rightarrow> unit \<Rightarrow> unit result" where
  "NullMutex_unlock t m = Inr m"

section \<open>The lock of an atomic flag\<close>

text \<open>\<open>test_and_set\<close> sets the flag and returns what it was, in one step; the loop of \<open>lock\<close> ends with
  the first call that returns false.\<close>

definition test_and_set :: "bool \<Rightarrow> bool \<times> bool" where
  "test_and_set f = (True, f)"

definition CASLock :: bool where
  "CASLock = False"

definition CASLock_lock :: "tid \<Rightarrow> bool \<Rightarrow> bool option" where
  "CASLock_lock t m_mutex =
     (let (m_mutex', was) = test_and_set m_mutex in if was then None else Some m_mutex')"

definition CASLock_unlock :: "tid \<Rightarrow> bool \<Rightarrow> bool result" where
  "CASLock_unlock t m_mutex = Inr False"

text \<open>The loop itself: the flags that the calls of \<open>test_and_set\<close> find one after the other, as other
  threads leave them. It returns how many calls it made, \<open>None\<close> while it spins.\<close>

fun CASLock_spin :: "bool list \<Rightarrow> nat option" where
  "CASLock_spin [] = None"
| "CASLock_spin (f # fs) = (if snd (test_and_set f) then map_option Suc (CASLock_spin fs) else Some 1)"

section \<open>Read-write mutex\<close>

text \<open>A \<open>pthread_rwlock_t\<close>: the threads that hold it for reading, and the one that does for writing.\<close>

record rwmutex =
  readers :: "tid list"
  writer :: "tid option"

definition RWMutex :: rwmutex where
  "RWMutex = \<lparr>readers = [], writer = None\<rparr>"

definition rdlock :: "tid \<Rightarrow> rwmutex \<Rightarrow> rwmutex option" where
  "rdlock t m = (if writer m = None then Some (m\<lparr>readers := t # readers m\<rparr>) else None)"

definition wrlock :: "tid \<Rightarrow> rwmutex \<Rightarrow> rwmutex option" where
  "wrlock t m = (if writer m = None \<and> readers m = [] then Some (m\<lparr>writer := Some t\<rparr>) else None)"

definition RWMutex_unlock :: "tid \<Rightarrow> rwmutex \<Rightarrow> rwmutex result" where
  "RWMutex_unlock t m =
     (if writer m = Some t then Inr (m\<lparr>writer := None\<rparr>)
      else if t \<in> set (readers m) then Inr (m\<lparr>readers := remove1 t (readers m)\<rparr>)
      else Inl (Undefined ''pthread_rwlock_unlock''))"

section \<open>Scoped locks\<close>

text \<open>The members of a scoped lock: whether it is locked; the mutex is passed along. The three
  templates differ in the function they lock with. \<open>lk\<close> and \<open>ul\<close> are \<open>m_mutex.lock\<close> and
  \<open>m_mutex.unlock\<close>; \<open>None\<close> waits.\<close>

record guard =
  m_locked :: bool

definition ScopedLock :: "(tid \<Rightarrow> 's \<Rightarrow> 's option) \<Rightarrow> tid \<Rightarrow> 's \<Rightarrow> (guard \<times> 's) option" where
  "ScopedLock lk t s = map_option (\<lambda>s'. (\<lparr>m_locked = True\<rparr>, s')) (lk t s)"

definition ScopedLock_lock :: "(tid \<Rightarrow> 's \<Rightarrow> 's option) \<Rightarrow> tid \<Rightarrow> guard \<times> 's \<Rightarrow> (guard \<times> 's) option" where
  "ScopedLock_lock lk t gs =
     (case gs of (g, s) \<Rightarrow>
        if \<not> m_locked g then map_option (\<lambda>s'. (g\<lparr>m_locked := True\<rparr>, s')) (lk t s) else Some (g, s))"

definition ScopedLock_unlock :: "(tid \<Rightarrow> 's \<Rightarrow> 's result) \<Rightarrow> tid \<Rightarrow> guard \<times> 's \<Rightarrow> (guard \<times> 's) result" where
  "ScopedLock_unlock ul t gs =
     (case gs of (g, s) \<Rightarrow>
        if m_locked g then rbind (ul t s) (\<lambda>s'. Inr (g\<lparr>m_locked := False\<rparr>, s')) else Inr (g, s))"

definition ScopedLock_delete :: "(tid \<Rightarrow> 's \<Rightarrow> 's result) \<Rightarrow> tid \<Rightarrow> guard \<times> 's \<Rightarrow> 's result" where
  "ScopedLock_delete ul t gs = rbind (ScopedLock_unlock ul t gs) (\<lambda>(_, s). Inr s)"

definition ReadScopedLock :: "tid \<Rightarrow> rwmutex \<Rightarrow> (guard \<times> rwmutex) option" where
  "ReadScopedLock t s = map_option (\<lambda>s'. (\<lparr>m_locked = True\<rparr>, s')) (rdlock t s)"

definition ReadScopedLock_lock :: "tid \<Rightarrow> guard \<times> rwmutex \<Rightarrow> (guard \<times> rwmutex) option" where
  "ReadScopedLock_lock t gs =
     (case gs of (g, s) \<Rightarrow>
        if \<not> m_locked g then map_option (\<lambda>s'. (g\<lparr>m_locked := True\<rparr>, s')) (rdlock t s) else Some (g, s))"

definition ReadScopedLock_unlock :: "tid \<Rightarrow> guard \<times> rwmutex \<Rightarrow> (guard \<times> rwmutex) result" where
  "ReadScopedLock_unlock t gs =
     (case gs of (g, s) \<Rightarrow>
        if m_locked g then rbind (RWMutex_unlock t s) (\<lambda>s'. Inr (g\<lparr>m_locked := False\<rparr>, s')) else Inr (g, s))"

definition WriteScopedLock :: "tid \<Rightarrow> rwmutex \<Rightarrow> (guard \<times> rwmutex) option" where
  "WriteScopedLock t s = map_option (\<lambda>s'. (\<lparr>m_locked = True\<rparr>, s')) (wrlock t s)"

definition WriteScopedLock_lock :: "tid \<Rightarrow> guard \<times> rwmutex \<Rightarrow> (guard \<times> rwmutex) option" where
  "WriteScopedLock_lock t gs =
     (case gs of (g, s) \<Rightarrow>
        if \<not> m_locked g then map_option (\<lambda>s'. (g\<lparr>m_locked := True\<rparr>, s')) (wrlock t s) else Some (g, s))"

definition WriteScopedLock_unlock :: "tid \<Rightarrow> guard \<times> rwmutex \<Rightarrow> (guard \<times> rwmutex) result" where
  "WriteScopedLock_unlock t gs =
     (case gs of (g, s) \<Rightarrow>
        if m_locked g then rbind (RWMutex_unlock t s) (\<lambda>s'. Inr (g\<lparr>m_locked := False\<rparr>, s')) else Inr (g, s))"

definition ReadScopedLock_delete :: "tid \<Rightarrow> guard \<times> rwmutex \<Rightarrow> rwmutex result" where
  "ReadScopedLock_delete t gs = rbind (ReadScopedLock_unlock t gs) (\<lambda>(_, s). Inr s)"

definition WriteScopedLock_delete :: "tid \<Rightarrow> guard \<times> rwmutex \<Rightarrow> rwmutex result" where
  "WriteScopedLock_delete t gs = rbind (WriteScopedLock_unlock t gs) (\<lambda>(_, s). Inr s)"

section \<open>Semaphore\<close>

text \<open>\<open>sem_t\<close> counts up to \<open>SEM_VALUE_MAX\<close>. \<open>wait\<close> fails when a signal handler interrupts it.\<close>

definition SEM_VALUE_MAX :: nat where
  "SEM_VALUE_MAX = 2 ^ 31 - 1"

definition Semaphore :: "u32 \<Rightarrow> nat result" where
  "Semaphore count =
     (if unat count > SEM_VALUE_MAX then Inl (Thrown ''sem_init error'') else Inr (unat count))"

definition wait :: "bool \<Rightarrow> nat \<Rightarrow> nat result option" where
  "wait interrupted m_semaphore =
     (if 0 < m_semaphore then Some (Inr (m_semaphore - 1))
      else if interrupted then Some (Inl (Thrown ''sem_wait error'')) else None)"

definition notify :: "nat \<Rightarrow> nat result" where
  "notify m_semaphore =
     (if m_semaphore = SEM_VALUE_MAX then Inl (Thrown ''sem_post error'') else Inr (m_semaphore + 1))"

section \<open>Threads that use a scoped lock\<close>

text \<open>Each thread has at most one scoped lock on the mutex, at \<open>g t\<close>; in a step some thread makes,
  locks, unlocks or destroys its own. A step whose lock waits does not exist.\<close>

inductive guard_step ::
    "(tid \<Rightarrow> 's \<Rightarrow> 's option) \<Rightarrow> (tid \<Rightarrow> 's \<Rightarrow> 's result) \<Rightarrow> (tid \<Rightarrow> guard option) \<times> 's \<Rightarrow> (tid \<Rightarrow> guard option) \<times> 's \<Rightarrow> bool"
  for lk ul where
  gs_new: "g t = None \<Longrightarrow> ScopedLock lk t s = Some (x, s') \<Longrightarrow> guard_step lk ul (g, s) (g(t \<mapsto> x), s')"
| gs_lock: "g t = Some x \<Longrightarrow> ScopedLock_lock lk t (x, s) = Some (x', s') \<Longrightarrow> guard_step lk ul (g, s) (g(t \<mapsto> x'), s')"
| gs_unlock: "g t = Some x \<Longrightarrow> ScopedLock_unlock ul t (x, s) = Inr (x', s') \<Longrightarrow> guard_step lk ul (g, s) (g(t \<mapsto> x'), s')"
| gs_delete: "g t = Some x \<Longrightarrow> ScopedLock_delete ul t (x, s) = Inr s' \<Longrightarrow> guard_step lk ul (g, s) (g(t := None), s')"

inductive guard_reach ::
    "(tid \<Rightarrow> 's \<Rightarrow> 's option) \<Rightarrow> (tid \<Rightarrow> 's \<Rightarrow> 's result) \<Rightarrow> 's \<Rightarrow> (tid \<Rightarrow> guard option) \<times> 's \<Rightarrow> bool"
  for lk ul s0 where
  gr_start: "guard_reach lk ul s0 ((\<lambda>_. None), s0)"
| gr_next: "guard_reach lk ul s0 w \<Longrightarrow> guard_step lk ul w w' \<Longrightarrow> guard_reach lk ul s0 w'"

inductive_cases guard_stepE: "guard_step lk ul w w'"

definition locked_by :: "(tid \<Rightarrow> guard option) \<Rightarrow> tid \<Rightarrow> bool" where
  "locked_by g t \<longleftrightarrow> (\<exists>x. g t = Some x \<and> m_locked x)"

text \<open>What the users of a lock rely on: one thread at most is inside, every scoped lock can be destroyed,
  and a thread that asks for the lock gets it exactly when nobody is inside.\<close>

definition exclusive_use :: "(tid \<Rightarrow> 's \<Rightarrow> 's option) \<Rightarrow> (tid \<Rightarrow> 's \<Rightarrow> 's result) \<Rightarrow> (tid \<Rightarrow> guard option) \<Rightarrow> 's \<Rightarrow> bool" where
  "exclusive_use lk ul g s \<longleftrightarrow> (\<forall>t t'. \<not> (locked_by g t \<and> locked_by g t' \<and> t \<noteq> t'))
     \<and> (\<forall>t. case g t of None \<Rightarrow> True | Some x \<Rightarrow> (\<exists>s'. ScopedLock_delete ul t (x, s) = Inr s'))
     \<and> (\<forall>t. (\<forall>t'. \<not> locked_by g t') \<longleftrightarrow> lk t s \<noteq> None)"

text \<open>The laws: the mutex is given to a thread exactly when it is free, and the thread that was given
  it (\<open>may\<close>) can give it back.\<close>

locale lockable =
  fixes lk :: "tid \<Rightarrow> 's \<Rightarrow> 's option" and ul :: "tid \<Rightarrow> 's \<Rightarrow> 's result"
    and free :: "'s \<Rightarrow> bool" and may :: "tid \<Rightarrow> 's \<Rightarrow> bool" and s0 :: 's
  assumes start_free: "free s0"
    and lock_free: "free s \<Longrightarrow> \<exists>s'. lk t s = Some s' \<and> \<not> free s' \<and> may t s'"
    and lock_taken: "\<not> free s \<Longrightarrow> lk t s = None"
    and unlock_may: "\<not> free s \<Longrightarrow> may t s \<Longrightarrow> \<exists>s'. ul t s = Inr s' \<and> free s'"
begin

definition excl :: "(tid \<Rightarrow> guard option) \<times> 's \<Rightarrow> bool" where
  "excl w \<longleftrightarrow> (case w of (g, s) \<Rightarrow>
     (\<forall>t t'. locked_by g t \<longrightarrow> locked_by g t' \<longrightarrow> t = t') \<and> (\<forall>t. locked_by g t \<longrightarrow> may t s) \<and> (free s \<longleftrightarrow> (\<forall>t. \<not> locked_by g t)))"

lemma lock_Some: "lk t s = Some s' \<Longrightarrow> free s \<and> \<not> free s' \<and> may t s'"
  using lock_free lock_taken by (metis option.distinct(1) option.sel)

lemma locked_by_upd [simp]:
  "locked_by (g(t \<mapsto> x)) t' \<longleftrightarrow> (if t' = t then m_locked x else locked_by g t')"
  "locked_by (g(t := None)) t' \<longleftrightarrow> t' \<noteq> t \<and> locked_by g t'"
  by (auto simp: locked_by_def)

lemma excl_take: "excl (g, s) \<Longrightarrow> lk t s = Some s' \<Longrightarrow> m_locked x \<Longrightarrow> excl (g(t \<mapsto> x), s')"
  using lock_Some [of t s s'] by (auto simp: excl_def)

lemma excl_give:
  assumes "excl (g, s)" "g t = Some x" "m_locked x" "ul t s = Inr s'" "\<not> locked_by g' t" "\<And>t'. t' \<noteq> t \<Longrightarrow> locked_by g' t' = locked_by g t'"
  shows "excl (g', s')"
proof -
  have t: "locked_by g t" using assms(2,3) by (simp add: locked_by_def)
  then have "\<not> free s" "may t s" using assms(1) by (auto simp: excl_def)
  then have "free s'" using unlock_may [of s t] assms(4) by auto
  moreover have "\<not> locked_by g' t'" for t'
  proof (cases "t' = t")
    case False
    then have "\<not> locked_by g t'" using assms(1) t by (auto simp: excl_def)
    then show ?thesis using assms(6) [OF False] by simp
  qed (use assms(5) in simp)
  ultimately show ?thesis by (simp add: excl_def)
qed

lemma excl_keep: "excl (g, s) \<Longrightarrow> locked_by g' = locked_by g \<Longrightarrow> excl (g', s)"
  by (simp add: excl_def)

lemma locked_by_same: "g t = Some x \<Longrightarrow> locked_by (g(t \<mapsto> x)) = locked_by g"
  "g t = Some x \<Longrightarrow> \<not> m_locked x \<Longrightarrow> locked_by (g(t := None)) = locked_by g"
  by (auto simp: fun_eq_iff locked_by_def)

lemma excl_step: "guard_step lk ul w w' \<Longrightarrow> excl w \<Longrightarrow> excl w'"
proof (induction rule: guard_step.induct)
  case (gs_new g t s x s')
  then show ?case by (auto simp: ScopedLock_def intro: excl_take)
next
  case (gs_lock g t x s x' s')
  then show ?case
    by (cases "m_locked x") (auto simp: ScopedLock_lock_def locked_by_same intro: excl_take excl_keep)
next
  case (gs_unlock g t x s x' s')
  show ?case
  proof (cases "m_locked x")
    case True
    then have "ul t s = Inr s'" "\<not> m_locked x'" using gs_unlock(2) by (auto simp: ScopedLock_unlock_def rbind_Inr_iff)
    then show ?thesis using excl_give [OF gs_unlock(3,1) True] by simp
  next
    case False
    then have "x' = x" "s' = s" using gs_unlock(2) by (auto simp: ScopedLock_unlock_def)
    then show ?thesis using excl_keep [OF gs_unlock(3)] locked_by_same(1) [of g t x, OF gs_unlock(1)] by simp
  qed
next
  case (gs_delete g t x s s')
  show ?case
  proof (cases "m_locked x")
    case True
    then have "ul t s = Inr s'" using gs_delete(2) by (auto simp: ScopedLock_delete_def ScopedLock_unlock_def rbind_Inr_iff)
    then show ?thesis using excl_give [OF gs_delete(3,1) True] by simp
  next
    case False
    then have "s' = s" using gs_delete(2) by (auto simp: ScopedLock_delete_def ScopedLock_unlock_def)
    then show ?thesis using excl_keep [OF gs_delete(3)] locked_by_same(2) [of g t x, OF gs_delete(1) False] by simp
  qed
qed

lemma excl_reach: "guard_reach lk ul s0 w \<Longrightarrow> excl w"
proof (induction rule: guard_reach.induct)
  case gr_start
  show ?case by (simp add: excl_def locked_by_def start_free)
qed (rule excl_step)

lemma exclusive:
  assumes "guard_reach lk ul s0 (g, s)"
  shows "exclusive_use lk ul g s"
proof -
  note e = excl_reach [OF assms]
  have "\<exists>s'. ScopedLock_delete ul t (x, s) = Inr s'" if x: "g t = Some x" for t x
  proof (cases "m_locked x")
    case True
    then have "\<not> free s" "may t s" using e x by (auto simp: excl_def locked_by_def)
    then show ?thesis using unlock_may [of s t] True by (auto simp: ScopedLock_delete_def ScopedLock_unlock_def)
  qed (simp add: ScopedLock_delete_def ScopedLock_unlock_def)
  moreover have "(\<forall>t'. \<not> locked_by g t') \<longleftrightarrow> lk t s \<noteq> None" for t
  proof -
    have "free s \<longleftrightarrow> lk t s \<noteq> None" using lock_free [of s t] lock_taken [of s t] by (cases "free s") auto
    then show ?thesis using e by (simp add: excl_def)
  qed
  moreover have "\<not> (locked_by g t \<and> locked_by g t' \<and> t \<noteq> t')" for t t' using e by (auto simp: excl_def)
  ultimately show ?thesis unfolding exclusive_use_def by (auto split: option.split)
qed

end

interpretation mutex_lock: lockable Mutex_lock Mutex_unlock "\<lambda>m. m = None" "\<lambda>t m. m = Some t" Mutex
  by unfold_locales (auto simp: Mutex_def Mutex_lock_def Mutex_unlock_def)

interpretation spin_lock: lockable Spinlock_lock Spinlock_unlock "\<lambda>m. m = None" "\<lambda>t m. m = Some t" Spinlock
  by unfold_locales (auto simp: Spinlock_def Spinlock_lock_def Spinlock_unlock_def)

interpretation cas_lock: lockable CASLock_lock CASLock_unlock "\<lambda>f. \<not> f" "\<lambda>_ _. True" CASLock
  by unfold_locales (auto simp: CASLock_def CASLock_lock_def CASLock_unlock_def test_and_set_def)

text \<open>The write side alone is a lock of the same kind.\<close>

interpretation write_lock: lockable wrlock RWMutex_unlock "\<lambda>m. writer m = None \<and> readers m = []"
    "\<lambda>t m. writer m = Some t \<and> readers m = []" RWMutex
  by unfold_locales (auto simp: RWMutex_def wrlock_def RWMutex_unlock_def)

text \<open>The spinning loop returns with the first call that finds the flag clear.\<close>

lemma CASLock_spin_exact:
  "CASLock_spin fs = (if False \<in> set fs then Some (Suc (length (takeWhile (\<lambda>f. f) fs))) else None)"
  by (induction fs) (auto simp: test_and_set_def)

section \<open>Readers and writers\<close>

datatype rw_guard = ReadLock guard | WriteLock guard

inductive rw_step :: "(tid \<Rightarrow> rw_guard option) \<times> rwmutex \<Rightarrow> (tid \<Rightarrow> rw_guard option) \<times> rwmutex \<Rightarrow> bool" where
  rr_new: "g t = None \<Longrightarrow> ReadScopedLock t s = Some (x, s') \<Longrightarrow> rw_step (g, s) (g(t \<mapsto> ReadLock x), s')"
| rr_lock: "g t = Some (ReadLock x) \<Longrightarrow> ReadScopedLock_lock t (x, s) = Some (x', s') \<Longrightarrow> rw_step (g, s) (g(t \<mapsto> ReadLock x'), s')"
| rr_unlock: "g t = Some (ReadLock x) \<Longrightarrow> ReadScopedLock_unlock t (x, s) = Inr (x', s') \<Longrightarrow> rw_step (g, s) (g(t \<mapsto> ReadLock x'), s')"
| rr_delete: "g t = Some (ReadLock x) \<Longrightarrow> ReadScopedLock_delete t (x, s) = Inr s' \<Longrightarrow> rw_step (g, s) (g(t := None), s')"
| rw_new: "g t = None \<Longrightarrow> WriteScopedLock t s = Some (x, s') \<Longrightarrow> rw_step (g, s) (g(t \<mapsto> WriteLock x), s')"
| rw_lock: "g t = Some (WriteLock x) \<Longrightarrow> WriteScopedLock_lock t (x, s) = Some (x', s') \<Longrightarrow> rw_step (g, s) (g(t \<mapsto> WriteLock x'), s')"
| rw_unlock: "g t = Some (WriteLock x) \<Longrightarrow> WriteScopedLock_unlock t (x, s) = Inr (x', s') \<Longrightarrow> rw_step (g, s) (g(t \<mapsto> WriteLock x'), s')"
| rw_delete: "g t = Some (WriteLock x) \<Longrightarrow> WriteScopedLock_delete t (x, s) = Inr s' \<Longrightarrow> rw_step (g, s) (g(t := None), s')"

inductive rw_reach :: "(tid \<Rightarrow> rw_guard option) \<times> rwmutex \<Rightarrow> bool" where
  rw_start: "rw_reach ((\<lambda>_. None), RWMutex)"
| rw_next: "rw_reach w \<Longrightarrow> rw_step w w' \<Longrightarrow> rw_reach w'"

definition reads :: "(tid \<Rightarrow> rw_guard option) \<Rightarrow> tid \<Rightarrow> bool" where
  "reads g t \<longleftrightarrow> (case g t of Some (ReadLock x) \<Rightarrow> m_locked x | _ \<Rightarrow> False)"

definition writes :: "(tid \<Rightarrow> rw_guard option) \<Rightarrow> tid \<Rightarrow> bool" where
  "writes g t \<longleftrightarrow> (case g t of Some (WriteLock x) \<Rightarrow> m_locked x | _ \<Rightarrow> False)"

definition rw_inv :: "(tid \<Rightarrow> rw_guard option) \<times> rwmutex \<Rightarrow> bool" where
  "rw_inv w \<longleftrightarrow> (case w of (g, m) \<Rightarrow>
     (\<forall>t. writer m = Some t \<longleftrightarrow> writes g t) \<and> (\<forall>t. t \<in> set (readers m) \<longleftrightarrow> reads g t)
     \<and> distinct (readers m) \<and> (writer m \<noteq> None \<longrightarrow> readers m = []))"

lemma rw_upd [simp]:
  "reads (g(t \<mapsto> ReadLock x)) t' \<longleftrightarrow> (if t' = t then m_locked x else reads g t')"
  "reads (g(t \<mapsto> WriteLock x)) t' \<longleftrightarrow> t' \<noteq> t \<and> reads g t'"
  "reads (g(t := None)) t' \<longleftrightarrow> t' \<noteq> t \<and> reads g t'"
  "writes (g(t \<mapsto> WriteLock x)) t' \<longleftrightarrow> (if t' = t then m_locked x else writes g t')"
  "writes (g(t \<mapsto> ReadLock x)) t' \<longleftrightarrow> t' \<noteq> t \<and> writes g t'"
  "writes (g(t := None)) t' \<longleftrightarrow> t' \<noteq> t \<and> writes g t'"
  by (simp_all add: reads_def writes_def)

lemma rw_of:
  "g t = Some (ReadLock x) \<Longrightarrow> reads g t \<longleftrightarrow> m_locked x" "g t = Some (ReadLock x) \<Longrightarrow> \<not> writes g t"
  "g t = Some (WriteLock x) \<Longrightarrow> writes g t \<longleftrightarrow> m_locked x" "g t = Some (WriteLock x) \<Longrightarrow> \<not> reads g t"
  "g t = None \<Longrightarrow> \<not> reads g t" "g t = None \<Longrightarrow> \<not> writes g t"
  by (simp_all add: reads_def writes_def)

text \<open>Taking and giving back, whatever the guards are called.\<close>

lemma rw_inv_read:
  assumes "rw_inv (g, m)" "rdlock t m = Some m'" "\<not> reads g t" "\<not> writes g t"
    and "\<And>t'. reads g' t' \<longleftrightarrow> t' = t \<or> reads g t'" "\<And>t'. writes g' t' \<longleftrightarrow> writes g t'"
  shows "rw_inv (g', m')"
  using assms by (auto simp: rw_inv_def rdlock_def split: if_splits)

lemma rw_inv_write:
  assumes "rw_inv (g, m)" "wrlock t m = Some m'"
    and "\<And>t'. reads g' t' \<longleftrightarrow> reads g t'" "\<And>t'. writes g' t' \<longleftrightarrow> t' = t \<or> writes g t'"
  shows "rw_inv (g', m')"
  using assms by (auto simp: rw_inv_def wrlock_def split: if_splits)

lemma rw_unlock_total:
  assumes "rw_inv (g, m)" "reads g t \<or> writes g t"
  shows "\<exists>m'. RWMutex_unlock t m = Inr m'"
  using assms by (auto simp: rw_inv_def RWMutex_unlock_def)

lemma rw_inv_unlock:
  assumes "rw_inv (g, m)" "RWMutex_unlock t m = Inr m'"
    and "\<And>t'. reads g' t' \<longleftrightarrow> t' \<noteq> t \<and> reads g t'" "\<And>t'. writes g' t' \<longleftrightarrow> t' \<noteq> t \<and> writes g t'"
  shows "rw_inv (g', m')"
proof (cases "writer m = Some t")
  case True
  then have "m' = m\<lparr>writer := None\<rparr>" "readers m = []" using assms(1,2) by (auto simp: RWMutex_unlock_def rw_inv_def)
  moreover have "\<not> reads g t'" "writes g t' \<longleftrightarrow> t' = t" for t'
    using assms(1) True calculation(2) by (auto simp: rw_inv_def)
  ultimately show ?thesis using assms(3,4) by (auto simp: rw_inv_def)
next
  case False
  then have "m' = m\<lparr>readers := remove1 t (readers m)\<rparr>" "t \<in> set (readers m)"
    using assms(2) by (auto simp: RWMutex_unlock_def split: if_splits)
  then show ?thesis using False assms(1,3,4) by (auto simp: rw_inv_def)
qed

lemma rw_inv_same:
  "rw_inv (g, m) \<Longrightarrow> m' = m \<Longrightarrow> (\<And>t. reads g' t = reads g t) \<Longrightarrow> (\<And>t. writes g' t = writes g t) \<Longrightarrow> rw_inv (g', m')"
  by (simp add: rw_inv_def)

lemmas rw_guard_defs = ReadScopedLock_def ReadScopedLock_lock_def ReadScopedLock_unlock_def ReadScopedLock_delete_def
  WriteScopedLock_def WriteScopedLock_lock_def WriteScopedLock_unlock_def WriteScopedLock_delete_def

lemma guard_outcome:
  "ReadScopedLock t s = Some (x, s') \<Longrightarrow> m_locked x \<and> rdlock t s = Some s'"
  "ReadScopedLock_lock t (x, s) = Some (x', s') \<Longrightarrow> m_locked x' \<and> (if m_locked x then s' = s else rdlock t s = Some s')"
  "ReadScopedLock_unlock t (x, s) = Inr (x', s') \<Longrightarrow> \<not> m_locked x' \<and> (if m_locked x then RWMutex_unlock t s = Inr s' else s' = s)"
  "ReadScopedLock_delete t (x, s) = Inr s' \<Longrightarrow> (if m_locked x then RWMutex_unlock t s = Inr s' else s' = s)"
  "WriteScopedLock t s = Some (x, s') \<Longrightarrow> m_locked x \<and> wrlock t s = Some s'"
  "WriteScopedLock_lock t (x, s) = Some (x', s') \<Longrightarrow> m_locked x' \<and> (if m_locked x then s' = s else wrlock t s = Some s')"
  "WriteScopedLock_unlock t (x, s) = Inr (x', s') \<Longrightarrow> \<not> m_locked x' \<and> (if m_locked x then RWMutex_unlock t s = Inr s' else s' = s)"
  "WriteScopedLock_delete t (x, s) = Inr s' \<Longrightarrow> (if m_locked x then RWMutex_unlock t s = Inr s' else s' = s)"
  by (auto simp: rw_guard_defs rbind_Inr_iff split: if_splits)

lemma rw_inv_step: "rw_step w w' \<Longrightarrow> rw_inv w \<Longrightarrow> rw_inv w'"
proof (induction rule: rw_step.induct)
  case (rr_new g t s x s')
  note o = rw_of(5,6) [of g t, OF rr_new(1)] guard_outcome(1) [OF rr_new(2)]
  show ?case by (rule rw_inv_read [OF rr_new(3), of t]) (use o in auto)
next
  case (rr_lock g t x s x' s')
  note o = rw_of(1,2) [of g t, OF rr_lock(1)] guard_outcome(2) [OF rr_lock(2)]
  show ?case
  proof (cases "m_locked x")
    case False
    show ?thesis by (rule rw_inv_read [OF rr_lock(3), of t]) (use o False in auto)
  next
    case True
    show ?thesis by (rule rw_inv_same [OF rr_lock(3)]) (use o True in auto)
  qed
next
  case (rr_unlock g t x s x' s')
  note o = rw_of(1,2) [of g t, OF rr_unlock(1)] guard_outcome(3) [OF rr_unlock(2)]
  show ?case
  proof (cases "m_locked x")
    case True
    show ?thesis by (rule rw_inv_unlock [OF rr_unlock(3), of t]) (use o True in auto)
  next
    case False
    show ?thesis by (rule rw_inv_same [OF rr_unlock(3)]) (use o False in auto)
  qed
next
  case (rr_delete g t x s s')
  note o = rw_of(1,2) [of g t, OF rr_delete(1)] guard_outcome(4) [OF rr_delete(2)]
  show ?case
  proof (cases "m_locked x")
    case True
    show ?thesis by (rule rw_inv_unlock [OF rr_delete(3), of t]) (use o True in auto)
  next
    case False
    show ?thesis by (rule rw_inv_same [OF rr_delete(3)]) (use o False in auto)
  qed
next
  case (rw_new g t s x s')
  note o = rw_of(5,6) [of g t, OF rw_new(1)] guard_outcome(5) [OF rw_new(2)]
  show ?case by (rule rw_inv_write [OF rw_new(3), of t]) (use o in auto)
next
  case (rw_lock g t x s x' s')
  note o = rw_of(3,4) [of g t, OF rw_lock(1)] guard_outcome(6) [OF rw_lock(2)]
  show ?case
  proof (cases "m_locked x")
    case False
    show ?thesis by (rule rw_inv_write [OF rw_lock(3), of t]) (use o False in auto)
  next
    case True
    show ?thesis by (rule rw_inv_same [OF rw_lock(3)]) (use o True in auto)
  qed
next
  case (rw_unlock g t x s x' s')
  note o = rw_of(3,4) [of g t, OF rw_unlock(1)] guard_outcome(7) [OF rw_unlock(2)]
  show ?case
  proof (cases "m_locked x")
    case True
    show ?thesis by (rule rw_inv_unlock [OF rw_unlock(3), of t]) (use o True in auto)
  next
    case False
    show ?thesis by (rule rw_inv_same [OF rw_unlock(3)]) (use o False in auto)
  qed
next
  case (rw_delete g t x s s')
  note o = rw_of(3,4) [of g t, OF rw_delete(1)] guard_outcome(8) [OF rw_delete(2)]
  show ?case
  proof (cases "m_locked x")
    case True
    show ?thesis by (rule rw_inv_unlock [OF rw_delete(3), of t]) (use o True in auto)
  next
    case False
    show ?thesis by (rule rw_inv_same [OF rw_delete(3)]) (use o False in auto)
  qed
qed

lemma rw_reach_inv: "rw_reach w \<Longrightarrow> rw_inv w"
proof (induction rule: rw_reach.induct)
  case rw_start
  show ?case by (simp add: rw_inv_def RWMutex_def reads_def writes_def)
qed (rule rw_inv_step)

section \<open>Properties\<close>

text \<open>C32: in every interleaving of any number of threads that make, lock, unlock and destroy scoped
  locks on a mutex, a spin lock or the lock of an atomic flag, at most one of them is inside, no scoped
  lock gives back what its thread does not hold, and a thread gets the lock exactly when nobody has it.\<close>

theorem scoped_lock_exclusive:
  assumes "guard_reach Mutex_lock Mutex_unlock Mutex (g1, m)"
    and "guard_reach Spinlock_lock Spinlock_unlock Spinlock (g2, p)"
    and "guard_reach CASLock_lock CASLock_unlock CASLock (g3, f)"
  shows "exclusive_use Mutex_lock Mutex_unlock g1 m \<and> exclusive_use Spinlock_lock Spinlock_unlock g2 p
    \<and> exclusive_use CASLock_lock CASLock_unlock g3 f"
  using mutex_lock.exclusive [OF assms(1)] spin_lock.exclusive [OF assms(2)] cas_lock.exclusive [OF assms(3)] by blast

text \<open>Thread 2 is inside, thread 3 waits.\<close>

lemma guard_demo:
  "guard_reach Mutex_lock Mutex_unlock Mutex ([2 \<mapsto> \<lparr>m_locked = True\<rparr>], Some 2)"
  "guard_reach Spinlock_lock Spinlock_unlock Spinlock ([2 \<mapsto> \<lparr>m_locked = True\<rparr>], Some 2)"
  "guard_reach CASLock_lock CASLock_unlock CASLock ([2 \<mapsto> \<lparr>m_locked = True\<rparr>], True)"
  by (rule gr_next [OF gr_start gs_new]; simp add: ScopedLock_def Mutex_lock_def Mutex_def Spinlock_lock_def Spinlock_def
      CASLock_lock_def CASLock_def test_and_set_def)+

theorem scoped_lock_exclusive_witness:
  "exclusive_use CASLock_lock CASLock_unlock [2 \<mapsto> \<lparr>m_locked = True\<rparr>] True \<and> CASLock_lock 3 True = None"
  using scoped_lock_exclusive [OF guard_demo] by (simp add: CASLock_lock_def test_and_set_def)

text \<open>C33: in every interleaving of threads with read and write locks on a read-write mutex, a writer is
  alone: nobody else writes and nobody reads; the mutex counts exactly the readers, so that a write
  lock is given exactly when nobody is inside and a read lock when nobody writes; and no lock gives
  back what its thread does not hold.\<close>

theorem rw_lock_exclusive:
  assumes "rw_reach (g, m)"
  shows "(\<forall>t t'. \<not> (writes g t \<and> (reads g t' \<or> writes g t') \<and> t' \<noteq> t))
    \<and> (\<forall>t. wrlock t m \<noteq> None \<longleftrightarrow> (\<forall>t'. \<not> reads g t' \<and> \<not> writes g t')) \<and> (\<forall>t. rdlock t m \<noteq> None \<longleftrightarrow> (\<forall>t'. \<not> writes g t'))
    \<and> distinct (readers m) \<and> set (readers m) = {t. reads g t}
    \<and> (\<forall>t. reads g t \<or> writes g t \<longleftrightarrow> (\<exists>m'. RWMutex_unlock t m = Inr m'))"
proof -
  have i: "rw_inv (g, m)" by (rule rw_reach_inv [OF assms])
  then have w: "writer m = None \<longleftrightarrow> (\<forall>t'. \<not> writes g t')" and r: "readers m = [] \<longleftrightarrow> (\<forall>t'. \<not> reads g t')"
    by (auto simp: rw_inv_def)
  have "RWMutex_unlock t m = Inr m' \<Longrightarrow> reads g t \<or> writes g t" for t m'
    using i by (auto simp: RWMutex_unlock_def rw_inv_def split: if_splits)
  then have u: "reads g t \<or> writes g t \<longleftrightarrow> (\<exists>m'. RWMutex_unlock t m = Inr m')" for t
    using rw_unlock_total [OF i, of t] by blast
  have "\<not> (writes g t \<and> (reads g t' \<or> writes g t') \<and> t' \<noteq> t)" for t t'
    using i by (auto simp: rw_inv_def) (metis option.distinct(1) option.inject)+
  then show ?thesis using i w r u by (auto simp: wrlock_def rdlock_def rw_inv_def)
qed

theorem rw_lock_exclusive_witness:
  "rdlock 4 \<lparr>readers = [3, 2], writer = None\<rparr> \<noteq> None \<and> wrlock 4 \<lparr>readers = [3, 2], writer = None\<rparr> = None"
proof -
  let ?x = "\<lparr>m_locked = True\<rparr>" and ?g = "[2 \<mapsto> ReadLock \<lparr>m_locked = True\<rparr>]"
  have a: "rw_reach (?g, \<lparr>readers = [2], writer = None\<rparr>)"
    by (rule rw_next [OF rw_start rr_new]) (simp_all add: ReadScopedLock_def rdlock_def RWMutex_def)
  have b: "rw_reach (?g(3 \<mapsto> ReadLock ?x), \<lparr>readers = [3, 2], writer = None\<rparr>)"
    by (rule rw_next [OF a rr_new]) (simp_all add: ReadScopedLock_def rdlock_def)
  have "reads (?g(3 \<mapsto> ReadLock ?x)) 3" "\<And>t. \<not> writes (?g(3 \<mapsto> ReadLock ?x)) t" by (simp_all add: writes_def)
  then show ?thesis using rw_lock_exclusive [OF b] by blast
qed

end
