(* ===== verification/ConfigLocks.thy ===== *)
theory ConfigLocks
  imports Configs Locks
begin

text \<open>
  The lock of a configuration variable (\<open>m_mutex\<close> of \<open>ConfigVar\<close>, sylar/config.h) under several threads.
  \<open>setValue\<close> calls the listeners inside its read lock, so what they call runs while their own thread
  reads. The threads' operations on one variable, at \<open>p\<close>, are interleaved here at the points where
  the code of listeners runs and between the two locks of \<open>setValue\<close>.
\<close>

section \<open>Operations with their locks\<close>

text \<open>\<open>l_calls t\<close>: the calls of \<open>setValue\<close> by thread \<open>t\<close> that are calling listeners, the innermost first, as the
  values they set. \<open>l_pend t\<close>: the value of the call that has left its read lock and wants to store.\<close>

record ('v, 'cb) lvar =
  l_cfg :: "('v, 'cb) config"
  l_mx :: rwmutex
  l_calls :: "tid \<Rightarrow> 'v list"
  l_pend :: "tid \<Rightarrow> 'v option"

text \<open>An operation waits (\<open>None\<close>) or goes through.\<close>

text \<open>\<open>setValue\<close> up to the calls of the listeners, or its return when the value is the same.\<close>

definition set_begin :: "'v casts \<Rightarrow> nat \<Rightarrow> 'v \<Rightarrow> tid \<Rightarrow> ('v, 'cb) lvar \<Rightarrow> ('v, 'cb) lvar result option" where
  "set_begin cs p v t w =
     map_option (\<lambda>lock. let (s, go) = setValue_notify cs p v (l_cfg w)
        in if go then Inr (w\<lparr>l_cfg := s, l_mx := snd lock, l_calls := (l_calls w)(t := v # l_calls w t)\<rparr>)
           else rbind (ReadScopedLock_delete t lock) (\<lambda>m. Inr (w\<lparr>l_mx := m\<rparr>)))
       (ReadScopedLock t (l_mx w))"

text \<open>The end of the block: the listeners of the innermost call have returned.\<close>

definition set_leave :: "tid \<Rightarrow> ('v, 'cb) lvar \<Rightarrow> ('v, 'cb) lvar result" where
  "set_leave t w =
     (case l_calls w t of [] \<Rightarrow> Inl (Undefined ''not in setValue'')
      | v # vs \<Rightarrow> rbind (ReadScopedLock_delete t (\<lparr>m_locked = True\<rparr>, l_mx w))
          (\<lambda>m. Inr (w\<lparr>l_mx := m, l_calls := (l_calls w)(t := vs), l_pend := (l_pend w)(t := Some v)\<rparr>)))"

text \<open>An operation whose body is one write lock: the second part of \<open>setValue\<close>, \<open>addListener\<close>,
  \<open>delListener\<close>, \<open>clearListener\<close>.\<close>

definition write_locked :: "(('v, 'cb) config \<Rightarrow> ('v, 'cb) config) \<Rightarrow> tid \<Rightarrow> ('v, 'cb) lvar \<Rightarrow> ('v, 'cb) lvar result option" where
  "write_locked f t w =
     map_option (\<lambda>lock. rbind (WriteScopedLock_delete t lock) (\<lambda>m. Inr (w\<lparr>l_cfg := f (l_cfg w), l_mx := m\<rparr>)))
       (WriteScopedLock t (l_mx w))"

text \<open>One whose body is one read lock: \<open>getValue\<close>, \<open>getListener\<close>, \<open>toString\<close>.\<close>

definition read_locked :: "(('v, 'cb) config \<Rightarrow> 'r) \<Rightarrow> tid \<Rightarrow> ('v, 'cb) lvar \<Rightarrow> (('v, 'cb) lvar \<times> 'r) result option" where
  "read_locked f t w =
     map_option (\<lambda>lock. rbind (ReadScopedLock_delete t lock) (\<lambda>m. Inr (w\<lparr>l_mx := m\<rparr>, f (l_cfg w))))
       (ReadScopedLock t (l_mx w))"

definition writers :: "nat \<Rightarrow> (('v, 'cb) config \<Rightarrow> ('v, 'cb) config) set" where
  "writers p = {\<lambda>s. fst (addListener p cb s) | cb. True} \<union> {delListener p k | k. True} \<union> {clearListener p}"

inductive lstep :: "'v casts \<Rightarrow> nat \<Rightarrow> tid \<Rightarrow> ('v, 'cb) lvar \<Rightarrow> ('v, 'cb) lvar \<Rightarrow> bool" for cs p t where
  ls_begin: "l_pend w t = None \<Longrightarrow> set_begin cs p v t w = Some (Inr w') \<Longrightarrow> lstep cs p t w w'"
| ls_leave: "l_pend w t = None \<Longrightarrow> set_leave t w = Inr w' \<Longrightarrow> lstep cs p t w w'"
| ls_store: "l_pend w t = Some v \<Longrightarrow> write_locked (setValue_store p v) t (w\<lparr>l_pend := (l_pend w)(t := None)\<rparr>) = Some (Inr w')
     \<Longrightarrow> lstep cs p t w w'"
| ls_write: "l_pend w t = None \<Longrightarrow> f \<in> writers p \<Longrightarrow> write_locked f t w = Some (Inr w') \<Longrightarrow> lstep cs p t w w'"
| ls_read: "l_pend w t = None \<Longrightarrow> read_locked f t w = Some (Inr (w', r :: unit)) \<Longrightarrow> lstep cs p t w w'"

text \<open>Steps of any threads but those in \<open>X\<close>.\<close>

inductive lsteps :: "'v casts \<Rightarrow> nat \<Rightarrow> tid set \<Rightarrow> ('v, 'cb) lvar \<Rightarrow> ('v, 'cb) lvar \<Rightarrow> bool" for cs p X where
  lss_refl: "lsteps cs p X w w"
| lss_step: "lsteps cs p X w w' \<Longrightarrow> t \<notin> X \<Longrightarrow> lstep cs p t w' w'' \<Longrightarrow> lsteps cs p X w w''"

definition lvar_init :: "('v, 'cb) config \<Rightarrow> ('v, 'cb) lvar" where
  "lvar_init s = \<lparr>l_cfg = s, l_mx = RWMutex, l_calls = (\<lambda>_. []), l_pend = (\<lambda>_. None)\<rparr>"

section \<open>The lock and the calls agree\<close>

definition lv_inv :: "('v, 'cb) lvar \<Rightarrow> bool" where
  "lv_inv w \<longleftrightarrow> writer (l_mx w) = None \<and> (\<forall>t. count_list (readers (l_mx w)) t = length (l_calls w t))"

lemmas lock_defs = set_begin_def set_leave_def write_locked_def read_locked_def ReadScopedLock_def WriteScopedLock_def
  ReadScopedLock_delete_def ReadScopedLock_unlock_def WriteScopedLock_delete_def WriteScopedLock_unlock_def rdlock_def wrlock_def RWMutex_unlock_def

lemma count_remove1: "count_list (remove1 x xs) y = count_list xs y - (if x = y then 1 else 0)"
  by (induction xs) auto

lemma lv_inv_step: "lstep cs p t w w' \<Longrightarrow> lv_inv w \<Longrightarrow> lv_inv w'"
proof (induction rule: lstep.induct)
  case (ls_leave w w')
  then show ?case by (auto simp: lv_inv_def lock_defs count_remove1 split: list.splits if_splits)
qed (auto simp: lv_inv_def lock_defs split: if_splits prod.splits)

text \<open>Who does not step keeps its calls; while anyone calls listeners, nothing is stored.\<close>

lemma lstep_keeps:
  assumes "lstep cs p u w w'" and inv: "lv_inv w" and t: "l_calls w t \<noteq> []" "u \<noteq> t"
  shows "l_calls w' t = l_calls w t" "l_pend w' t = l_pend w t" "getValue q (l_cfg w') = getValue q (l_cfg w)"
proof -
  have "readers (l_mx w) \<noteq> []" using inv t(1) by (auto simp: lv_inv_def)
  then show "l_calls w' t = l_calls w t" "l_pend w' t = l_pend w t" "getValue q (l_cfg w') = getValue q (l_cfg w)"
    using assms by (auto elim!: lstep.cases simp: lock_defs setValue_notify_def Let_def getValue_def split: list.splits if_splits)
qed

lemma lv_inv_init: "lv_inv (lvar_init s)"
  by (simp add: lv_inv_def lvar_init_def RWMutex_def)

lemma lsteps_inv: "lsteps cs p X w w' \<Longrightarrow> lv_inv w \<Longrightarrow> lv_inv w'"
  by (induction rule: lsteps.induct) (auto intro: lv_inv_step)

lemma lsteps_keep:
  "lsteps cs p X w w' \<Longrightarrow> lv_inv w \<Longrightarrow> l_calls w t \<noteq> [] \<Longrightarrow> t \<in> X
    \<Longrightarrow> l_calls w' t = l_calls w t \<and> l_pend w' t = l_pend w t \<and> getValue q (l_cfg w') = getValue q (l_cfg w)"
proof (induction rule: lsteps.induct)
  case (lss_step w w' u w'')
  then show ?case using lstep_keeps [OF lss_step(3) lsteps_inv [OF lss_step(1)], of t] by metis
qed simp

text \<open>While someone calls listeners nobody gets the write lock.\<close>

lemma no_write:
  assumes "lv_inv w" and "l_calls w t \<noteq> []"
  shows "write_locked f u w = None"
proof -
  have "readers (l_mx w) \<noteq> []" using assms by (auto simp: lv_inv_def)
  then show ?thesis by (simp add: lock_defs)
qed

lemma pending_stuck:
  assumes inv: "lv_inv w" and t: "l_calls w t \<noteq> []" "l_pend w t \<noteq> None"
  shows "\<not> lstep cs p t w w'"
proof
  assume "lstep cs p t w w'"
  then show False
    by (cases rule: lstep.cases) (use t no_write [OF inv t(1)] inv in \<open>auto simp: lv_inv_def lock_defs split: if_splits\<close>)
qed

lemma lsteps_frozen:
  "lsteps cs p {} w w' \<Longrightarrow> lv_inv w \<Longrightarrow> l_calls w t \<noteq> [] \<Longrightarrow> l_pend w t \<noteq> None \<Longrightarrow> lsteps cs p {t} w w'"
proof (induction rule: lsteps.induct)
  case (lss_step w w' u w'')
  have k: "lsteps cs p {t} w w'" using lss_step by blast
  then have "\<not> lstep cs p t w' w''"
    using lsteps_keep [OF k lss_step(5,6)] lsteps_inv [OF k lss_step(5)] pending_stuck [of w' t] lss_step(6,7) by simp
  then have "u \<noteq> t" using lss_step(3) by blast
  then show ?case using lsteps.lss_step [OF k _ lss_step(3)] by simp
qed (simp add: lss_refl)

section \<open>Properties\<close>

text \<open>C28: a listener must not write to the variable that notifies it. Whoever runs a listener of a variable
  reads it; a listener that adds or removes a listener of this variable waits for the end of its own
  call, in every interleaving of the others, and a listener that sets the variable to another value
  notifies once more and then is stuck for ever. From then on no thread can set the variable or
  change its listeners: the value that was there stays.\<close>

theorem listener_self_deadlock:
  assumes reach: "lsteps cs p {} (lvar_init s) w" and inside: "l_calls w t \<noteq> []"
  shows "(\<forall>w'. lsteps cs p {t} w w' \<longrightarrow>
        (\<forall>u f. write_locked f u w' = None) \<and> getValue p (l_cfg w') = getValue p (l_cfg w))
    \<and> (\<forall>v. l_pend w t = None \<longrightarrow> \<not> val_eq cs (m_type (var_at (l_cfg w) p)) v (getValue p (l_cfg w)) \<longrightarrow>
        (\<exists>w1 w2. set_begin cs p v t w = Some (Inr w1) \<and> set_leave t w1 = Inr w2
          \<and> (\<forall>w'. lsteps cs p {} w2 w' \<longrightarrow> (\<forall>w''. \<not> lstep cs p t w' w'')
               \<and> (\<forall>u f. write_locked f u w' = None) \<and> getValue p (l_cfg w') = getValue p (l_cfg w))))"
proof -
  have inv: "lv_inv w" by (rule lsteps_inv [OF reach lv_inv_init])
  have one: "(\<forall>u f. write_locked f u w' = None) \<and> getValue p (l_cfg w') = getValue p (l_cfg x)"
    if "lsteps cs p {t} x w'" "lv_inv x" "l_calls x t \<noteq> []" for x w'
    using lsteps_keep [OF that(1-3)] lsteps_inv [OF that(1,2)] no_write [of w' t] that(3) by simp
  moreover have "\<exists>w1 w2. set_begin cs p v t w = Some (Inr w1) \<and> set_leave t w1 = Inr w2
          \<and> (\<forall>w'. lsteps cs p {} w2 w' \<longrightarrow> (\<forall>w''. \<not> lstep cs p t w' w'')
               \<and> (\<forall>u f. write_locked f u w' = None) \<and> getValue p (l_cfg w') = getValue p (l_cfg w))"
    if pend: "l_pend w t = None" and ne: "\<not> val_eq cs (m_type (var_at (l_cfg w) p)) v (getValue p (l_cfg w))" for v
  proof -
    have wr: "writer (l_mx w) = None" using inv by (simp add: lv_inv_def)
    obtain w1 where w1: "set_begin cs p v t w = Some (Inr w1)" "l_calls w1 t = v # l_calls w t" "l_pend w1 t = None"
      "t \<in> set (readers (l_mx w1))" "writer (l_mx w1) = None" "getValue p (l_cfg w1) = getValue p (l_cfg w)"
      using wr ne pend by (simp add: lock_defs setValue_notify_def getValue_def Let_def)
    then obtain w2 where w2: "set_leave t w1 = Inr w2" "l_calls w2 t = l_calls w t" "l_pend w2 t = Some v"
      "getValue p (l_cfg w2) = getValue p (l_cfg w1)"
      by (simp add: lock_defs)
    have inv2: "lv_inv w2"
      using lv_inv_step [OF ls_leave [OF w1(3) w2(1)]] lv_inv_step [OF ls_begin [OF pend w1(1)]] inv by blast
    have in2: "l_calls w2 t \<noteq> []" "l_pend w2 t \<noteq> None" using w2 inside by simp_all
    have "(\<forall>w''. \<not> lstep cs p t w' w'') \<and> (\<forall>u f. write_locked f u w' = None) \<and> getValue p (l_cfg w') = getValue p (l_cfg w)"
      if "lsteps cs p {} w2 w'" for w'
    proof -
      have f: "lsteps cs p {t} w2 w'" by (rule lsteps_frozen [OF that inv2 in2])
      then show ?thesis
        using one [OF f inv2 in2(1)] lsteps_keep [OF f inv2 in2(1)] lsteps_inv [OF f inv2] pending_stuck [of w' t] in2 w1(6) w2(4)
        by simp
    qed
    then show ?thesis using w1(1) w2(1) by blast
  qed
  ultimately show ?thesis using inv inside by blast
qed

theorem listener_self_deadlock_witness:
  "\<exists>w w1 w2. set_begin cdemo_casts 3 7 1 (lvar_init cdemo) = Some (Inr w) \<and> write_locked (delListener 3 1) 1 w = None
    \<and> set_begin cdemo_casts 3 6 1 w = Some (Inr w1) \<and> set_leave 1 w1 = Inr w2
    \<and> (\<forall>w'. lsteps cdemo_casts 3 {} w2 w' \<longrightarrow> getValue 3 (l_cfg w') = 5 \<and> (\<forall>w''. \<not> lstep cdemo_casts 3 1 w' w''))"
proof -
  have ne: "\<not> val_eq cdemo_casts (m_type (var_at cdemo 3)) 7 (m_val (var_at cdemo 3))" "m_val (var_at cdemo 3) = 5"
    using cdemo(3) by (simp_all add: cdemo_casts_def getValue_def)
  obtain w where w: "set_begin cdemo_casts 3 7 1 (lvar_init cdemo) = Some (Inr w)" "l_calls w 1 \<noteq> []" "l_pend w 1 = None"
    "getValue 3 (l_cfg w) = 5"
    using ne by (simp add: lock_defs lvar_init_def RWMutex_def setValue_notify_def Let_def getValue_def)
  have r: "lsteps cdemo_casts 3 {} (lvar_init cdemo) w"
    by (rule lss_step [OF lss_refl _ ls_begin [OF _ w(1)]]) (simp_all add: lvar_init_def)
  have ne6: "\<not> val_eq cdemo_casts (m_type (var_at (l_cfg w) 3)) 6 (getValue 3 (l_cfg w))" using w(4) by (simp add: cdemo_casts_def)
  show ?thesis using listener_self_deadlock [OF r w(2)] w lss_refl ne6 by metis
qed

end
