(* ===== verification/Threads.thy ===== *)
theory Threads
  imports Locks
begin

text \<open>
  sylar/thread.h and sylar/thread.cpp: the class Thread over pthreads. A constructor runs in the
  creating thread and \<open>run\<close> in the new one; they meet at the semaphore. Threads are known by their
  kernel identifiers, objects by addresses (0 is null), pthread handles by numbers (0 is none). What
  \<open>pthread_create\<close> and \<open>pthread_join\<close> return is an argument.
\<close>

section \<open>State\<close>

record 'cb thread =
  m_id :: "tid option"
  m_thread :: nat
  m_cb :: "'cb option"
  m_name :: string
  m_semaphore :: nat

datatype handle = Joinable | Joined | Detached

text \<open>\<open>alive\<close> are the objects that exist, \<open>comm\<close> the names of the threads in the kernel; \<open>t_thread\<close>
  and \<open>t_thread_name\<close> are the variables of each thread.\<close>

record 'cb threads =
  thread_at :: "nat \<Rightarrow> 'cb thread"
  alive :: "nat set"
  handle_at :: "nat \<Rightarrow> handle"
  t_thread :: "tid \<Rightarrow> nat"
  t_thread_name :: "tid \<Rightarrow> string"
  comm :: "tid \<Rightarrow> string"

definition put_thread :: "nat \<Rightarrow> 'cb thread \<Rightarrow> 'cb threads \<Rightarrow> 'cb threads" where
  "put_thread p x s = s\<lparr>thread_at := (thread_at s)(p := x)\<rparr>"

section \<open>Operations\<close>

definition GetThis :: "tid \<Rightarrow> 'cb threads \<Rightarrow> nat" where
  "GetThis t s = t_thread s t"

definition GetName :: "tid \<Rightarrow> 'cb threads \<Rightarrow> string" where
  "GetName t s = t_thread_name s t"

definition SetName :: "tid \<Rightarrow> string \<Rightarrow> 'cb threads \<Rightarrow> 'cb threads result" where
  "SetName t name s =
     rbind (if t_thread s t \<noteq> 0
            then (if t_thread s t \<in> alive s
                  then Inr (put_thread (t_thread s t) ((thread_at s (t_thread s t))\<lparr>m_name := name\<rparr>) s)
                  else Inl (Undefined ''dangling t_thread''))
            else Inr s)
       (\<lambda>s1. Inr (s1\<lparr>t_thread_name := (t_thread_name s1)(t := name)\<rparr>))"

text \<open>The constructor up to \<open>pthread_create\<close>, and what that returned: a code and a handle. When it
  fails the object is gone.\<close>

definition Thread_begin :: "tid \<Rightarrow> nat \<Rightarrow> 'cb \<Rightarrow> string \<Rightarrow> 'cb threads \<Rightarrow> 'cb threads" where
  "Thread_begin t this cb name s =
     (put_thread this \<lparr>m_id = None, m_thread = 0, m_cb = Some cb,
        m_name = (if name = [] then ''UNKNOW'' else name), m_semaphore = 0\<rparr> s)
      \<lparr>alive := insert this (alive s), t_thread := (t_thread s)(t := this)\<rparr>"

definition Thread_create :: "int \<Rightarrow> nat \<Rightarrow> nat \<Rightarrow> 'cb threads \<Rightarrow> 'cb threads \<times> unit result" where
  "Thread_create rt h this s =
     (if rt \<noteq> 0 then (s\<lparr>alive := alive s - {this}\<rparr>, Inl (Thrown ''pthread_create error''))
      else ((put_thread this ((thread_at s this)\<lparr>m_thread := h\<rparr>) s)\<lparr>handle_at := (handle_at s)(h := Joinable)\<rparr>, Inr ()))"

text \<open>The end of the constructor: \<open>m_semaphore.wait()\<close>.\<close>

definition Thread_wait :: "bool \<Rightarrow> nat \<Rightarrow> 'cb threads \<Rightarrow> 'cb threads result option" where
  "Thread_wait interrupted this s =
     map_option (\<lambda>r. rbind r (\<lambda>n. Inr (put_thread this ((thread_at s this)\<lparr>m_semaphore := n\<rparr>) s)))
       (wait interrupted (m_semaphore (thread_at s this)))"

definition Thread_join :: "int \<Rightarrow> nat \<Rightarrow> 'cb threads \<Rightarrow> 'cb threads \<times> unit result" where
  "Thread_join rt this s =
     (let x = thread_at s this
      in if m_thread x = 0 then (s, Inr ())
         else if handle_at s (m_thread x) \<noteq> Joinable then (s, Inl (Undefined ''pthread_join''))
         else if rt \<noteq> 0 then (s, Inl (Thrown ''pthread_join error''))
         else ((put_thread this (x\<lparr>m_thread := 0\<rparr>) s)\<lparr>handle_at := (handle_at s)(m_thread x := Joined)\<rparr>, Inr ()))"

definition Thread_delete :: "nat \<Rightarrow> 'cb threads \<Rightarrow> 'cb threads result" where
  "Thread_delete this s =
     (let x = thread_at s this; gone = s\<lparr>alive := alive s - {this}\<rparr>
      in if m_thread x = 0 then Inr gone
         else if handle_at s (m_thread x) \<noteq> Joinable then Inl (Undefined ''pthread_detach'')
         else Inr (gone\<lparr>handle_at := (handle_at s)(m_thread x := Detached)\<rparr>))"

text \<open>\<open>Thread::run\<close>, one statement at a time; the pair is the next statement and the local \<open>cb\<close>.\<close>

datatype thread_pc = R_this | R_name | R_id | R_comm | R_swap | R_notify | R_call | R_end

definition Thread_run :: "tid \<Rightarrow> nat \<Rightarrow> (thread_pc \<times> 'cb option) \<times> 'cb threads \<Rightarrow> ((thread_pc \<times> 'cb option) \<times> 'cb threads) result" where
  "Thread_run c thread w =
     (case w of ((pc, cb), s) \<Rightarrow>
        let x = thread_at s thread
        in case pc of
             R_this \<Rightarrow> Inr ((R_name, cb), s\<lparr>t_thread := (t_thread s)(c := thread)\<rparr>)
           | R_name \<Rightarrow> Inr ((R_id, cb), s\<lparr>t_thread_name := (t_thread_name s)(c := m_name x)\<rparr>)
           | R_id \<Rightarrow> Inr ((R_comm, cb), put_thread thread (x\<lparr>m_id := Some c\<rparr>) s)
           | R_comm \<Rightarrow> Inr ((R_swap, cb), s\<lparr>comm := (comm s)(c := take 15 (m_name x))\<rparr>)
           | R_swap \<Rightarrow> Inr ((R_notify, m_cb x), put_thread thread (x\<lparr>m_cb := cb\<rparr>) s)
           | R_notify \<Rightarrow> rbind (notify (m_semaphore x)) (\<lambda>n. Inr ((R_call, cb), put_thread thread (x\<lparr>m_semaphore := n\<rparr>) s))
           | R_call \<Rightarrow> (case cb of None \<Rightarrow> Inl (Thrown ''bad_function_call'') | Some _ \<Rightarrow> Inr ((R_end, cb), s))
           | R_end \<Rightarrow> Inr w)"

section \<open>The two threads at the semaphore\<close>

text \<open>Creator and new thread in any order. The creator is in its \<open>wait\<close> or has returned; the new
  thread \<open>c\<close> runs until its function has returned. The steps begin when \<open>pthread_create\<close> has returned
  and stored the handle; a \<open>sem_wait\<close> that a signal interrupts, which throws, is not a step.\<close>

type_synonym 'cb start = "bool \<times> (thread_pc \<times> 'cb option) \<times> 'cb threads"

inductive start_step :: "tid \<Rightarrow> nat \<Rightarrow> 'cb start \<Rightarrow> 'cb start \<Rightarrow> bool" for c this where
  st_run: "pc \<noteq> R_end \<Longrightarrow> Thread_run c this ((pc, cb), s) = Inr (r, s') \<Longrightarrow> start_step c this (ret, (pc, cb), s) (ret, r, s')"
| st_wait: "Thread_wait False this s = Some (Inr s') \<Longrightarrow> start_step c this (False, r, s) (True, r, s')"

text \<open>States reached in a number of steps from the return of \<open>pthread_create\<close>.\<close>

inductive start_reach :: "tid \<Rightarrow> nat \<Rightarrow> 'cb threads \<Rightarrow> nat \<Rightarrow> 'cb start \<Rightarrow> bool" for c this s0 where
  sr_start: "start_reach c this s0 0 (False, (R_this, None), s0)"
| sr_next: "start_reach c this s0 n w \<Longrightarrow> start_step c this w w' \<Longrightarrow> start_reach c this s0 (Suc n) w'"

inductive_cases start_stepE: "start_step c this (ret, r, s) w'"

primrec pc_num :: "thread_pc \<Rightarrow> nat" where
  "pc_num R_this = 0"
| "pc_num R_name = 1"
| "pc_num R_id = 2"
| "pc_num R_comm = 3"
| "pc_num R_swap = 4"
| "pc_num R_notify = 5"
| "pc_num R_call = 6"
| "pc_num R_end = 7"

lemma put_thread_frames [simp]:
  "thread_at (put_thread p x s) = (thread_at s)(p := x)" "alive (put_thread p x s) = alive s"
  "handle_at (put_thread p x s) = handle_at s" "t_thread (put_thread p x s) = t_thread s"
  "t_thread_name (put_thread p x s) = t_thread_name s" "comm (put_thread p x s) = comm s"
  by (simp_all add: put_thread_def)

text \<open>What is true at each statement: \<open>name\<close> and \<open>cb\<close> are those of the object, \<open>p\<close> is the creator.\<close>

definition start_inv :: "tid \<Rightarrow> tid \<Rightarrow> nat \<Rightarrow> string \<Rightarrow> 'cb \<Rightarrow> nat \<Rightarrow> nat \<Rightarrow> 'cb start \<Rightarrow> bool" where
  "start_inv p c this name cb h n w \<longleftrightarrow> (case w of (ret, (pc, loc), s) \<Rightarrow>
     n = pc_num pc + (if ret then 1 else 0)
     \<and> m_name (thread_at s this) = name \<and> m_thread (thread_at s this) = h
     \<and> t_thread s p = this \<and> this \<in> alive s \<and> handle_at s h = Joinable
     \<and> (0 < pc_num pc \<longrightarrow> t_thread s c = this) \<and> (1 < pc_num pc \<longrightarrow> t_thread_name s c = name)
     \<and> (2 < pc_num pc \<longrightarrow> m_id (thread_at s this) = Some c) \<and> (3 < pc_num pc \<longrightarrow> comm s c = take 15 name)
     \<and> (if 4 < pc_num pc then loc = Some cb \<and> m_cb (thread_at s this) = None
        else loc = None \<and> m_cb (thread_at s this) = Some cb)
     \<and> m_semaphore (thread_at s this) = (if 5 < pc_num pc \<and> \<not> ret then 1 else 0)
     \<and> (ret \<longrightarrow> 5 < pc_num pc))"

lemma start_inv_step:
  assumes "start_step c this w w'" "start_inv p c this name cb h n w" "p \<noteq> c"
  shows "start_inv p c this name cb h (Suc n) w'"
  using assms
proof (cases rule: start_step.cases)
  case (st_run pc loc s r s' ret)
  then show ?thesis using assms(2,3)
    by (cases pc) (auto simp: Thread_run_def start_inv_def Let_def notify_def SEM_VALUE_MAX_def rbind_Inr_iff split: if_splits)
next
  case (st_wait s s' r)
  then show ?thesis using assms(2)
    by (cases r; cases "fst r") (auto simp: start_inv_def Thread_wait_def wait_def split: if_splits)
qed

lemma start_inv_reach:
  assumes "start_reach c this s0 n w" "start_inv p c this name cb h 0 (False, (R_this, None), s0)" "p \<noteq> c"
  shows "start_inv p c this name cb h n w"
  using assms(1)
proof (induction rule: start_reach.induct)
  case sr_start
  show ?case by (rule assms(2))
next
  case (sr_next n w w')
  then show ?case using start_inv_step [OF sr_next(2,3) assms(3)] by blast
qed

lemma start_inv_begin:
  assumes "Thread_create 0 h this (Thread_begin p this cb name s) = (s0, r)"
  shows "start_inv p c this (if name = [] then ''UNKNOW'' else name) cb h 0 (False, (R_this, None), s0)"
  using assms by (auto simp: Thread_create_def Thread_begin_def start_inv_def)

text \<open>Nothing is left to do only at the end.\<close>

lemma start_progress:
  assumes i: "start_inv p c this name cb h n (ret, (pc, loc), s)"
  shows "(\<exists>w'. start_step c this (ret, (pc, loc), s) w') \<longleftrightarrow> \<not> (ret \<and> pc = R_end)"
proof
  assume "\<exists>w'. start_step c this (ret, (pc, loc), s) w'"
  then show "\<not> (ret \<and> pc = R_end)" by (auto elim: start_stepE)
next
  assume n: "\<not> (ret \<and> pc = R_end)"
  show "\<exists>w'. start_step c this (ret, (pc, loc), s) w'"
  proof (cases "pc = R_end")
    case False
    have "\<exists>r s'. Thread_run c this ((pc, loc), s) = Inr (r, s')"
      using i False by (cases pc) (auto simp: Thread_run_def start_inv_def Let_def notify_def SEM_VALUE_MAX_def)
    then show ?thesis using st_run [OF False] by blast
  next
    case True
    then have "\<not> ret" "m_semaphore (thread_at s this) = 1" using n i by (auto simp: start_inv_def)
    then obtain s' where s': "Thread_wait False this s = Some (Inr s')" by (simp add: Thread_wait_def wait_def)
    have "ret = False" using \<open>\<not> ret\<close> by simp
    then show ?thesis using st_wait [OF s', of c "(pc, loc)"] by blast
  qed
qed

section \<open>Handles\<close>

text \<open>A thread object joined as often as one likes, with these results of \<open>pthread_join\<close>; exceptions
  are caught by the callers.\<close>

fun joins :: "int list \<Rightarrow> nat \<Rightarrow> 'cb threads \<Rightarrow> 'cb threads \<times> unit result list" where
  "joins [] this s = (s, [])"
| "joins (rt # rts) this s =
     (let (s1, r) = Thread_join rt this s; (s2, rs) = joins rts this s1 in (s2, r # rs))"

lemma joins_after:
  "m_thread (thread_at s this) = 0 \<Longrightarrow> joins rts this s = (s, map (\<lambda>_. Inr ()) rts)"
  by (induction rts) (simp_all add: Thread_join_def Let_def)

lemma joins_outcome:
  assumes "m_thread (thread_at s this) = h" "h \<noteq> 0" "handle_at s h = Joinable"
  shows "\<exists>s' rs. joins rts this s = (s', rs) \<and> (\<forall>r \<in> set rs. r = Inr () \<or> r = Inl (Thrown ''pthread_join error''))
    \<and> m_thread (thread_at s' this) = (if 0 \<in> set rts then 0 else h)
    \<and> handle_at s' = (handle_at s)(h := if 0 \<in> set rts then Joined else Joinable)"
  using assms(3)
proof (induction rts)
  case Nil
  then show ?case using assms by (simp add: fun_upd_idem)
next
  case (Cons rt rts)
  show ?case
  proof (cases "rt = 0")
    case True
    let ?s1 = "(put_thread this ((thread_at s this)\<lparr>m_thread := 0\<rparr>) s)\<lparr>handle_at := (handle_at s)(h := Joined)\<rparr>"
    have "Thread_join rt this s = (?s1, Inr ())" using True assms Cons.prems by (simp add: Thread_join_def Let_def)
    moreover have "joins rts this ?s1 = (?s1, map (\<lambda>_. Inr ()) rts)" by (rule joins_after) simp
    ultimately show ?thesis using True by auto
  next
    case False
    then have "Thread_join rt this s = (s, Inl (Thrown ''pthread_join error''))" using assms Cons.prems by (simp add: Thread_join_def Let_def)
    then show ?thesis using Cons False by (auto simp: split_beta Let_def)
  qed
qed

section \<open>Properties\<close>

text \<open>The state of the witnesses: the main thread 100 makes a thread 101 from the object at 8.\<close>

definition tdemo0 :: "nat threads" where
  "tdemo0 = \<lparr>thread_at = (\<lambda>_. \<lparr>m_id = None, m_thread = 0, m_cb = None, m_name = [], m_semaphore = 0\<rparr>), alive = {},
     handle_at = (\<lambda>_. Detached), t_thread = (\<lambda>_. 0), t_thread_name = (\<lambda>_. ''MainThread''), comm = (\<lambda>_. ''test'')\<rparr>"

definition tdemo :: "nat threads" where
  "tdemo = fst (Thread_create 0 5 8 (Thread_begin 100 8 30 ''worker'' tdemo0))"

lemma tdemo: "Thread_create 0 5 8 (Thread_begin 100 8 30 ''worker'' tdemo0) = (tdemo, Inr ())"
  by (simp add: tdemo_def Thread_create_def)

text \<open>C31: creating a thread always ends: from the return of \<open>pthread_create\<close> the two threads make at
  most eight steps between them, in whatever order, and stop only when the constructor has returned
  and the function was called. When the constructor has returned, the object carries the identifier
  of the new thread and its name, the new thread knows the object, goes by its name (in the kernel:
  by its first 15 characters) and holds the function, which the object holds no longer; the semaphore
  is used up.\<close>

theorem thread_handshake:
  assumes "Thread_create 0 h this (Thread_begin p this cb name s) = (s0, r)" and "p \<noteq> c"
    and "start_reach c this s0 n (ret, (pc, loc), s')"
  shows "n \<le> 8 \<and> ((\<exists>w'. start_step c this (ret, (pc, loc), s') w') \<longleftrightarrow> \<not> (ret \<and> pc = R_end))
    \<and> (\<not> ret \<or> (m_id (thread_at s' this) = Some c \<and> m_cb (thread_at s' this) = None \<and> loc = Some cb
         \<and> m_name (thread_at s' this) = (if name = [] then ''UNKNOW'' else name)
         \<and> GetThis c s' = this \<and> GetName c s' = m_name (thread_at s' this) \<and> comm s' c = take 15 (GetName c s')
         \<and> m_thread (thread_at s' this) = h \<and> m_semaphore (thread_at s' this) = 0))"
proof -
  note i = start_inv_reach [OF assms(3) start_inv_begin [OF assms(1)] assms(2)]
  have "n \<le> 8" using i by (cases pc) (auto simp: start_inv_def)
  then show ?thesis using start_progress [OF i] i by (auto simp: start_inv_def GetThis_def GetName_def)
qed

lemma tdemo_run:
  "\<exists>s'. start_reach 101 8 tdemo 7 (True, (R_call, Some 30), s')"
proof -
  have r: "m_semaphore (thread_at tdemo 8) = 0" "m_cb (thread_at tdemo 8) = Some 30"
    by (simp_all add: tdemo_def Thread_create_def Thread_begin_def)
  note step = sr_next [OF _ st_run]
  obtain s1 where 1: "start_reach 101 8 tdemo 1 (False, (R_name, None), s1)" "thread_at s1 = thread_at tdemo"
    using step [OF sr_start, where c = 101] by (fastforce simp: Thread_run_def Let_def)
  obtain s2 where 2: "start_reach 101 8 tdemo 2 (False, (R_id, None), s2)" "thread_at s2 = thread_at tdemo"
    using step [OF 1(1)] 1(2) by (fastforce simp: Thread_run_def Let_def numeral_2_eq_2)
  obtain s3 where 3: "start_reach 101 8 tdemo 3 (False, (R_comm, None), s3)" "m_semaphore (thread_at s3 8) = 0" "m_cb (thread_at s3 8) = Some 30"
    using step [OF 2(1)] 2(2) r by (fastforce simp: Thread_run_def Let_def numeral_3_eq_3)
  obtain s4 where 4: "start_reach 101 8 tdemo 4 (False, (R_swap, None), s4)" "m_semaphore (thread_at s4 8) = 0" "m_cb (thread_at s4 8) = Some 30"
    using step [OF 3(1)] 3(2,3) by (fastforce simp: Thread_run_def Let_def)
  obtain s5 where 5: "start_reach 101 8 tdemo 5 (False, (R_notify, Some 30), s5)" "m_semaphore (thread_at s5 8) = 0"
    using step [OF 4(1)] 4(2,3) by (fastforce simp: Thread_run_def Let_def)
  obtain s6 where 6: "start_reach 101 8 tdemo 6 (False, (R_call, Some 30), s6)" "m_semaphore (thread_at s6 8) = 1"
    using step [OF 5(1)] 5(2) by (fastforce simp: Thread_run_def Let_def notify_def SEM_VALUE_MAX_def)
  have "\<exists>s7. Thread_wait False 8 s6 = Some (Inr s7)" using 6(2) by (simp add: Thread_wait_def wait_def)
  then show ?thesis using sr_next [OF 6(1) st_wait] by fastforce
qed

theorem thread_handshake_witness:
  "\<exists>s'. start_reach 101 8 tdemo 7 (True, (R_call, Some 30), s') \<and> GetName 101 s' = ''worker'' \<and> m_id (thread_at s' 8) = Some 101"
proof -
  obtain s' where s': "start_reach 101 8 tdemo 7 (True, (R_call, Some 30), s')" using tdemo_run by blast
  from thread_handshake [OF tdemo _ s'] show ?thesis using s' by auto
qed

text \<open>C39: however often a thread object is joined, and whatever \<open>pthread_join\<close> returns, its handle is
  given back exactly once: joined by the first join that succeeds, or else detached by the destructor;
  no join or detach meets a handle that was given back before.\<close>

theorem thread_released_once:
  assumes "m_thread (thread_at s this) = h" "h \<noteq> 0" "handle_at s h = Joinable"
  shows "\<exists>s1 rs s2. joins rts this s = (s1, rs) \<and> (\<forall>r \<in> set rs. r = Inr () \<or> r = Inl (Thrown ''pthread_join error''))
    \<and> Thread_delete this s1 = Inr s2 \<and> handle_at s2 = (handle_at s)(h := if 0 \<in> set rts then Joined else Detached)"
proof -
  obtain s1 rs where j: "joins rts this s = (s1, rs)" "\<forall>r \<in> set rs. r = Inr () \<or> r = Inl (Thrown ''pthread_join error'')"
    "m_thread (thread_at s1 this) = (if 0 \<in> set rts then 0 else h)"
    "handle_at s1 = (handle_at s)(h := if 0 \<in> set rts then Joined else Joinable)"
    using joins_outcome [OF assms] by blast
  have "\<exists>s2. Thread_delete this s1 = Inr s2 \<and> handle_at s2 = (handle_at s)(h := if 0 \<in> set rts then Joined else Detached)"
    using j(3,4) assms(2) by (simp add: Thread_delete_def Let_def)
  then show ?thesis using j(1,2) by blast
qed

theorem thread_released_once_witness:
  "\<exists>s1 rs s2. joins [35, 0, 0] 8 tdemo = (s1, rs) \<and> Thread_delete 8 s1 = Inr s2 \<and> handle_at s2 5 = Joined"
proof -
  have "m_thread (thread_at tdemo 8) = 5" "(5 :: nat) \<noteq> 0" "handle_at tdemo 5 = Joinable"
    by (simp_all add: tdemo_def Thread_create_def Thread_begin_def)
  from thread_released_once [OF this, of "[35, 0, 0]"] show ?thesis by fastforce
qed

text \<open>C40: the constructor makes the new object the creating thread's own: until that thread creates
  another one, its \<open>SetName\<close> renames the new thread's object (not the new thread), and once the
  object is destroyed it writes through a dangling pointer; so it does when \<open>pthread_create\<close> failed,
  and in the new thread when the object is destroyed while it runs.\<close>

theorem thread_creator_alias:
  assumes c: "Thread_create 0 h this (Thread_begin p this cb name s) = (s0, r)" "p \<noteq> c" "this \<noteq> 0" "h \<noteq> 0"
    and reach: "start_reach c this s0 n (True, (pc, loc), s')"
  shows "\<exists>s1 s2 s3. SetName p other s' = Inr s1 \<and> m_name (thread_at s1 this) = other \<and> GetName c s1 = GetName c s'
    \<and> Thread_delete this s' = Inr s2 \<and> SetName p other s2 = Inl (Undefined ''dangling t_thread'')
    \<and> SetName c other s2 = Inl (Undefined ''dangling t_thread'')
    \<and> Thread_create 11 h this (Thread_begin p this cb name s) = (s3, Inl (Thrown ''pthread_create error''))
    \<and> SetName p other s3 = Inl (Undefined ''dangling t_thread'')"
proof -
  have "start_inv p c this (if name = [] then ''UNKNOW'' else name) cb h n (True, (pc, loc), s')"
    by (rule start_inv_reach [OF reach start_inv_begin [OF c(1)] c(2)])
  then have i: "t_thread s' p = this" "t_thread s' c = this" "this \<in> alive s'" "m_thread (thread_at s' this) = h" "handle_at s' h = Joinable"
    by (auto simp: start_inv_def)
  let ?s1 = "(put_thread this ((thread_at s' this)\<lparr>m_name := other\<rparr>) s')\<lparr>t_thread_name := (t_thread_name s')(p := other)\<rparr>"
  let ?s2 = "s'\<lparr>alive := alive s' - {this}, handle_at := (handle_at s')(h := Detached)\<rparr>"
  let ?s3 = "(Thread_begin p this cb name s)\<lparr>alive := alive (Thread_begin p this cb name s) - {this}\<rparr>"
  have "SetName p other s' = Inr ?s1" using i c(3) by (simp add: SetName_def)
  moreover have "m_name (thread_at ?s1 this) = other" "GetName c ?s1 = GetName c s'" using c(2) by (simp_all add: GetName_def)
  moreover have "Thread_delete this s' = Inr ?s2" using i c(4) by (simp add: Thread_delete_def Let_def)
  moreover have "SetName p other ?s2 = Inl (Undefined ''dangling t_thread'')" "SetName c other ?s2 = Inl (Undefined ''dangling t_thread'')"
    using i c(3) by (simp_all add: SetName_def)
  moreover have "Thread_create 11 h this (Thread_begin p this cb name s) = (?s3, Inl (Thrown ''pthread_create error''))"
    by (simp add: Thread_create_def)
  moreover have "SetName p other ?s3 = Inl (Undefined ''dangling t_thread'')" using c(3) by (simp add: SetName_def Thread_begin_def)
  ultimately show ?thesis by blast
qed

theorem thread_creator_alias_witness:
  "\<exists>s' s1. start_reach 101 8 tdemo 7 (True, (R_call, Some 30), s') \<and> SetName 100 ''main'' s' = Inr s1 \<and> m_name (thread_at s1 8) = ''main''"
proof -
  obtain s' where s': "start_reach 101 8 tdemo 7 (True, (R_call, Some 30), s')" using tdemo_run by blast
  from thread_creator_alias [OF tdemo _ _ _ s', of "''main''"] show ?thesis using s' by auto
qed

end
