(* ===== verification/Utils.thy ===== *)
theory Utils
  imports Fibers "HOL-Library.Signed_Division"
begin

text \<open>
  sylar/util.cc and sylar/singleton.h: singletons, the clock, the identifiers of the running fiber, and the backtrace that a failed
  assertion logs. What \<open>gettimeofday\<close>, \<open>malloc\<close>, \<open>backtrace\<close> and \<open>backtrace_symbols\<close> answer are
  arguments; memory is the set of the addresses of the allocated blocks.
\<close>

section \<open>Singletons\<close>

text \<open>The static object of \<open>GetInstance\<close>, \<open>None\<close> before the first call: \<open>T()\<close> is made by that call and kept.
  \<open>SingletonPtr\<close> keeps a shared pointer to \<open>new T\<close>; the number counts the copies handed out.\<close>

definition Singleton_GetInstance :: "'t \<Rightarrow> 't option \<Rightarrow> 't option \<times> 't" where
  "Singleton_GetInstance made v = (case v of None \<Rightarrow> (Some made, made) | Some x \<Rightarrow> (Some x, x))"

definition SingletonPtr_GetInstance :: "nat \<Rightarrow> (nat \<times> nat) option \<Rightarrow> (nat \<times> nat) option \<times> nat" where
  "SingletonPtr_GetInstance new v =
     (let (p, copies) = (case v of None \<Rightarrow> (new, 1) | Some x \<Rightarrow> x) in (Some (p, copies + 1), p))"

lemma singleton_once:
  "snd (Singleton_GetInstance b (fst (Singleton_GetInstance a v))) = snd (Singleton_GetInstance a v)"
  "snd (SingletonPtr_GetInstance q (fst (SingletonPtr_GetInstance p u))) = snd (SingletonPtr_GetInstance p u)"
  by (auto simp: Singleton_GetInstance_def SingletonPtr_GetInstance_def Let_def split: option.splits prod.splits)

section \<open>Clock and identifiers\<close>

text \<open>\<open>tv_sec * 1000ul + tv_usec / 1000\<close>: the division is signed, the rest unsigned.\<close>

definition GetCurrentMs :: "int \<times> int \<Rightarrow> u64" where
  "GetCurrentMs tv = word_of_int (fst tv) * 1000 + word_of_int (snd tv sdiv 1000)"

text \<open>\<open>GetThreadId\<close> returns what the system call answered, \<open>GetFiberId\<close> the low 32 bits of the
  fiber's identifier.\<close>

definition GetFiberId :: "'c fstate \<Rightarrow> u32" where
  "GetFiberId s = ucast (Fibers.GetFiberId s)"

section \<open>Backtraces\<close>

text \<open>\<open>free\<close>.\<close>

definition free_block :: "nat \<Rightarrow> nat set \<Rightarrow> nat set result" where
  "free_block p blocks = (if p \<in> blocks then Inr (blocks - {p}) else Inl (Undefined ''free''))"

text \<open>\<open>for (size_t i = skip; i < s; ++i) bt.emplace_back(strings[i])\<close>.\<close>

function copy_strings :: "string list \<Rightarrow> u64 \<Rightarrow> string list \<Rightarrow> string list" where
  "copy_strings strings i bt =
     (if i < of_nat (length strings) then copy_strings strings (i + 1) (bt @ [strings ! unat i]) else bt)"
  by auto

lemma next_index:
  assumes "i < (w :: u64)"
  shows "unat (i + 1) = unat i + 1"
proof -
  have "unat i < unat w" using assms by (simp add: word_less_nat_alt)
  then have "unat i + 1 < 2 ^ 64" using unsigned_less [of w, where ?'a = nat] by simp
  then show ?thesis by (simp add: unat_word_ariths)
qed

termination copy_strings
proof (relation "measure (\<lambda>(_, i, _). 2 ^ 64 - unat i)")
  fix strings :: "string list" and i :: u64 and bt :: "string list"
  assume "i < of_nat (length strings)"
  then have "unat (i + 1) = unat i + 1" by (rule next_index)
  moreover have "unat (i + 1) < 2 ^ 64" using unsigned_less [of "i + 1", where ?'a = nat] by simp
  ultimately show "((strings, i + 1, bt @ [strings ! unat i]), strings, i, bt) \<in> measure (\<lambda>(_, i, _). 2 ^ 64 - unat i)"
    by simp
qed simp

declare copy_strings.simps [simp del]

text \<open>\<open>Backtrace\<close>. \<open>buffer\<close> is what \<open>malloc(sizeof(void*) * size)\<close> answers, \<open>frames\<close> how many
  addresses \<open>backtrace\<close> writes there, \<open>syms\<close> what \<open>backtrace_symbols\<close> answers: the address of the
  array and its strings, one for each frame, or null.\<close>

definition Backtrace ::
    "(u64 \<Rightarrow> nat option) \<Rightarrow> (int \<Rightarrow> nat) \<Rightarrow> (nat \<Rightarrow> (nat \<times> string list) option) \<Rightarrow> string list \<Rightarrow> int \<Rightarrow> int
       \<Rightarrow> nat set \<Rightarrow> (string list \<times> nat set) result" where
  "Backtrace malloc frames syms bt sz skip blocks =
     (let buffer = malloc (8 * word_of_int sz); s = frames sz
      in case buffer of
           None \<Rightarrow> Inl (Undefined ''null buffer'')
         | Some b \<Rightarrow>
            (let blocks1 = insert b blocks
             in case syms s of
                  None \<Rightarrow> Inr (bt, blocks1)
                | Some (strings, ls) \<Rightarrow>
                    (let bt1 = copy_strings ls (word_of_int skip) bt
                     in rbind (free_block strings (insert strings blocks1))
                       (\<lambda>blocks2. rbind (free_block b blocks2) (\<lambda>blocks3. Inr (bt1, blocks3))))))"

text \<open>\<open>BacktraceToString\<close>: every line behind the prefix.\<close>

definition BacktraceToString ::
    "(u64 \<Rightarrow> nat option) \<Rightarrow> (int \<Rightarrow> nat) \<Rightarrow> (nat \<Rightarrow> (nat \<times> string list) option) \<Rightarrow> int \<Rightarrow> int \<Rightarrow> string
       \<Rightarrow> nat set \<Rightarrow> (string \<times> nat set) result" where
  "BacktraceToString malloc frames syms sz skip prefix blocks =
     rbind (Backtrace malloc frames syms [] sz skip blocks)
       (\<lambda>(bt, blocks1). Inr (concat (map (\<lambda>l. prefix @ l @ [CHR 0x0A]) bt), blocks1))"

section \<open>Lemmas\<close>

lemma copy_strings_drop:
  assumes len: "length ls < 2 ^ 64"
  shows "copy_strings ls i bt = bt @ drop (unat i) ls"
  using len
proof (induction ls i bt rule: copy_strings.induct)
  case (1 ls i bt)
  have n: "unat (of_nat (length ls) :: u64) = length ls" using 1(2) by (simp add: unat_of_nat)
  show ?case
  proof (cases "i < of_nat (length ls)")
    case True
    then have l: "unat i < length ls" using n by (simp add: word_less_nat_alt)
    have "copy_strings ls i bt = (bt @ [ls ! unat i]) @ drop (unat i + 1) ls"
      using 1 True next_index [OF True] by (subst copy_strings.simps) simp
    then show ?thesis using l by (simp add: Cons_nth_drop_Suc)
  next
    case False
    then have "length ls \<le> unat i" using n by (simp add: word_less_nat_alt)
    then show ?thesis using False by (subst copy_strings.simps) simp
  qed
qed

text \<open>A negative \<open>skip\<close> becomes an index past every array.\<close>

lemma unat_skip:
  assumes "- (2 ^ 31) \<le> skip" and "skip < 2 ^ 31"
  shows "unat (word_of_int skip :: u64) = (if 0 \<le> skip then nat skip else nat (2 ^ 64 + skip))"
proof -
  have "skip mod 2 ^ 64 = (if 0 \<le> skip then skip else 2 ^ 64 + skip)"
  proof (cases "0 \<le> skip")
    case False
    have "skip mod 2 ^ 64 = (2 ^ 64 + skip) mod 2 ^ 64" by simp
    also have "\<dots> = 2 ^ 64 + skip" using False assms by (intro mod_pos_pos_trivial) simp_all
    finally show ?thesis using False by simp
  qed (use assms in simp)
  then show ?thesis by (auto simp: unat_eq_nat_uint uint_word_of_int)
qed

lemma Backtrace_outcome:
  assumes m: "malloc (8 * word_of_int sz) = Some b" "b \<notin> blocks"
    and skip: "- (2 ^ 31) \<le> skip" "skip < 2 ^ 31"
    and syms: "\<forall>a ls. syms (frames sz) = Some (a, ls) \<longrightarrow> a \<notin> insert b blocks \<and> length ls < 2 ^ 31"
  shows "Backtrace malloc frames syms bt sz skip blocks = Inr (case syms (frames sz) of
      None \<Rightarrow> (bt, insert b blocks)
    | Some (_, ls) \<Rightarrow> (bt @ (if 0 \<le> skip then drop (nat skip) ls else []), blocks))"
proof (cases "syms (frames sz)")
  case None
  then show ?thesis using m by (simp add: Backtrace_def)
next
  case (Some x)
  obtain a ls where x: "x = (a, ls)" by force
  have a: "a \<notin> insert b blocks" and l: "length ls < 2 ^ 31" using syms Some x by auto
  have "copy_strings ls (word_of_int skip) bt = bt @ (if 0 \<le> skip then drop (nat skip) ls else [])"
    using copy_strings_drop [of ls "word_of_int skip" bt] l skip unat_skip [OF skip] by simp
  moreover have "insert a (insert b blocks) - {a} = insert b blocks" "insert b blocks - {b} = blocks" using a m(2) by auto
  ultimately show ?thesis using m Some x a by (auto simp: Backtrace_def free_block_def Let_def)
qed

section \<open>Properties\<close>

text \<open>The millisecond clock is the time of day rounded down to milliseconds, as long as that fits
  in 64 bits, and so never goes back while the time of day does not.\<close>

theorem clock_exact:
  assumes tv: "0 \<le> s" "0 \<le> us" "us < 1000000" "s < 2 ^ 54" and tv': "0 \<le> s'" "0 \<le> us'" "us' < 1000000" "s' < 2 ^ 54"
  shows "uint (GetCurrentMs (s, us)) = (s * 1000000 + us) div 1000
    \<and> (s * 1000000 + us \<le> s' * 1000000 + us' \<longrightarrow> GetCurrentMs (s, us) \<le> GetCurrentMs (s', us'))"
proof -
  have c: "uint (GetCurrentMs (x, y)) = (x * 1000000 + y) div 1000" if "0 \<le> x" "0 \<le> y" "y < 1000000" "x < 2 ^ 54" for x y
  proof -
    have q: "y sdiv 1000 = y div 1000" using that by (cases "y = 0") (simp_all add: signed_divide_int_def)
    have b: "0 \<le> x * 1000 + y div 1000" "x * 1000 + y div 1000 < 2 ^ 64" using that by auto
    have "GetCurrentMs (x, y) = word_of_int (x * 1000 + y div 1000)" by (simp add: GetCurrentMs_def q)
    moreover have "(x * 1000 + y div 1000) mod 2 ^ 64 = x * 1000 + y div 1000" using b by simp
    ultimately have "uint (GetCurrentMs (x, y)) = x * 1000 + y div 1000"
      by (simp only: uint_word_of_int) (simp add: b)
    also have "\<dots> = (x * 1000000 + y) div 1000" by simp
    finally show ?thesis .
  qed
  then show ?thesis using tv tv' by (simp add: word_le_def zdiv_mono1)
qed

theorem clock_exact_witness: "uint (GetCurrentMs (1700000000, 999999)) = 1700000000999"
  using clock_exact [of 1700000000 999999 1700000000 999999] by simp

text \<open>A backtrace is exactly the lines of the frames from \<open>skip\<close> on, each behind the prefix (none at
  all for a negative \<open>skip\<close>), and all memory it took is free again; but when the symbols cannot be
  had, it is empty, and the buffer of the addresses stays allocated.\<close>

theorem backtrace_exact:
  assumes m: "malloc (8 * word_of_int sz) = Some b" "b \<notin> blocks"
    and skip: "- (2 ^ 31) \<le> skip" "skip < 2 ^ 31"
    and syms: "\<forall>a ls. syms (frames sz) = Some (a, ls) \<longrightarrow> a \<notin> insert b blocks \<and> length ls < 2 ^ 31"
  shows "BacktraceToString malloc frames syms sz skip prefix blocks = Inr (case syms (frames sz) of
      None \<Rightarrow> ([], insert b blocks)
    | Some (_, ls) \<Rightarrow> (if 0 \<le> skip then concat (map (\<lambda>l. prefix @ l @ [CHR 0x0A]) (drop (nat skip) ls)) else [], blocks))"
  using Backtrace_outcome [of malloc sz b blocks skip syms frames "[]", OF m skip syms]
  by (simp add: BacktraceToString_def split: option.splits prod.splits)

theorem backtrace_exact_witness:
  "BacktraceToString (\<lambda>n. if n = 800 then Some 3 else None) (\<lambda>_. 3) (\<lambda>n. Some (4, replicate n ''f'')) 100 2 ''> '' {1, 2}
    = Inr (''> f'' @ [CHR 0x0A], {1, 2})"
proof -
  let ?syms = "\<lambda>n. Some (4 :: nat, replicate n ''f'')"
  have "\<forall>a ls. ?syms 3 = Some (a, ls) \<longrightarrow> a \<notin> insert 3 {1, 2} \<and> length ls < 2 ^ 31" by simp
  moreover have "drop (nat 2) (replicate 3 ''f'') = [''f'']" by (simp add: numeral_3_eq_3 numeral_2_eq_2)
  ultimately show ?thesis
    using backtrace_exact [of "\<lambda>n. if n = 800 then Some 3 else None" 100 3 "{1, 2}" 2 ?syms "\<lambda>_. 3" "''> ''"] by simp
qed

end
