(* ===== verification/Spec2Isabelle.thy ===== *)
theory Spec2Isabelle
  imports Timers SchedLife IOManagers Sleeps LogConfigs ConfigTypes ConfigLocks Threads Utils
begin

text \<open>
  A verification library for sylar, a C++ server framework (src/sylar): fibers that a pool of
  threads runs, timers and an epoll loop that wake them, hooks that turn blocking system calls into
  waits of a fiber, a configuration system and a log library configured by it.

  \<^bold>\<open>The program and the theories.\<close> A fiber (fiber.cpp) is a function with a stack of its own. A
  scheduler (scheduler.cpp) keeps a queue of fibers and functions that its threads take from. The IO
  manager (iomanager.cpp) is a scheduler and a timer manager (timer.cpp) whose idle fiber waits in
  epoll\_wait, for at most the time to the next timer. The hooks (hook.cpp) replace read, write,
  connect, sleep and others: with the table of descriptors (fd\_manager.cpp) they tell which calls to
  replace, and register the running fiber with the IO manager before they switch it away. Locks and
  threads (mutex.h, thread.cpp) are below all of this, the configuration (config.h) and the log
  library (log.cc) beside it.

  \<^item> \<open>Prelude\<close>: faults (a failed assertion, undefined behaviour, an exception) as values, sequencing,
    words, vectors. \<open>StdSet\<close>: std::set and std::map over a comparator, with the locales \<open>weak_order\<close>
    and \<open>strict_order\<close>.
  \<^item> \<open>Timers\<close>: Timer and TimeManager. Timers are addresses of a heap, the set \<open>m_timers\<close> a list in the
    order of the comparator; \<open>timer_order\<close> interprets \<open>strict_order\<close>. Lemmas: the set stays sorted, every
    operation's outcome, refinement to a map of armed timers.
  \<^item> \<open>Fibers\<close>: Fiber over one thread; \<open>ucontext\<close> is the point where an activation continues. Lemmas:
    reachable states, what swapIn and the ways of leaving do in them.
  \<^item> \<open>Schedulers\<close>: the queue, start, stop, and run cut at its swapIns. The locale \<open>task_sink\<close> is what
    others need of schedule. Lemmas: no fault in the run of a scheduler's only thread under a stated
    discipline, the queue as a history of the locked sections of all threads.
    \<open>SchedRuns\<close>: the loop of run as a whole, for a queue of functions: it drains the queue and ends.
    \<open>SchedLife\<close>: a scheduler on the caller's thread alone, from its constructor to its destructor.
  \<^item> \<open>IOManagers\<close>: contexts of descriptors, addEvent to cancelAll, one round of idle, the destructor.
    Lemmas: the count, the interest list and the contexts agree; what a report of the kernel triggers.
  \<^item> \<open>FdManagers\<close>: FdCtx and FdManager, behind the locale \<open>fd_table\<close>. \<open>Hooks\<close>: the replaced calls, cut
    where their fiber waits. Lemmas: each way a wait can end (by a timer that a round of idle takes out,
    or by a report), and the flags of the descriptors.
    \<open>Sleeps\<close>: a sleep from end to end, through hooks, timers, idle and the queue.
  \<^item> \<open>LogFormats\<close>: levels, events, the pattern parser. \<open>Loggers\<close>: loggers, appenders and the manager in
    an explicit store. \<open>Yamls\<close>, \<open>Configs\<close>: what is used of yaml-cpp, casts, variables, the registry, loading.
    \<open>LogConfigs\<close>: the variable "logs" and its listener, which joins the two. \<open>ConfigTypes\<close>: names keep their
    types. \<open>ConfigLocks\<close>: the lock of a variable, listeners and several threads, on \<open>Configs\<close> and \<open>Locks\<close>.
  \<^item> \<open>Locks\<close>: mutexes, scoped locks (locale \<open>lockable\<close>, interpreted for mutex, spin lock, atomic flag and
    the write side of the read-write mutex) and the semaphore. \<open>Threads\<close>: Thread, its constructor and
    run interleaved at the semaphore. \<open>Utils\<close>: singletons, the clock and the backtraces of util.cc.

  \<^bold>\<open>State and effects.\<close> State is passed explicitly: objects that are shared through pointers live in
  functions from addresses, which are natural numbers or types of their own; a new object's address is
  an argument, fresh where a lemma needs it. Machine integers have their width: uint64\_t deadlines,
  uint32\_t seconds, the epoll bit masks. Failing assertions, undefined behaviour and exceptions are
  values of \<open>fault\<close>; where code catches an exception the model does too.

  \<^bold>\<open>Arguments for the environment.\<close> Results of system calls (epoll\_ctl, epoll\_wait, write to the
  wake-up pipe, fcntl, the original functions behind the hooks, pthread\_create), the clock, strftime and
  yaml-cpp are arguments; laws that a property needs of them are hypotheses with a name in its statement
  (\<open>seq_law\<close>, \<open>map_law\<close>, \<open>node_laws\<close>, \<open>throws_only\<close>, a bound on strftime).

  \<^bold>\<open>Bounds.\<close> \<open>Logger_log\<close> counts the loggers of the chain to the root; two are enough, since every
  logger's root is the root logger (shown for all reachable states). \<open>ListAllMember\<close> counts the depth of
  the tree, and is total with the depth of the tree. Loops that wait are fed with the list of
  the results of their calls, and return no result while the list is used up (\<open>call_loop\<close>,
  \<open>epoll_wait_loop\<close>, \<open>CASLock_spin\<close>). \<open>run_loop\<close> takes a round for each way of leaving
  in its list, and \<open>n + 2\<close> rounds are enough for \<open>n\<close> queued functions. All other loops recur on data.

  \<^bold>\<open>Concurrency.\<close> Operations that hold a lock all the time are one step, which the exclusion proved in
  \<open>Locks\<close> justifies; where the code drops a lock in between (the resizing of the contexts, the two
  parts of setValue, the constructor of a thread), or calls out while it
  holds one (listeners), the parts are steps of their own, interleaved. The loop of run is one thread's:
  its counts of active and idle threads are plain members that all threads change without the lock, so
  what is said about them holds for a scheduler with one scheduling thread only.

  \<^bold>\<open>Scope of some properties.\<close> The descriptor table is shown to mirror the kernel for threads with hooks
  enabled and without a successful ioctl(FIONBIO) of 0. A path of the configuration is specified on its
  own, as the keys that lead to a node (\<open>tree_nodes\<close>, \<open>dotted\<close>). Listeners of variables return, appenders
  are not given null formatters, and a thread's creator waits in a sem\_wait that no signal interrupts.

  \<^bold>\<open>Not modelled.\<close> The machine code of context switches and stack allocation; the texts printed on
  std::cout; locking inside the C++ streams; the memory of reference counts beyond the lifetimes
  named; the tests.
\<close>

end
